(* ===== verification/Uvco_Prelude.thy ===== *)
theory Uvco_Prelude
  imports Main "HOL-Library.Word"
begin

text \<open>
  Shared vocabulary of the development: coroutine handles, libuv status codes, the
  exceptions of \<open>src/uvco/exception.h\<close>, the outcome type of fallible code, and the
  generic lemmas on lists and machine words that the component theories use.

  A \<open>std::coroutine_handle<>\<close> is the address of a coroutine frame or null: \<open>handle\<close>
  is \<open>coro option\<close>, with \<open>None\<close> for \<open>nullptr\<close>.
  Code that can fail returns a pair of the state it leaves behind and an outcome:
  \<open>Ok\<close> for a normal return, \<open>Exn\<close> for a thrown exception and \<open>Abort\<close> for a failing
  \<open>BOOST_ASSERT\<close> or \<open>BOOST_VERIFY\<close> (debug semantics: the process ends).
\<close>

section \<open>Named collections\<close>

named_theorems uvco_defs \<open>unfolding equations of the modelled operations\<close>

section \<open>Types shared by all components\<close>

type_synonym coro = nat
type_synonym handle = "coro option"
type_synonym uv_status = int
type_synonym u16 = "16 word"
type_synonym u32 = "32 word"
type_synonym u64 = "64 word"

text \<open>The status codes the sources name, with the values libuv gives them on Linux.\<close>

definition UV_EOF :: uv_status where "UV_EOF = -4095"
definition UV_EAGAIN :: uv_status where "UV_EAGAIN = -11"
definition UV_EBUSY :: uv_status where "UV_EBUSY = -16"
definition UV_EINVAL :: uv_status where "UV_EINVAL = -22"
definition UV_ENOSYS :: uv_status where "UV_ENOSYS = -38"
definition UV_ENOTCONN :: uv_status where "UV_ENOTCONN = -107"
definition UV_ECANCELED :: uv_status where "UV_ECANCELED = -125"

lemmas uv_codes =
  UV_EOF_def UV_EAGAIN_def UV_EBUSY_def UV_EINVAL_def UV_ENOSYS_def UV_ENOTCONN_def
  UV_ECANCELED_def

section \<open>Exceptions (exception.h, exception.cc)\<close>

text \<open>
  \<open>UvcoException\<close> has two constructors: from a message alone (the status stays
  \<open>nullopt\<close>) and from a libuv status and the place where it occurred. Any other
  exception that crosses the library is a \<open>StdException\<close>.
\<close>

datatype exn =
    UvcoMessage string
  | UvcoStatus uv_status string
  | StdException string

fun exn_status :: "exn \<Rightarrow> uv_status option" where
  "exn_status (UvcoMessage m) = None"
| "exn_status (UvcoStatus s w) = Some s"
| "exn_status (StdException m) = None"

text \<open>
  \<open>UvcoException::what()\<close>. The name of a status is libuv's \<open>uv_err_name_r\<close>, a
  parameter.
\<close>

fun UvcoException_what :: "(uv_status \<Rightarrow> string) \<Rightarrow> exn \<Rightarrow> string" where
  "UvcoException_what err_name (UvcoMessage m) = m"
| "UvcoException_what err_name (UvcoStatus s w) =
     ''UV error '' @ err_name s @ '' ('' @ w @ '')''"
| "UvcoException_what err_name (StdException m) = m"

section \<open>Outcomes of fallible code\<close>

datatype 'a res = Ok 'a | Exn exn | Abort string

text \<open>
  Sequencing: the second computation runs on the state and the value of the first one; an
  exception or an abort of the first one is the outcome of the whole, and the state it left
  behind stays.
\<close>

definition rbind :: "'s \<times> 'a res \<Rightarrow> ('s \<Rightarrow> 'a \<Rightarrow> 's \<times> 'b res) \<Rightarrow> 's \<times> 'b res" where
  "rbind p k = (case p of (s, r) \<Rightarrow>
     (case r of Ok a \<Rightarrow> k s a | Exn e \<Rightarrow> (s, Exn e) | Abort m \<Rightarrow> (s, Abort m)))"

lemma rbind_simps [simp]:
  "rbind (s, Ok a) k = k s a"
  "rbind (s, Exn e) k = (s, Exn e)"
  "rbind (s, Abort m) k = (s, Abort m)"
  by (simp_all add: rbind_def)

fun map_res :: "('a \<Rightarrow> 'b) \<Rightarrow> 'a res \<Rightarrow> 'b res" where
  "map_res f (Ok a) = Ok (f a)"
| "map_res f (Exn e) = Exn e"
| "map_res f (Abort m) = Abort m"

section \<open>Lists\<close>

lemma mod_window_neq:
  fixes t i s c :: nat
  assumes "i < s" "s < c"
  shows "(t + i) mod c \<noteq> (t + s) mod c"
proof
  assume eq: "(t + i) mod c = (t + s) mod c"
  have "t + i \<le> t + s" using assms by simp
  with eq have "c dvd (t + s) - (t + i)"
    by (metis mod_eq_dvd_iff_nat)
  then have "c dvd s - i" by simp
  moreover have "0 < s - i" "s - i < c" using assms by auto
  ultimately show False by (auto dest: dvd_imp_le)
qed

lemma mod_window_inj:
  fixes t i j c :: nat
  assumes "(t + i) mod c = (t + j) mod c" "i < c" "j < c"
  shows "i = j"
  using assms mod_window_neq [of i j c t] mod_window_neq [of j i c t]
  by (metis linorder_neqE_nat)

lemma count_list_filter: "count_list xs x = length (filter (\<lambda>y. y = x) xs)"
  by (induction xs) auto

section \<open>Machine words\<close>

lemma unat_plus_one_u32:
  fixes w :: u32
  assumes "unat w < c" "c < 2 ^ 32"
  shows "unat (w + 1) = unat w + 1"
proof -
  have "unat w + 1 < 2 ^ 32" using assms by linarith
  then show ?thesis by (simp add: unat_word_ariths)
qed

lemma unat_of_nat_u32: "c < 2 ^ 32 \<Longrightarrow> unat (word_of_nat c :: u32) = c"
  by (simp add: unat_of_nat take_bit_nat_eq_self)

lemma unat_minus_one_u32:
  fixes w :: u32
  assumes "0 < unat w"
  shows "unat (w - 1) = unat w - 1"
  using assms by (metis less_irrefl unat_0 unat_minus_one)

lemma u32_eq_0_iff: "(w :: u32) = 0 \<longleftrightarrow> unat w = 0"
  by (simp add: unat_eq_zero)

text \<open>Occurrences in lists, and queues of handles with cleared entries.\<close>

lemma count_list_distinct: "distinct xs \<Longrightarrow> count_list xs x = (if x \<in> set xs then 1 else 0)"
  by (induction xs) auto

lemma filter_unique:
  assumes "distinct xs" "\<And>x. x \<in> set xs \<Longrightarrow> P x \<longleftrightarrow> x = p"
  shows "length (filter P xs) = (if p \<in> set xs then 1 else 0)"
proof -
  have "filter P xs = filter (\<lambda>x. x = p) xs" using assms(2) by (rule filter_cong [OF refl])
  moreover have "length (filter (\<lambda>x. x = p) xs) = count_list xs p" by (induction xs) auto
  ultimately show ?thesis using assms(1) by (simp add: count_list_distinct)
qed

lemma count_list_keep: "P x \<Longrightarrow> count_list (filter P xs) x = count_list xs x"
  by (induction xs) auto

lemma filter_nulled:
  "filter (\<lambda>h. h \<noteq> None) (map (\<lambda>h. if h \<in> Some ` D then None else h) q) =
   filter (\<lambda>h. h \<notin> Some ` D) (filter (\<lambda>h. h \<noteq> None) q)"
  by (induction q) auto

lemma filter_tail_member:
  assumes "filter (\<lambda>h. h \<noteq> None) q = Some d # filter (\<lambda>h. h \<noteq> None) q'"
    and "distinct (filter (\<lambda>h. h \<noteq> None) q)"
  shows "Some d \<in> set q" "Some d \<notin> set q'" "distinct (filter (\<lambda>h. h \<noteq> None) q')"
    "x \<noteq> d \<Longrightarrow> Some x \<in> set q' \<longleftrightarrow> Some x \<in> set q"
proof -
  have m: "Some x \<in> set q \<longleftrightarrow> Some x \<in> set (Some d # filter (\<lambda>h. h \<noteq> None) q')" for x
    unfolding assms(1) [symmetric] by simp
  from m [of d] show "Some d \<in> set q" by simp
  from assms show "Some d \<notin> set q'" "distinct (filter (\<lambda>h. h \<noteq> None) q')" by auto
  from m [of x] show "x \<noteq> d \<Longrightarrow> Some x \<in> set q' \<longleftrightarrow> Some x \<in> set q" by simp
qed

section \<open>Systems driven by events\<close>

text \<open>
  Several components are exercised by sequences of events (calls, callbacks of libuv, turns of
  the event loop, cancellations) in any order. A run stops at the first event that throws or
  aborts; a guarded run is one in which every event satisfies a condition on the state it meets.
\<close>

fun res_run :: "('e \<Rightarrow> 's \<Rightarrow> 's \<times> unit res) \<Rightarrow> 'e list \<Rightarrow> 's \<Rightarrow> 's \<times> unit res" where
  "res_run step [] s = (s, Ok ())"
| "res_run step (e # es) s = rbind (step e s) (\<lambda>s1 u. res_run step es s1)"

fun guarded_run :: "('e \<Rightarrow> 's \<Rightarrow> 's \<times> unit res) \<Rightarrow> ('e \<Rightarrow> 's \<Rightarrow> bool) \<Rightarrow> 'e list \<Rightarrow> 's \<Rightarrow> bool" where
  "guarded_run step guard [] s = True"
| "guarded_run step guard (e # es) s = (guard e s \<and> guarded_run step guard es (fst (step e s)))"

lemma guarded_run_True [simp]: "guarded_run step (\<lambda>e s. True) es s"
  by (induction es arbitrary: s) auto

text \<open>The interface: guarded events succeed and keep the invariant.\<close>

locale guarded_system =
  fixes step :: "'e \<Rightarrow> 's \<Rightarrow> 's \<times> unit res"
    and guard :: "'e \<Rightarrow> 's \<Rightarrow> bool"
    and inv :: "'s \<Rightarrow> bool"
  assumes step_keeps: "inv s \<Longrightarrow> guard e s \<Longrightarrow> \<exists>s'. step e s = (s', Ok ()) \<and> inv s'"
begin

lemma run_keeps:
  "inv s \<Longrightarrow> guarded_run step guard es s \<Longrightarrow> \<exists>s'. res_run step es s = (s', Ok ()) \<and> inv s'"
proof (induction es arbitrary: s)
  case (Cons e es)
  with step_keeps [of s e] show ?case by fastforce
qed simp

lemma run_invariant:
  assumes "inv s" "guarded_run step guard es s" "res_run step es s = (s', r)"
  shows "inv s' \<and> r = Ok ()"
  using run_keeps [OF assms(1,2)] assms(3) by auto

end

end
