(* ===== verification/Event_Loop.thy ===== *)
theory Event_Loop
  imports Uvco_Prelude
begin

text \<open>
  The coroutine scheduler and the event loop: \<open>src/uvco/loop/scheduler.h\<close>,
  \<open>scheduler.cc\<close>, \<open>loop.h\<close>, \<open>loop.cc\<close> and \<open>run.h\<close>.

  Whether a coroutine has reached its final suspension point
  (\<open>std::coroutine_handle<>::done()\<close>) is a predicate on frames that the runtime of the
  language provides; it is the argument \<open>fin\<close> of the operations that ask for it. What a
  resumed coroutine does is the argument \<open>resume\<close> of the loops that resume coroutines.

  The rest of the library uses the scheduler through three static functions of \<open>Loop\<close>:
  \<open>enqueue\<close>, \<open>cancel\<close> and \<open>getNext\<close>. Their contract is the locale
  \<open>ready_queue\<close>: a FIFO of runnable coroutines.
\<close>

section \<open>Scheduler (scheduler.cc)\<close>

record scheduler =
  resumable :: "handle list"

text \<open>A handle returned by \<open>getNext()\<close>: a coroutine, or \<open>std::noop_coroutine()\<close>.\<close>

datatype transfer = noop_coroutine | Coro coro

definition Scheduler_empty :: "scheduler \<Rightarrow> bool" where
  "Scheduler_empty s \<longleftrightarrow> resumable s = []"

definition Scheduler_enqueue :: "handle \<Rightarrow> scheduler \<Rightarrow> scheduler" where
  "Scheduler_enqueue h s = s\<lparr>resumable := resumable s @ [h]\<rparr>"

text \<open>
  \<open>cancel(handle)\<close> asserts that the handle is not null, which the type of the argument
  says here; it overwrites every occurrence with null and leaves the length alone.
\<close>

definition Scheduler_cancel :: "coro \<Rightarrow> scheduler \<Rightarrow> scheduler" where
  "Scheduler_cancel c s = s\<lparr>resumable := map (\<lambda>h. if h = Some c then None else h) (resumable s)\<rparr>"

definition Scheduler_close :: "scheduler \<Rightarrow> scheduler \<times> unit res" where
  "Scheduler_close s = (if resumable s = [] then (s, Ok ()) else (s, Abort ''resumable_.empty()''))"

text \<open>\<open>next == nullptr || next.done()\<close>\<close>

definition not_runnable :: "(coro \<Rightarrow> bool) \<Rightarrow> handle \<Rightarrow> bool" where
  "not_runnable fin h \<longleftrightarrow> (case h of None \<Rightarrow> True | Some c \<Rightarrow> fin c)"

fun getNextInner_loop :: "(coro \<Rightarrow> bool) \<Rightarrow> handle \<Rightarrow> handle list \<Rightarrow> handle \<times> handle list" where
  "getNextInner_loop fin next [] = (next, [])"
| "getNextInner_loop fin next (r # rs) =
     (if not_runnable fin next then getNextInner_loop fin r rs else (next, r # rs))"

definition Scheduler_getNextInner ::
  "(coro \<Rightarrow> bool) \<Rightarrow> scheduler \<Rightarrow> scheduler \<times> transfer" where
  "Scheduler_getNextInner fin s =
     (case getNextInner_loop fin None (resumable s) of (next, rs) \<Rightarrow>
        (s\<lparr>resumable := rs\<rparr>,
         (if not_runnable fin next then noop_coroutine else Coro (the next))))"

definition useSymmetricHandoff :: bool where
  "useSymmetricHandoff = True"

definition Scheduler_getNext :: "(coro \<Rightarrow> bool) \<Rightarrow> scheduler \<Rightarrow> scheduler \<times> transfer" where
  "Scheduler_getNext fin s =
     (if useSymmetricHandoff then Scheduler_getNextInner fin s else (s, noop_coroutine))"

text \<open>
  \<open>runAll()\<close>. A resumed coroutine can change anything, the scheduler included, so the loop
  runs on a world \<open>'w\<close> that holds the scheduler. The assertion
  \<open>next != nullptr && !next.done()\<close> always holds (\<open>getNextInner_runnable\<close> below), as the
  no-op coroutine is never done. The loop need not end: \<open>None\<close> is divergence.
\<close>

partial_function (option) Scheduler_runAll ::
  "('w \<Rightarrow> scheduler) \<Rightarrow> (scheduler \<Rightarrow> 'w \<Rightarrow> 'w) \<Rightarrow> ('w \<Rightarrow> coro \<Rightarrow> bool) \<Rightarrow> (coro \<Rightarrow> 'w \<Rightarrow> 'w) \<Rightarrow>
   'w \<Rightarrow> 'w option" where
  "Scheduler_runAll sched set_sched fin resume w =
     (if resumable (sched w) = [] then Some w
      else
        (case Scheduler_getNextInner (fin w) (sched w) of (s, next) \<Rightarrow>
           (case next of
              noop_coroutine \<Rightarrow> Scheduler_runAll sched set_sched fin resume (set_sched s w)
            | Coro c \<Rightarrow> Scheduler_runAll sched set_sched fin resume (resume c (set_sched s w)))))"

declare Scheduler_runAll.simps [code]

text \<open>One iteration of the loop, for the termination argument.\<close>

definition runAll_step ::
  "('w \<Rightarrow> scheduler) \<Rightarrow> (scheduler \<Rightarrow> 'w \<Rightarrow> 'w) \<Rightarrow> ('w \<Rightarrow> coro \<Rightarrow> bool) \<Rightarrow> (coro \<Rightarrow> 'w \<Rightarrow> 'w) \<Rightarrow>
   'w \<Rightarrow> 'w" where
  "runAll_step sched set_sched fin resume w =
     (case Scheduler_getNextInner (fin w) (sched w) of (s, next) \<Rightarrow>
        (case next of noop_coroutine \<Rightarrow> set_sched s w | Coro c \<Rightarrow> resume c (set_sched s w)))"

section \<open>Loop (loop.cc)\<close>

text \<open>
  \<open>loop_stopped\<close> is the member \<open>stopped_\<close>; \<open>uv_stop_flag\<close> records that
  \<open>uv_stop()\<close> was called on the libuv loop, which makes \<open>uv_run()\<close> return.
\<close>

record loop =
  loop_scheduler :: scheduler
  loop_stopped :: bool
  uv_stop_flag :: bool

definition Loop_init :: loop where
  "Loop_init = \<lparr>loop_scheduler = \<lparr>resumable = []\<rparr>, loop_stopped = False, uv_stop_flag = False\<rparr>"

definition Loop_enqueue :: "handle \<Rightarrow> loop \<Rightarrow> loop" where
  "Loop_enqueue h l =
     (let l1 = l\<lparr>loop_scheduler := Scheduler_enqueue h (loop_scheduler l)\<rparr>
      in if \<not> loop_stopped l1 then l1\<lparr>uv_stop_flag := True, loop_stopped := True\<rparr> else l1)"

definition Loop_cancel :: "coro \<Rightarrow> loop \<Rightarrow> loop" where
  "Loop_cancel c l = l\<lparr>loop_scheduler := Scheduler_cancel c (loop_scheduler l)\<rparr>"

definition Loop_getNext :: "(coro \<Rightarrow> bool) \<Rightarrow> loop \<Rightarrow> loop \<times> transfer" where
  "Loop_getNext fin l =
     (case Scheduler_getNext fin (loop_scheduler l) of (s, t) \<Rightarrow> (l\<lparr>loop_scheduler := s\<rparr>, t))"

text \<open>
  \<open>Loop::defaultLoop\<close> is the only loop of the process. The static functions go through
  \<open>currentScheduler()\<close>, which throws when there is none; the constructor refuses a second
  one.
\<close>

definition no_loop :: exn where
  "no_loop = UvcoStatus UV_EINVAL ''Loop::getDefaultLoop(): no loop created.''"

definition only_one_loop :: exn where
  "only_one_loop = UvcoStatus UV_EBUSY ''Loop::Loop(): only one loop can be created.''"

definition Loop_new :: "loop option \<Rightarrow> loop option \<times> unit res" where
  "Loop_new g = (case g of Some l \<Rightarrow> (g, Exn only_one_loop) | None \<Rightarrow> (Some Loop_init, Ok ()))"

definition Loop_currentScheduler :: "loop option \<Rightarrow> loop option \<times> scheduler res" where
  "Loop_currentScheduler g =
     (case g of None \<Rightarrow> (g, Exn no_loop) | Some l \<Rightarrow> (g, Ok (loop_scheduler l)))"

definition with_default_loop ::
  "(loop \<Rightarrow> loop \<times> 'a) \<Rightarrow> loop option \<Rightarrow> loop option \<times> 'a res" where
  "with_default_loop f g =
     rbind (Loop_currentScheduler g)
       (\<lambda>g1 s. case g1 of None \<Rightarrow> (g1, Exn no_loop)
                | Some l \<Rightarrow> (case f l of (l1, a) \<Rightarrow> (Some l1, Ok a)))"

definition Loop_static_enqueue :: "handle \<Rightarrow> loop option \<Rightarrow> loop option \<times> unit res" where
  "Loop_static_enqueue h = with_default_loop (\<lambda>l. (Loop_enqueue h l, ()))"

definition Loop_static_cancel :: "coro \<Rightarrow> loop option \<Rightarrow> loop option \<times> unit res" where
  "Loop_static_cancel c = with_default_loop (\<lambda>l. (Loop_cancel c l, ()))"

definition Loop_static_getNext ::
  "(coro \<Rightarrow> bool) \<Rightarrow> loop option \<Rightarrow> loop option \<times> transfer res" where
  "Loop_static_getNext fin = with_default_loop (Loop_getNext fin)"

text \<open>
  \<open>Loop::run()\<close>: a turn of the libuv loop (\<open>uv_run\<close> in mode \<open>UV_RUN_ONCE\<close>) and then
  all scheduled coroutines, as long as something is scheduled or libuv has live handles.
  \<open>uv_run_once\<close> and \<open>uv_loop_alive\<close> are libuv's.
\<close>

definition world_scheduler :: "('w \<Rightarrow> loop) \<Rightarrow> 'w \<Rightarrow> scheduler" where
  "world_scheduler loop_of w = loop_scheduler (loop_of w)"

definition world_set_scheduler ::
  "('w \<Rightarrow> loop) \<Rightarrow> (loop \<Rightarrow> 'w \<Rightarrow> 'w) \<Rightarrow> scheduler \<Rightarrow> 'w \<Rightarrow> 'w" where
  "world_set_scheduler loop_of set_loop s w = set_loop ((loop_of w)\<lparr>loop_scheduler := s\<rparr>) w"

partial_function (option) Loop_run ::
  "('w \<Rightarrow> loop) \<Rightarrow> (loop \<Rightarrow> 'w \<Rightarrow> 'w) \<Rightarrow> ('w \<Rightarrow> coro \<Rightarrow> bool) \<Rightarrow> (coro \<Rightarrow> 'w \<Rightarrow> 'w) \<Rightarrow>
   ('w \<Rightarrow> 'w) \<Rightarrow> ('w \<Rightarrow> bool) \<Rightarrow> 'w \<Rightarrow> 'w option" where
  "Loop_run loop_of set_loop fin resume uv_run_once uv_loop_alive w =
     (if \<not> Scheduler_empty (world_scheduler loop_of w) \<or> uv_loop_alive w
      then Option.bind
        (Scheduler_runAll (world_scheduler loop_of) (world_set_scheduler loop_of set_loop) fin resume
           (uv_run_once (set_loop ((loop_of w)\<lparr>loop_stopped := False\<rparr>) w)))
        (Loop_run loop_of set_loop fin resume uv_run_once uv_loop_alive)
      else Some w)"

declare Loop_run.simps [code]

text \<open>The body of that loop, which may diverge in \<open>runAll()\<close>.\<close>

definition Loop_turn ::
  "('w \<Rightarrow> loop) \<Rightarrow> (loop \<Rightarrow> 'w \<Rightarrow> 'w) \<Rightarrow> ('w \<Rightarrow> coro \<Rightarrow> bool) \<Rightarrow> (coro \<Rightarrow> 'w \<Rightarrow> 'w) \<Rightarrow>
   ('w \<Rightarrow> 'w) \<Rightarrow> 'w \<Rightarrow> 'w option" where
  "Loop_turn loop_of set_loop fin resume uv_run_once w =
     Scheduler_runAll (world_scheduler loop_of) (world_set_scheduler loop_of set_loop) fin resume
       (uv_run_once (set_loop ((loop_of w)\<lparr>loop_stopped := False\<rparr>) w))"

text \<open>
  The destructor of the loop: nothing may be scheduled; one more turn closes handles, and what it
  scheduled is resumed. A failure of \<open>uv_loop_close\<close> is only printed.
\<close>

definition Loop_destroy ::
  "('w \<Rightarrow> loop) \<Rightarrow> (loop \<Rightarrow> 'w \<Rightarrow> 'w) \<Rightarrow> ('w \<Rightarrow> coro \<Rightarrow> bool) \<Rightarrow> (coro \<Rightarrow> 'w \<Rightarrow> 'w) \<Rightarrow>
   ('w \<Rightarrow> 'w) \<Rightarrow> 'w \<Rightarrow> ('w \<times> unit res) option" where
  "Loop_destroy loop_of set_loop fin resume uv_run_once w =
     (case Scheduler_close (world_scheduler loop_of w) of
        (s, Ok u) \<Rightarrow>
          map_option (\<lambda>w1. (w1, Ok ()))
            (Scheduler_runAll (world_scheduler loop_of) (world_set_scheduler loop_of set_loop) fin resume (uv_run_once w))
      | (s, r) \<Rightarrow> Some (w, r))"

text \<open>
  \<open>runMain(main)\<close>: construct the loop, call \<open>main\<close>, run the loop, unwrap the promise; then the
  promise and the loop are destroyed. \<open>main\<close>, \<open>unwrap\<close> and \<open>destroy\<close> (of the promise) act on the
  world.
\<close>

definition runMain ::
  "('w \<Rightarrow> loop) \<Rightarrow> (loop \<Rightarrow> 'w \<Rightarrow> 'w) \<Rightarrow> ('w \<Rightarrow> coro \<Rightarrow> bool) \<Rightarrow> (coro \<Rightarrow> 'w \<Rightarrow> 'w) \<Rightarrow>
   ('w \<Rightarrow> 'w) \<Rightarrow> ('w \<Rightarrow> bool) \<Rightarrow> ('w \<Rightarrow> 'w \<times> 'p) \<Rightarrow> ('p \<Rightarrow> 'w \<Rightarrow> 'w \<times> 'r res) \<Rightarrow> ('p \<Rightarrow> 'w \<Rightarrow> 'w) \<Rightarrow>
   'w \<Rightarrow> ('w \<times> 'r res) option" where
  "runMain loop_of set_loop fin resume uv_run_once uv_loop_alive main unwrap destroy w =
     (case main w of (w1, promise) \<Rightarrow>
        Option.bind (Loop_run loop_of set_loop fin resume uv_run_once uv_loop_alive w1) (\<lambda>w2.
          case unwrap promise w2 of (w3, r) \<Rightarrow>
            map_option (\<lambda>(w4, d). (w4, case d of Ok u \<Rightarrow> r | Exn e \<Rightarrow> Exn e | Abort m \<Rightarrow> Abort m))
              (Loop_destroy loop_of set_loop fin resume uv_run_once (destroy promise w3))))"

section \<open>The interface\<close>

datatype ready_op = Enqueue coro | Cancel coro | Next

fun ready_run ::
  "(coro \<Rightarrow> 's \<Rightarrow> 's) \<Rightarrow> (coro \<Rightarrow> 's \<Rightarrow> 's) \<Rightarrow> ('s \<Rightarrow> 's \<times> transfer) \<Rightarrow>
   ready_op list \<Rightarrow> 's \<Rightarrow> 's \<times> coro list" where
  "ready_run enq can nxt [] s = (s, [])"
| "ready_run enq can nxt (Enqueue c # ops) s = ready_run enq can nxt ops (enq c s)"
| "ready_run enq can nxt (Cancel c # ops) s = ready_run enq can nxt ops (can c s)"
| "ready_run enq can nxt (Next # ops) s =
     (case nxt s of (s1, t) \<Rightarrow>
        (case ready_run enq can nxt ops s1 of (s2, outs) \<Rightarrow>
           (s2, (case t of noop_coroutine \<Rightarrow> [] | Coro c \<Rightarrow> [c]) @ outs)))"

definition enqueued :: "ready_op list \<Rightarrow> coro list" where
  "enqueued ops = concat (map (\<lambda>op. case op of Enqueue c \<Rightarrow> [c] | Cancel c \<Rightarrow> [] | Next \<Rightarrow> []) ops)"

definition dequeues :: "ready_op list \<Rightarrow> nat" where
  "dequeues ops = length (filter (\<lambda>op. op = Next) ops)"

locale ready_queue =
  fixes runnable :: "coro \<Rightarrow> bool"
    and pending :: "'s \<Rightarrow> coro list"
    and enq :: "coro \<Rightarrow> 's \<Rightarrow> 's"
    and can :: "coro \<Rightarrow> 's \<Rightarrow> 's"
    and nxt :: "'s \<Rightarrow> 's \<times> transfer"
  assumes pending_enq: "runnable c \<Longrightarrow> pending (enq c s) = pending s @ [c]"
    and pending_enq_fin: "\<not> runnable c \<Longrightarrow> pending (enq c s) = pending s"
    and pending_can: "pending (can c s) = filter (\<lambda>d. d \<noteq> c) (pending s)"
    and nxt_some: "pending s = c # cs \<Longrightarrow> \<exists>s'. nxt s = (s', Coro c) \<and> pending s' = cs"
    and nxt_none: "pending s = [] \<Longrightarrow> \<exists>s'. nxt s = (s', noop_coroutine) \<and> pending s' = []"
begin

lemma nxt_cases:
  obtains (some) s' c where "nxt s = (s', Coro c)" "pending s = c # pending s'"
    | (none) s' where "nxt s = (s', noop_coroutine)" "pending s = []" "pending s' = []"
  using nxt_some [of s] nxt_none [of s] by (cases "pending s") (metis, metis)

text \<open>Without cancellations the coroutines come out in the order in which they went in.\<close>

lemma run_fifo:
  assumes "ready_run enq can nxt ops s = (s', outs)"
    and "\<forall>op \<in> set ops. case op of Enqueue c \<Rightarrow> runnable c | Cancel c \<Rightarrow> False | Next \<Rightarrow> True"
  shows "pending s @ enqueued ops = outs @ pending s'"
  using assms
proof (induction ops arbitrary: s outs)
  case Nil
  then show ?case by (simp add: enqueued_def)
next
  case (Cons op ops)
  show ?case
  proof (cases op)
    case (Enqueue c)
    with Cons.prems Cons.IH [of "enq c s" outs] show ?thesis
      by (simp add: pending_enq enqueued_def)
  next
    case (Cancel c)
    with Cons.prems show ?thesis by simp
  next
    case Next
    with Cons show ?thesis
      by (cases rule: nxt_cases [of s]) (fastforce simp: enqueued_def split: prod.splits)+
  qed
qed

text \<open>A coroutine that is neither scheduled nor enqueued again never comes out.\<close>

lemma run_absent:
  assumes "ready_run enq can nxt ops s = (s', outs)"
    and "c \<notin> set (pending s)" "c \<notin> set (enqueued ops)"
  shows "c \<notin> set outs \<and> c \<notin> set (pending s')"
  using assms
proof (induction ops arbitrary: s outs)
  case Nil
  then show ?case by simp
next
  case (Cons op ops)
  show ?case
  proof (cases op)
    case (Enqueue d)
    have "c \<notin> set (pending (enq d s))"
      using Cons.prems Enqueue by (cases "runnable d") (auto simp: pending_enq pending_enq_fin enqueued_def)
    with Cons.prems Enqueue Cons.IH [of "enq d s" outs] show ?thesis
      by (simp add: enqueued_def)
  next
    case (Cancel d)
    with Cons.prems Cons.IH [of "can d s" outs] show ?thesis
      by (simp add: pending_can enqueued_def)
  next
    case Next
    with Cons show ?thesis
      by (cases rule: nxt_cases [of s]) (fastforce simp: enqueued_def split: prod.splits)+
  qed
qed

text \<open>
  A scheduled coroutine that is not cancelled comes out after as many dequeues as there are
  coroutines before it, whatever is enqueued and cancelled meanwhile.
\<close>

lemma run_fair:
  assumes "ready_run enq can nxt ops s = (s', outs)"
    and "pending s = xs @ c # ys" "Cancel c \<notin> set ops" "length xs < dequeues ops"
  shows "c \<in> set outs"
  using assms
proof (induction ops arbitrary: s outs xs ys)
  case Nil
  then show ?case by (simp add: dequeues_def)
next
  case (Cons op ops)
  show ?case
  proof (cases op)
    case (Enqueue d)
    obtain ys' where "pending (enq d s) = xs @ c # ys'"
      using Cons.prems(2) by (cases "runnable d") (auto simp: pending_enq pending_enq_fin)
    with Cons.prems Enqueue Cons.IH [of "enq d s" outs xs ys'] show ?thesis
      by (simp add: dequeues_def)
  next
    case (Cancel d)
    then have "pending (can d s) = filter (\<lambda>e. e \<noteq> d) xs @ c # filter (\<lambda>e. e \<noteq> d) ys"
      using Cons.prems by (auto simp: pending_can)
    moreover have "length (filter (\<lambda>e. e \<noteq> d) xs) < dequeues ops"
      using Cons.prems(4) Cancel
      by (auto simp: dequeues_def intro: le_less_trans [OF length_filter_le])
    ultimately show ?thesis
      using Cons.prems Cancel Cons.IH [of "can d s" outs] by auto
  next
    case Next
    obtain s1 d where n: "nxt s = (s1, Coro d)" "pending s = d # pending s1"
      using Cons.prems(2) by (cases rule: nxt_cases [of s]) auto
    obtain outs1 where o: "ready_run enq can nxt ops s1 = (s', outs1)" "outs = d # outs1"
      using Cons.prems(1) Next n(1) by (auto split: prod.splits)
    show ?thesis
    proof (cases xs)
      case Nil
      with Cons.prems(2) n o show ?thesis by simp
    next
      case (Cons x xs1)
      with \<open>pending s = xs @ c # ys\<close> n have "pending s1 = xs1 @ c # ys" by simp
      then show ?thesis
        using Cons.IH [OF o(1)] Cons.prems Next Cons o(2) by (simp add: dequeues_def)
    qed
  qed
qed

end

section \<open>The scheduler implements the interface\<close>

definition sched_pending :: "(coro \<Rightarrow> bool) \<Rightarrow> scheduler \<Rightarrow> coro list" where
  "sched_pending fin s = List.map_filter (\<lambda>h. if not_runnable fin h then None else h) (resumable s)"

definition loop_pending :: "(coro \<Rightarrow> bool) \<Rightarrow> loop \<Rightarrow> coro list" where
  "loop_pending fin l = sched_pending fin (loop_scheduler l)"


lemma getNextInner_loop_props:
  "getNextInner_loop fin next rs = (n, rest) \<Longrightarrow>
     (if not_runnable fin next
      then List.map_filter (\<lambda>h. if not_runnable fin h then None else h) rs =
             (if not_runnable fin n then [] else [the n]) @
             List.map_filter (\<lambda>h. if not_runnable fin h then None else h) rest \<and>
           (not_runnable fin n \<longrightarrow> rest = [])
      else n = next \<and> rest = rs)"
  by (induction fin "next" rs rule: getNextInner_loop.induct)
     (auto simp: List.map_filter_simps not_runnable_def split: if_splits option.splits)

lemma not_runnable_None [simp]: "not_runnable fin None"
  by (simp add: not_runnable_def)

lemma getNextInner_cases:
  obtains (some) s' c where "Scheduler_getNextInner fin s = (s', Coro c)" "\<not> fin c"
      "sched_pending fin s = c # sched_pending fin s'"
    | (none) s' where "Scheduler_getNextInner fin s = (s', noop_coroutine)"
      "sched_pending fin s = []" "resumable s' = []"
proof (cases "getNextInner_loop fin None (resumable s)")
  case (Pair n rest)
  note p = getNextInner_loop_props [OF Pair]
  show ?thesis
  proof (cases "not_runnable fin n")
    case True
    with p Pair show ?thesis
      by (intro none [of "s\<lparr>resumable := rest\<rparr>"])
         (auto simp: Scheduler_getNextInner_def sched_pending_def)
  next
    case False
    then obtain c where "n = Some c" "\<not> fin c" by (auto simp: not_runnable_def split: option.splits)
    with p Pair False show ?thesis
      by (intro some [of "s\<lparr>resumable := rest\<rparr>" c])
         (auto simp: Scheduler_getNextInner_def sched_pending_def)
  qed
qed

lemma getNextInner_runnable:
  "Scheduler_getNextInner fin s = (s', Coro c) \<Longrightarrow> \<not> fin c"
  by (cases rule: getNextInner_cases [of fin s]) auto

lemma sched_pending_enqueue:
  "sched_pending fin (Scheduler_enqueue (Some c) s) =
     sched_pending fin s @ (if fin c then [] else [c])"
  by (simp add: sched_pending_def Scheduler_enqueue_def List.map_filter_def not_runnable_def)

lemma sched_pending_cancel:
  "sched_pending fin (Scheduler_cancel c s) = filter (\<lambda>d. d \<noteq> c) (sched_pending fin s)"
proof -
  have "List.map_filter (\<lambda>h. if not_runnable fin h then None else h)
          (map (\<lambda>h. if h = Some c then None else h) rs) =
        filter (\<lambda>d. d \<noteq> c) (List.map_filter (\<lambda>h. if not_runnable fin h then None else h) rs)" for rs
    by (induction rs) (auto simp: List.map_filter_simps split: option.splits)
  then show ?thesis by (simp add: sched_pending_def Scheduler_cancel_def)
qed

interpretation sched: ready_queue "\<lambda>c. \<not> fin c" "sched_pending fin"
  "\<lambda>c. Scheduler_enqueue (Some c)" Scheduler_cancel "Scheduler_getNextInner fin" for fin
proof unfold_locales
  fix s :: scheduler and c cs
  show "sched_pending fin s = c # cs \<Longrightarrow>
      \<exists>s'. Scheduler_getNextInner fin s = (s', Coro c) \<and> sched_pending fin s' = cs"
    by (cases rule: getNextInner_cases [of fin s]) auto
  show "sched_pending fin s = [] \<Longrightarrow>
      \<exists>s'. Scheduler_getNextInner fin s = (s', noop_coroutine) \<and> sched_pending fin s' = []"
    by (cases rule: getNextInner_cases [of fin s]) (auto simp: sched_pending_def List.map_filter_def)
qed (simp_all add: sched_pending_enqueue sched_pending_cancel)

lemma loop_scheduler_enqueue [simp]:
  "loop_scheduler (Loop_enqueue h l) = Scheduler_enqueue h (loop_scheduler l)"
  by (simp add: Loop_enqueue_def Let_def)

lemma loop_scheduler_cancel [simp]:
  "loop_scheduler (Loop_cancel c l) = Scheduler_cancel c (loop_scheduler l)"
  by (simp add: Loop_cancel_def)

lemma loop_getNext_cases:
  obtains (some) l' c where "Loop_getNext fin l = (l', Coro c)" "\<not> fin c"
      "loop_pending fin l = c # loop_pending fin l'"
    | (none) l' where "Loop_getNext fin l = (l', noop_coroutine)"
      "loop_pending fin l = []" "resumable (loop_scheduler l') = []"
  by (cases rule: getNextInner_cases [of fin "loop_scheduler l"])
     (auto simp: Loop_getNext_def Scheduler_getNext_def useSymmetricHandoff_def loop_pending_def)

text \<open>When no scheduled coroutine is finished, the predicate makes no difference.\<close>

lemma getNextInner_loop_live:
  "\<forall>c. Some c \<in> set (h # hs) \<longrightarrow> \<not> fin c \<Longrightarrow> getNextInner_loop fin h hs = getNextInner_loop (\<lambda>c. False) h hs"
  by (induction hs arbitrary: h) (auto simp: not_runnable_def split: option.splits)

lemma loop_getNext_live:
  assumes "\<forall>c \<in> set (loop_pending (\<lambda>c. False) l). \<not> fin c"
  shows "Loop_getNext fin l = Loop_getNext (\<lambda>c. False) l"
proof -
  let ?hs = "resumable (loop_scheduler l)"
  have live: "\<forall>c. Some c \<in> set (None # ?hs) \<longrightarrow> \<not> fin c"
    using assms by (force simp: loop_pending_def sched_pending_def List.map_filter_def not_runnable_def)
  have "not_runnable fin (fst (getNextInner_loop (\<lambda>c. False) h hs)) =
      not_runnable (\<lambda>c. False) (fst (getNextInner_loop (\<lambda>c. False) h hs))"
    if "\<forall>c. Some c \<in> set (h # hs) \<longrightarrow> \<not> fin c" for h hs
    using that by (induction hs arbitrary: h) (auto simp: not_runnable_def split: option.splits)
  from this [OF live] getNextInner_loop_live [OF live] show ?thesis
    by (cases "getNextInner_loop (\<lambda>c. False) None ?hs")
       (simp add: Loop_getNext_def Scheduler_getNext_def Scheduler_getNextInner_def)
qed

lemma loop_getNext_head:
  "resumable (loop_scheduler l) = Some c # rs \<Longrightarrow> \<not> fin c \<Longrightarrow>
     Loop_getNext fin l = (l\<lparr>loop_scheduler := (loop_scheduler l)\<lparr>resumable := rs\<rparr>\<rparr>, Coro c)"
  "resumable (loop_scheduler l) = [] \<Longrightarrow> Loop_getNext fin l = (l, noop_coroutine)"
  by (cases rs) (simp_all add: Loop_getNext_def Scheduler_getNext_def useSymmetricHandoff_def
      Scheduler_getNextInner_def not_runnable_def)

interpretation event_loop: ready_queue "\<lambda>c. \<not> fin c" "loop_pending fin"
  "\<lambda>c. Loop_enqueue (Some c)" Loop_cancel "Loop_getNext fin" for fin
proof unfold_locales
  fix l :: loop and c cs
  show "loop_pending fin l = c # cs \<Longrightarrow>
      \<exists>l'. Loop_getNext fin l = (l', Coro c) \<and> loop_pending fin l' = cs"
    by (cases rule: loop_getNext_cases [of fin l]) auto
  show "loop_pending fin l = [] \<Longrightarrow>
      \<exists>l'. Loop_getNext fin l = (l', noop_coroutine) \<and> loop_pending fin l' = []"
    by (cases rule: loop_getNext_cases [of fin l])
       (auto simp: loop_pending_def sched_pending_def List.map_filter_def)
qed (simp_all add: loop_pending_def sched_pending_enqueue sched_pending_cancel)

lemma loop_pending_fin: "loop_pending (\<lambda>d. True) l = []"
  by (simp add: loop_pending_def sched_pending_def List.map_filter_def not_runnable_def
      filter_empty_conv split: option.splits)

lemma loop_pending_enqueue:
  "loop_pending fin (Loop_enqueue (Some c) l) = loop_pending fin l @ (if fin c then [] else [c])"
  by (simp add: loop_pending_def Loop_enqueue_def sched_pending_enqueue Let_def)

lemma loop_pending_cancel:
  "loop_pending fin (Loop_cancel c l) = filter (\<lambda>d. d \<noteq> c) (loop_pending fin l)"
  by (rule event_loop.pending_can)

lemma loop_pending_filter: "loop_pending fin l = filter (\<lambda>c. \<not> fin c) (loop_pending (\<lambda>c. False) l)"
proof -
  have "List.map_filter (\<lambda>h. if not_runnable fin h then None else h) hs =
      filter (\<lambda>c. \<not> fin c) (List.map_filter (\<lambda>h. if not_runnable (\<lambda>c. False) h then None else h) hs)" for hs
    by (induction hs) (auto simp: List.map_filter_simps not_runnable_def split: option.splits)
  then show ?thesis by (simp add: loop_pending_def sched_pending_def)
qed

text \<open>Dequeuing takes a prefix off the queue.\<close>

lemma getNextInner_loop_suffix:
  "getNextInner_loop fin h hs = (n, rest) \<Longrightarrow> \<exists>pre. hs = pre @ rest"
  by (induction hs arbitrary: h) (auto split: if_splits, metis append_Cons)

lemma loop_getNext_suffix:
  assumes "Loop_getNext fin l = (l', t)"
  shows "\<exists>pre. loop_pending (\<lambda>c. False) l = pre @ loop_pending (\<lambda>c. False) l'"
proof -
  obtain pre where "resumable (loop_scheduler l) = pre @ resumable (loop_scheduler l')"
    using assms getNextInner_loop_suffix [of fin None "resumable (loop_scheduler l)"]
    by (fastforce simp: Loop_getNext_def Scheduler_getNext_def useSymmetricHandoff_def Scheduler_getNextInner_def
        split: prod.splits)
  then show ?thesis by (auto simp: loop_pending_def sched_pending_def List.map_filter_def)
qed

section \<open>The scheduling loops\<close>

lemma runAll_unfold:
  "Scheduler_runAll sched set_sched fin resume w =
     (if resumable (sched w) = [] then Some w
      else Scheduler_runAll sched set_sched fin resume (runAll_step sched set_sched fin resume w))"
  by (subst Scheduler_runAll.simps) (simp add: runAll_step_def split: prod.split transfer.split)

lemma runAll_total:
  assumes wf: "wf R"
    and dec: "\<And>w. I w \<Longrightarrow> resumable (sched w) \<noteq> [] \<Longrightarrow>
      I (runAll_step sched set_sched fin resume w) \<and> (runAll_step sched set_sched fin resume w, w) \<in> R"
    and "I w"
  shows "\<exists>w'. Scheduler_runAll sched set_sched fin resume w = Some w' \<and>
              resumable (sched w') = [] \<and> I w'"
  using wf \<open>I w\<close>
proof (induction w rule: wf_induct_rule)
  case (less w)
  show ?case
  proof (cases "resumable (sched w) = []")
    case True
    with less.prems show ?thesis by (simp add: runAll_unfold [of _ _ _ _ w])
  next
    case False
    with dec [OF less.prems] less.IH show ?thesis
      by (simp add: runAll_unfold [of _ _ _ _ w])
  qed
qed

lemma runAll_partial:
  assumes "Scheduler_runAll sched set_sched fin resume w = Some w'"
  shows "resumable (sched w') = []"
proof (rule Scheduler_runAll.raw_induct
    [where P = "\<lambda>sched set_sched fin resume w w'. resumable (sched w') = []", OF _ assms])
  fix f :: "('w \<Rightarrow> scheduler) \<Rightarrow> (scheduler \<Rightarrow> 'w \<Rightarrow> 'w) \<Rightarrow> ('w \<Rightarrow> coro \<Rightarrow> bool) \<Rightarrow>
      (coro \<Rightarrow> 'w \<Rightarrow> 'w) \<Rightarrow> 'w \<Rightarrow> 'w option"
  fix sched set_sched fin resume w w'
  assume IH: "\<And>sched set_sched fin resume w w'.
      f sched set_sched fin resume w = Some w' \<Longrightarrow> resumable (sched w') = []"
    and eq: "(if resumable (sched w) = [] then Some w
      else case Scheduler_getNextInner (fin w) (sched w) of (s, next) \<Rightarrow>
        (case next of noop_coroutine \<Rightarrow> f sched set_sched fin resume (set_sched s w)
         | Coro c \<Rightarrow> f sched set_sched fin resume (resume c (set_sched s w)))) = Some w'"
  then show "resumable (sched w') = []"
    by (auto split: if_splits prod.splits transfer.splits dest: IH)
qed

lemma Loop_run_partial:
  assumes "Loop_run loop_of set_loop fin resume uv_run_once uv_loop_alive w = Some w'"
  shows "Scheduler_empty (world_scheduler loop_of w') \<and> \<not> uv_loop_alive w'"
proof (rule Loop_run.raw_induct
    [where P = "\<lambda>loop_of set_loop fin resume uv_run_once uv_loop_alive w w'.
       Scheduler_empty (world_scheduler loop_of w') \<and> \<not> uv_loop_alive w'", OF _ assms])
qed (auto split: if_splits simp: bind_eq_Some_conv, blast+)

lemma Loop_run_total:
  assumes wf: "wf R"
    and turn: "\<And>w. I w \<Longrightarrow> \<not> Scheduler_empty (world_scheduler loop_of w) \<or> uv_loop_alive w \<Longrightarrow>
      \<exists>w'. Loop_turn loop_of set_loop fin resume uv_run_once w = Some w' \<and> I w' \<and> (w', w) \<in> R"
    and "I w"
  shows "\<exists>w'. Loop_run loop_of set_loop fin resume uv_run_once uv_loop_alive w = Some w' \<and> I w' \<and>
              Scheduler_empty (world_scheduler loop_of w') \<and> \<not> uv_loop_alive w'"
  using wf \<open>I w\<close>
proof (induction w rule: wf_induct_rule)
  case (less w)
  show ?case
  proof (cases "\<not> Scheduler_empty (world_scheduler loop_of w) \<or> uv_loop_alive w")
    case True
    from turn [OF less.prems True] obtain w1 where
      w1: "Loop_turn loop_of set_loop fin resume uv_run_once w = Some w1" "I w1" "(w1, w) \<in> R"
      by blast
    with True less.IH [OF w1(3,2)] show ?thesis
      by (subst Loop_run.simps) (simp add: Loop_turn_def)
  next
    case False
    with less.prems show ?thesis by (subst Loop_run.simps) simp
  qed
qed

text \<open>A run of \<open>runAll()\<close> in which the resumed coroutines only leave a trace.\<close>

lemma getNextInner_loop_length:
  "getNextInner_loop fin n rs = (n', rs') \<Longrightarrow>
     length rs' \<le> length rs \<and> (not_runnable fin n \<and> rs \<noteq> [] \<longrightarrow> length rs' < length rs)"
  by (induction rs arbitrary: n) (fastforce split: if_splits)+

lemma getNextInner_shrinks:
  "resumable s \<noteq> [] \<Longrightarrow> length (resumable (fst (Scheduler_getNextInner fin s))) < length (resumable s)"
  using getNextInner_loop_length [of fin None "resumable s"]
  by (auto simp: Scheduler_getNextInner_def split: prod.split)

lemma runAll_trace:
  "\<exists>s'. Scheduler_runAll fst (\<lambda>s w. (s, snd w)) (\<lambda>w. fin) (\<lambda>c w. (fst w, snd w @ [c])) (s, log) =
      Some (s', log @ sched_pending fin s) \<and> resumable s' = []"
proof (induction "length (resumable s)" arbitrary: s log rule: less_induct)
  case less
  show ?case
  proof (cases "resumable s = []")
    case True
    then show ?thesis by (simp add: runAll_unfold [of fst] sched_pending_def List.map_filter_simps)
  next
    case False
    note short = getNextInner_shrinks [OF False, of fin]
    show ?thesis
    proof (cases rule: getNextInner_cases [of fin s])
      case (some s1 c)
      with less [of s1 "log @ [c]"] short False show ?thesis
        by (subst runAll_unfold) (simp add: runAll_step_def)
    next
      case (none s1)
      with less [of s1 log] short False show ?thesis
        by (subst runAll_unfold) (simp add: runAll_step_def sched_pending_def List.map_filter_simps)
    qed
  qed
qed

section \<open>The properties of the loop\<close>

text \<open>
  The loop is a FIFO queue of coroutines: if no coroutine is cancelled, the coroutines that
  \<open>getNext()\<close> returned, followed by the ones still scheduled, are the ones that were
  enqueued, in order.
\<close>

theorem loop_fifo:
  assumes "ready_run (\<lambda>c. Loop_enqueue (Some c)) Loop_cancel (Loop_getNext fin) ops Loop_init = (l, outs)"
    and "\<forall>op \<in> set ops. case op of Enqueue c \<Rightarrow> \<not> fin c | Cancel c \<Rightarrow> False | Next \<Rightarrow> True"
  shows "enqueued ops = outs @ loop_pending fin l"
  using event_loop.run_fifo [OF assms] by (simp add: loop_pending_def sched_pending_def Loop_init_def
    List.map_filter_simps)

theorem loop_fifo_witness:
  "enqueued [Enqueue 4, Enqueue 7, Next, Enqueue 9] = [4] @ [7, 9]"
proof -
  let ?r = "ready_run (\<lambda>c. Loop_enqueue (Some c)) Loop_cancel (Loop_getNext (\<lambda>c. False))
      [Enqueue 4, Enqueue 7, Next, Enqueue 9] Loop_init"
  have "snd ?r = [4]" "loop_pending (\<lambda>c. False) (fst ?r) = [7, 9]" by code_simp+
  with loop_fifo [OF surjective_pairing, of "[Enqueue 4, Enqueue 7, Next, Enqueue 9]" "\<lambda>c. False"]
  show ?thesis by simp
qed

text \<open>
  C15: Scheduling is fair: a scheduled coroutine with \<open>n\<close> coroutines before it is resumed by
  the next \<open>n + 1\<close> calls of \<open>getNext()\<close> at the latest, unless it is cancelled,
  whatever else is enqueued or cancelled in between.
\<close>

theorem loop_fair:
  assumes "ready_run (\<lambda>c. Loop_enqueue (Some c)) Loop_cancel (Loop_getNext fin) ops l = (l', outs)"
    and "loop_pending fin l = xs @ c # ys" "Cancel c \<notin> set ops" "length xs < dequeues ops"
  shows "c \<in> set outs"
  by (rule event_loop.run_fair [OF assms])

theorem loop_fair_witness:
  "(6::nat) \<in> set (snd (ready_run (\<lambda>c. Loop_enqueue (Some c)) Loop_cancel (Loop_getNext (\<lambda>c. False))
      [Enqueue 8, Next, Cancel 9, Next] (Loop_enqueue (Some 6) (Loop_enqueue (Some 5) Loop_init))))"
proof (rule loop_fair [where fin = "\<lambda>c. False" and xs = "[5]" and ys = "[]"])
  show "loop_pending (\<lambda>c. False) (Loop_enqueue (Some 6) (Loop_enqueue (Some 5) Loop_init)) = [5] @ 6 # []"
    by code_simp
qed (rule surjective_pairing, simp_all add: dequeues_def)

text \<open>
  C14: \<open>cancel()\<close> is final: a coroutine that is cancelled (because its frame is
  destroyed) and not enqueued afterwards is never returned by \<open>getNext()\<close> again.
\<close>

theorem loop_cancelled:
  assumes "ready_run (\<lambda>c. Loop_enqueue (Some c)) Loop_cancel (Loop_getNext fin) ops (Loop_cancel c l) = (l', outs)"
    and "c \<notin> set (enqueued ops)"
  shows "c \<notin> set outs \<and> c \<notin> set (loop_pending fin l')"
  using event_loop.run_absent [OF assms(1)] assms(2) by (simp add: event_loop.pending_can)

theorem loop_cancelled_witness:
  "5 \<notin> set (snd (ready_run (\<lambda>c. Loop_enqueue (Some c)) Loop_cancel (Loop_getNext (\<lambda>c. False))
      [Next, Next, Next]
      (Loop_cancel 5 (Loop_enqueue (Some 5) (Loop_enqueue (Some 6) (Loop_enqueue (Some 5) Loop_init))))))"
  using loop_cancelled [OF surjective_pairing, of 5 "[Next, Next, Next]" "\<lambda>c. False"
      "Loop_enqueue (Some 5) (Loop_enqueue (Some 6) (Loop_enqueue (Some 5) Loop_init))"]
  by (simp add: enqueued_def)

text \<open>
  C17: \<open>runAll()\<close> ends when the resumed coroutines schedule nothing new, resumes each
  scheduled unfinished coroutine once, in order, skipping cancelled and finished ones, and
  leaves the queue empty.
\<close>

theorem runAll_resumes_all:
  "\<exists>s'. Scheduler_runAll fst (\<lambda>s w. (s, snd w)) (\<lambda>w. fin) (\<lambda>c w. (fst w, snd w @ [c])) (s, []) =
      Some (s', sched_pending fin s) \<and> resumable s' = []"
  using runAll_trace [of fin s "[]"] by simp

text \<open>
  \<open>Loop::run()\<close> returns only when no coroutine is scheduled and libuv has no live
  handle, whatever the resumed coroutines and the libuv callbacks do.
\<close>

theorem Loop_run_returns_idle:
  assumes "Loop_run loop_of set_loop fin resume uv_run_once uv_loop_alive w = Some w'"
  shows "Scheduler_empty (world_scheduler loop_of w') \<and> \<not> uv_loop_alive w'"
  by (rule Loop_run_partial [OF assms])

theorem Loop_run_returns_idle_witness:
  "Scheduler_empty (world_scheduler fst (Loop_init, 0::nat)) \<and> \<not> 0 < snd (Loop_init, 0::nat)"
proof (rule Loop_run_returns_idle)
  have "Scheduler_runAll (world_scheduler fst) (world_set_scheduler fst (\<lambda>l w. (l, snd w))) (\<lambda>w c. False)
      (\<lambda>c w. w) (Loop_init, 0::nat) = Some (Loop_init, 0)"
    by (simp add: runAll_unfold world_scheduler_def Loop_init_def)
  then show "Loop_run fst (\<lambda>l w. (l, snd w)) (\<lambda>w c. False) (\<lambda>c w. w) (\<lambda>w. (fst w, snd w - 1))
      (\<lambda>w. 0 < snd w) (Loop_init, 1::nat) = Some (Loop_init, 0)"
    by (simp add: Loop_run.simps [of fst] world_scheduler_def Scheduler_empty_def Loop_init_def)
qed



end
