(* ===== verification/Promise_Core.thy ===== *)
theory Promise_Core
  imports Event_Loop
begin

text \<open>
  \<open>PromiseCore<T>\<close> and \<open>PromiseCore<void>\<close> (\<open>src/uvco/promise/promise_core.h\<close>,
  \<open>promise_core.cc\<close>), the awaiters and accessors of \<open>Promise<T>\<close> and
  \<open>Promise<void>\<close>, and the promise objects \<open>Coroutine<T>\<close> and
  \<open>Coroutine<void>\<close> (\<open>promise.h\<close>, \<open>promise.cc\<close>).

  A core is a record; every method takes the core, and the loop where it schedules or cancels
  a coroutine, and returns them updated. The methods of \<open>PromiseCore<T>\<close> are defined on
  the extensible record, so that \<open>MultiPromiseCore<T>\<close> inherits them.

  Both cores are shown to implement one contract, the locale \<open>one_shot\<close>: a result that is
  set once, wakes the coroutine waiting for it once, and can be taken.
\<close>

section \<open>PromiseCore<T> (promise\_core.h)\<close>

datatype promise_state = Init | WaitedOn | Finished

text \<open>
  The slot is \<open>std::optional<std::variant<T, std::exception_ptr>>\<close>: \<open>Inl\<close> is index 0,
  the value, and \<open>Inr\<close> is index 1, the exception.
\<close>

record 'v core =
  pc_slot :: "('v + exn) option"
  pc_coroutine :: handle
  pc_waiting :: handle
  pc_state :: promise_state

definition PromiseCore_init :: "'v core" where
  "PromiseCore_init = \<lparr>pc_slot = None, pc_coroutine = None, pc_waiting = None, pc_state = Init\<rparr>"

definition already_awaited :: exn where
  "already_awaited = UvcoMessage ''PromiseCore is already awaited or has finished''"

definition PromiseCore_setHandle ::
  "handle \<Rightarrow> ('v, 'm) core_scheme \<Rightarrow> ('v, 'm) core_scheme \<times> unit res" where
  "PromiseCore_setHandle h c =
     (if pc_state c \<noteq> Init then (c, Exn already_awaited)
      else (c\<lparr>pc_waiting := h, pc_state := WaitedOn\<rparr>, Ok ()))"

definition PromiseCore_setRunning ::
  "handle \<Rightarrow> ('v, 'm) core_scheme \<Rightarrow> ('v, 'm) core_scheme \<times> unit res" where
  "PromiseCore_setRunning h c =
     (if pc_state c = Init then (c\<lparr>pc_coroutine := h\<rparr>, Ok ())
      else (c, Abort ''state_ == PromiseState::init''))"

definition PromiseCore_resetHandle ::
  "('v, 'm) core_scheme \<Rightarrow> ('v, 'm) core_scheme \<times> unit res" where
  "PromiseCore_resetHandle c =
     (if pc_state c = WaitedOn \<and> pc_waiting c \<noteq> None \<or>
         pc_state c = Finished \<and> pc_waiting c = None \<or>
         pc_state c = Init \<and> pc_waiting c = None
      then (if pc_state c = WaitedOn then c\<lparr>pc_waiting := None, pc_state := Init\<rparr> else c, Ok ())
      else (c, Abort ''PromiseCore::resetHandle''))"

definition PromiseCore_isAwaited :: "('v, 'm) core_scheme \<Rightarrow> bool" where
  "PromiseCore_isAwaited c \<longleftrightarrow> pc_waiting c \<noteq> None"

definition PromiseCore_ready :: "('v, 'm) core_scheme \<Rightarrow> bool" where
  "PromiseCore_ready c \<longleftrightarrow> pc_slot c \<noteq> None"

definition PromiseCore_stale :: "('v, 'm) core_scheme \<Rightarrow> bool" where
  "PromiseCore_stale c \<longleftrightarrow> pc_state c = Finished \<and> \<not> PromiseCore_ready c"

definition PromiseCore_resume ::
  "('v, 'm) core_scheme \<times> loop \<Rightarrow> (('v, 'm) core_scheme \<times> loop) \<times> unit res" where
  "PromiseCore_resume cl = (case cl of (c, l) \<Rightarrow>
     (case pc_waiting c of
        Some h \<Rightarrow>
          (if pc_state c = WaitedOn
           then ((c\<lparr>pc_waiting := None, pc_state := Finished\<rparr>, Loop_enqueue (Some h) l), Ok ())
           else ((c, l), Abort ''state_ == PromiseState::waitedOn''))
      | None \<Rightarrow> ((c\<lparr>pc_state := Finished\<rparr>, l), Ok ())))"

text \<open>
  \<open>destroyCoroutine()\<close>: the second component is the frame whose \<open>destroy()\<close> is called,
  if any.
\<close>

definition PromiseCore_destroyCoroutine ::
  "('v, 'm) core_scheme \<Rightarrow> loop \<Rightarrow> loop \<times> coro option" where
  "PromiseCore_destroyCoroutine c l =
     (case pc_coroutine c of
        None \<Rightarrow> (l, None)
      | Some f \<Rightarrow> (if pc_state c \<noteq> Finished then Loop_cancel f l else l, Some f))"

definition PromiseCore_except :: "exn \<Rightarrow> ('v, 'm) core_scheme \<Rightarrow> ('v, 'm) core_scheme" where
  "PromiseCore_except e c = c\<lparr>pc_slot := Some (Inr e)\<rparr>"

section \<open>Promise<T> and Coroutine<T> (promise.h)\<close>

definition PromiseAwaiter_await_ready :: "'v core \<Rightarrow> bool" where
  "PromiseAwaiter_await_ready c \<longleftrightarrow> PromiseCore_ready c \<and> \<not> PromiseCore_stale c"

text \<open>
  \<open>await_suspend(handle)\<close> stores the handle and returns the next runnable coroutine. The
  third component of the state is what the awaiting coroutine transfers control to.
\<close>

definition PromiseAwaiter_await_suspend ::
  "(coro \<Rightarrow> bool) \<Rightarrow> handle \<Rightarrow> 'v core \<times> loop \<Rightarrow> ('v core \<times> loop) \<times> transfer res" where
  "PromiseAwaiter_await_suspend fin h cl = (case cl of (c, l) \<Rightarrow>
     (if PromiseCore_isAwaited c then ((c, l), Abort ''promise is already being waited on!'')
      else (case PromiseCore_setHandle h c of
              (c1, Ok u) \<Rightarrow> (case Loop_getNext fin l of (l1, t) \<Rightarrow> ((c1, l1), Ok t))
            | (c1, Exn e) \<Rightarrow> ((c1, l), Exn e)
            | (c1, Abort m) \<Rightarrow> ((c1, l), Abort m))))"

definition previously_finished :: exn where
  "previously_finished = UvcoMessage ''co_await called on previously finished promise (T)''"

definition unfulfilled_bug :: exn where
  "unfulfilled_bug = UvcoMessage ''await_resume called on unfulfilled promise (bug?)''"

definition PromiseAwaiter_await_resume :: "'v core \<Rightarrow> 'v core \<times> 'v res" where
  "PromiseAwaiter_await_resume c =
     (if PromiseCore_stale c then (c, Exn previously_finished)
      else (case pc_slot c of
              Some (Inl v) \<Rightarrow> (c\<lparr>pc_slot := None\<rparr>, Ok v)
            | Some (Inr e) \<Rightarrow> (c\<lparr>pc_slot := None\<rparr>, Exn e)
            | None \<Rightarrow> (c, Exn unfulfilled_bug)))"

definition unwrap_unfulfilled :: exn where
  "unwrap_unfulfilled = UvcoMessage ''unwrap called on unfulfilled promise''"

text \<open>\<open>unwrap()\<close> moves a value out of the slot, but leaves an exception in it.\<close>

definition Promise_unwrap :: "'v core \<Rightarrow> 'v core \<times> 'v res" where
  "Promise_unwrap c =
     (case pc_slot c of
        Some (Inl v) \<Rightarrow> (c\<lparr>pc_slot := None\<rparr>, Ok v)
      | Some (Inr e) \<Rightarrow> (c, Exn e)
      | None \<Rightarrow> (c, Exn unwrap_unfulfilled))"

definition Promise_ready :: "'v core \<Rightarrow> bool" where
  "Promise_ready c = PromiseCore_ready c"

text \<open>
  The destructor and the move operations of \<open>Promise\<close>: a promise is a pointer to a core,
  \<open>None\<close> after a move. The last component is the frame that is destroyed.
\<close>

definition Promise_move :: "'v core option \<Rightarrow> 'v core option \<times> 'v core option" where
  "Promise_move other = (other, None)"

definition Promise_destroy :: "'v core option \<Rightarrow> loop \<Rightarrow> loop \<times> coro option" where
  "Promise_destroy this l = (case this of None \<Rightarrow> (l, None) | Some c \<Rightarrow> PromiseCore_destroyCoroutine c l)"

definition Promise_move_assign ::
  "bool \<Rightarrow> 'v core option \<Rightarrow> 'v core option \<Rightarrow> loop \<Rightarrow> ('v core option \<times> 'v core option) \<times> loop \<times> coro option" where
  "Promise_move_assign same this other l =
     (if same then ((this, other), l, None)
      else (case this of
              None \<Rightarrow> ((other, None), l, None)
            | Some c \<Rightarrow> (case PromiseCore_destroyCoroutine c l of (l1, f) \<Rightarrow> ((other, None), l1, f))))"

definition Coroutine_get_return_object :: "'v core \<Rightarrow> 'v core option" where
  "Coroutine_get_return_object c = Some c"

definition Coroutine_initial_suspend :: "coro \<Rightarrow> 'v core \<Rightarrow> 'v core \<times> unit res" where
  "Coroutine_initial_suspend self c = PromiseCore_setRunning (Some self) c"

definition Coroutine_return_value ::
  "'v \<Rightarrow> 'v core \<times> loop \<Rightarrow> ('v core \<times> loop) \<times> unit res" where
  "Coroutine_return_value v cl = (case cl of (c, l) \<Rightarrow>
     (case pc_slot c of
        Some (Inr e) \<Rightarrow> ((c, l), Ok ())
      | Some (Inl w) \<Rightarrow> ((c, l), Abort ''!core_.slot'')
      | None \<Rightarrow> PromiseCore_resume (c\<lparr>pc_slot := Some (Inl v)\<rparr>, l)))"

definition Coroutine_unhandled_exception ::
  "exn \<Rightarrow> 'v core \<times> loop \<Rightarrow> ('v core \<times> loop) \<times> unit res" where
  "Coroutine_unhandled_exception e cl = (case cl of (c, l) \<Rightarrow>
     PromiseCore_resume (PromiseCore_except e c, l))"

section \<open>PromiseCore<void>, Promise<void>, Coroutine<void> (promise\_core.cc, promise.cc)\<close>

record vcore =
  vc_ready :: bool
  vc_exception :: "exn option"
  vc_coroutine :: handle
  vc_waiting :: handle
  vc_state :: promise_state

definition VoidCore_init :: vcore where
  "VoidCore_init = \<lparr>vc_ready = False, vc_exception = None, vc_coroutine = None,
     vc_waiting = None, vc_state = Init\<rparr>"

definition VoidCore_setHandle :: "handle \<Rightarrow> vcore \<Rightarrow> vcore \<times> unit res" where
  "VoidCore_setHandle h c =
     (if vc_state c \<noteq> Init then (c, Exn already_awaited)
      else (c\<lparr>vc_waiting := h, vc_state := WaitedOn\<rparr>, Ok ()))"

definition VoidCore_isAwaited :: "vcore \<Rightarrow> bool" where
  "VoidCore_isAwaited c \<longleftrightarrow> vc_waiting c \<noteq> None"

definition VoidCore_ready :: "vcore \<Rightarrow> bool" where
  "VoidCore_ready c \<longleftrightarrow> vc_exception c \<noteq> None \<or> vc_ready c"

definition VoidCore_stale :: "vcore \<Rightarrow> bool" where
  "VoidCore_stale c \<longleftrightarrow> vc_state c = Finished \<and> \<not> VoidCore_ready c"

definition VoidCore_resume :: "vcore \<times> loop \<Rightarrow> (vcore \<times> loop) \<times> unit res" where
  "VoidCore_resume cl = (case cl of (c, l) \<Rightarrow>
     (case vc_waiting c of
        Some h \<Rightarrow>
          (if vc_state c = WaitedOn
           then ((c\<lparr>vc_waiting := None, vc_state := Finished\<rparr>, Loop_enqueue (Some h) l), Ok ())
           else ((c, l), Abort ''state_ == PromiseState::waitedOn''))
      | None \<Rightarrow> ((c\<lparr>vc_state := Finished\<rparr>, l), Ok ())))"

definition VoidCore_except :: "exn \<Rightarrow> vcore \<Rightarrow> vcore \<times> unit res" where
  "VoidCore_except e c =
     (if vc_state c = Init \<or> vc_state c = WaitedOn
      then (c\<lparr>vc_exception := Some e, vc_ready := True\<rparr>, Ok ())
      else (c, Abort ''PromiseCore<void>::except''))"

definition VoidCore_resetHandle :: "vcore \<Rightarrow> vcore \<times> unit res" where
  "VoidCore_resetHandle c =
     (if vc_state c = Init \<or> vc_state c = WaitedOn \<and> vc_waiting c \<noteq> None \<or>
         vc_state c = Finished \<and> vc_waiting c = None
      then (let c1 = c\<lparr>vc_waiting := None\<rparr>
            in if vc_state c1 = WaitedOn then c1\<lparr>vc_state := Init\<rparr> else c1, Ok ())
      else (c, Abort ''PromiseCore<void>::resetHandle''))"

definition VoidCore_setRunning :: "handle \<Rightarrow> vcore \<Rightarrow> vcore" where
  "VoidCore_setRunning h c = c\<lparr>vc_coroutine := h\<rparr>"

definition VoidCore_destroyCoroutine :: "vcore \<Rightarrow> loop \<Rightarrow> loop \<times> coro option" where
  "VoidCore_destroyCoroutine c l =
     (case vc_coroutine c of
        None \<Rightarrow> (l, None)
      | Some f \<Rightarrow> (if vc_state c \<noteq> Finished then Loop_cancel f l else l, Some f))"

definition VoidAwaiter_await_ready :: "vcore \<Rightarrow> bool" where
  "VoidAwaiter_await_ready c \<longleftrightarrow> vc_ready c \<or> vc_exception c \<noteq> None"

definition VoidAwaiter_await_suspend ::
  "(coro \<Rightarrow> bool) \<Rightarrow> handle \<Rightarrow> vcore \<times> loop \<Rightarrow> (vcore \<times> loop) \<times> transfer res" where
  "VoidAwaiter_await_suspend fin h cl = (case cl of (c, l) \<Rightarrow>
     (if vc_ready c \<or> vc_exception c \<noteq> None then ((c, l), Abort ''!core_.ready_ && !core_.exception_'')
      else if VoidCore_isAwaited c then ((c, l), Abort ''promise is already being waited on!'')
      else (case VoidCore_setHandle h c of
              (c1, Ok u) \<Rightarrow> (case Loop_getNext fin l of (l1, t) \<Rightarrow> ((c1, l1), Ok t))
            | (c1, Exn e) \<Rightarrow> ((c1, l), Exn e)
            | (c1, Abort m) \<Rightarrow> ((c1, l), Abort m))))"

definition previously_finished_void :: exn where
  "previously_finished_void = UvcoMessage ''co_await called on previously finished promise (void)''"

definition VoidAwaiter_await_resume :: "vcore \<Rightarrow> vcore \<times> unit res" where
  "VoidAwaiter_await_resume c =
     (if VoidCore_stale c then (c, Exn previously_finished_void)
      else (case vc_exception c of
              Some e \<Rightarrow> (c, Exn e)
            | None \<Rightarrow> (if vc_ready c then (c\<lparr>vc_ready := False\<rparr>, Ok ())
                       else (c, Abort ''core_.ready_''))))"

definition VoidPromise_ready :: "vcore \<Rightarrow> bool" where
  "VoidPromise_ready c \<longleftrightarrow> vc_ready c"

definition unwrap_unfulfilled_void :: exn where
  "unwrap_unfulfilled_void = UvcoStatus UV_EAGAIN ''unwrap called on unfulfilled promise''"

definition VoidPromise_unwrap :: "vcore \<Rightarrow> vcore \<times> unit res" where
  "VoidPromise_unwrap c =
     (if VoidPromise_ready c
      then (case vc_exception c of Some e \<Rightarrow> (c, Exn e) | None \<Rightarrow> (c, Ok ()))
      else (c, Exn unwrap_unfulfilled_void))"

definition VoidPromise_move :: "vcore option \<Rightarrow> vcore option \<times> vcore option" where
  "VoidPromise_move other = (other, None)"

definition VoidPromise_destroy :: "vcore option \<Rightarrow> loop \<Rightarrow> loop \<times> coro option" where
  "VoidPromise_destroy this l = (case this of None \<Rightarrow> (l, None) | Some c \<Rightarrow> VoidCore_destroyCoroutine c l)"

definition VoidPromise_move_assign ::
  "bool \<Rightarrow> vcore option \<Rightarrow> vcore option \<Rightarrow> loop \<Rightarrow> (vcore option \<times> vcore option) \<times> loop \<times> coro option" where
  "VoidPromise_move_assign same this other l =
     (if same then ((this, other), l, None)
      else (case this of
              None \<Rightarrow> ((other, None), l, None)
            | Some c \<Rightarrow> (case VoidCore_destroyCoroutine c l of (l1, f) \<Rightarrow> ((other, None), l1, f))))"

definition VoidCoroutine_get_return_object :: "vcore \<Rightarrow> vcore option" where
  "VoidCoroutine_get_return_object c = Some c"

definition VoidCoroutine_initial_suspend :: "coro \<Rightarrow> vcore \<Rightarrow> vcore" where
  "VoidCoroutine_initial_suspend self c = VoidCore_setRunning (Some self) c"

definition VoidCoroutine_return_void :: "vcore \<times> loop \<Rightarrow> (vcore \<times> loop) \<times> unit res" where
  "VoidCoroutine_return_void cl = (case cl of (c, l) \<Rightarrow> VoidCore_resume (c\<lparr>vc_ready := True\<rparr>, l))"

definition VoidCoroutine_unhandled_exception ::
  "exn \<Rightarrow> vcore \<times> loop \<Rightarrow> (vcore \<times> loop) \<times> unit res" where
  "VoidCoroutine_unhandled_exception e cl = (case cl of (c, l) \<Rightarrow>
     (case VoidCore_except e c of
        (c1, Ok u) \<Rightarrow> VoidCore_resume (c1, l)
      | (c1, Exn x) \<Rightarrow> ((c1, l), Exn x)
      | (c1, Abort m) \<Rightarrow> ((c1, l), Abort m)))"

section \<open>The abstract future\<close>

text \<open>
  What a core stands for: nobody waits yet, one coroutine waits, a result is there, or the
  result has been taken.
\<close>

datatype 'v future = Pending | Awaited coro | Resolved "'v + exn" | Taken

fun outcome :: "'v + exn \<Rightarrow> 'v res" where
  "outcome (Inl v) = Ok v"
| "outcome (Inr e) = Exn e"

definition core_abs :: "('v, 'm) core_scheme \<Rightarrow> 'v future" where
  "core_abs c = (case pc_state c of
     Init \<Rightarrow> Pending
   | WaitedOn \<Rightarrow> Awaited (the (pc_waiting c))
   | Finished \<Rightarrow> (case pc_slot c of None \<Rightarrow> Taken | Some r \<Rightarrow> Resolved r))"

definition core_inv :: "('v, 'm) core_scheme \<Rightarrow> bool" where
  "core_inv c \<longleftrightarrow> (pc_waiting c \<noteq> None \<longleftrightarrow> pc_state c = WaitedOn) \<and>
                 (pc_state c \<noteq> Finished \<longrightarrow> pc_slot c = None)"

definition core_finish :: "'v + exn \<Rightarrow> 'v core \<times> loop \<Rightarrow> ('v core \<times> loop) \<times> unit res" where
  "core_finish r cl = (case r of
     Inl v \<Rightarrow> Coroutine_return_value v cl | Inr e \<Rightarrow> Coroutine_unhandled_exception e cl)"

definition vcore_abs :: "vcore \<Rightarrow> unit future" where
  "vcore_abs c = (case vc_state c of
     Init \<Rightarrow> Pending
   | WaitedOn \<Rightarrow> Awaited (the (vc_waiting c))
   | Finished \<Rightarrow> (case vc_exception c of
        Some e \<Rightarrow> Resolved (Inr e)
      | None \<Rightarrow> (if vc_ready c then Resolved (Inl ()) else Taken)))"

definition vcore_inv :: "vcore \<Rightarrow> bool" where
  "vcore_inv c \<longleftrightarrow> (vc_waiting c \<noteq> None \<longleftrightarrow> vc_state c = WaitedOn) \<and>
                  (vc_state c \<noteq> Finished \<longrightarrow> \<not> vc_ready c \<and> vc_exception c = None)"

definition vcore_finish :: "unit + exn \<Rightarrow> vcore \<times> loop \<Rightarrow> (vcore \<times> loop) \<times> unit res" where
  "vcore_finish r cl = (case r of
     Inl v \<Rightarrow> VoidCoroutine_return_void cl | Inr e \<Rightarrow> VoidCoroutine_unhandled_exception e cl)"

locale one_shot =
  fixes invar :: "'c \<Rightarrow> bool"
    and abs :: "'c \<Rightarrow> 'v future"
    and set_handle :: "handle \<Rightarrow> 'c \<Rightarrow> 'c \<times> unit res"
    and reset :: "'c \<Rightarrow> 'c \<times> unit res"
    and finish :: "'v + exn \<Rightarrow> 'c \<times> loop \<Rightarrow> ('c \<times> loop) \<times> unit res"
    and is_ready :: "'c \<Rightarrow> bool"
    and take_result :: "'c \<Rightarrow> 'c \<times> 'v res"
  assumes set_pending: "invar c \<Longrightarrow> abs c = Pending \<Longrightarrow>
      \<exists>c'. set_handle (Some h) c = (c', Ok ()) \<and> invar c' \<and> abs c' = Awaited h"
    and set_refused: "invar c \<Longrightarrow> abs c \<noteq> Pending \<Longrightarrow> set_handle g c = (c, Exn already_awaited)"
    and finish_pending: "invar c \<Longrightarrow> abs c = Pending \<Longrightarrow>
      \<exists>c'. finish r (c, l) = ((c', l), Ok ()) \<and> invar c' \<and> abs c' = Resolved r"
    and finish_awaited: "invar c \<Longrightarrow> abs c = Awaited h \<Longrightarrow>
      \<exists>c'. finish r (c, l) = ((c', Loop_enqueue (Some h) l), Ok ()) \<and> invar c' \<and> abs c' = Resolved r"
    and ready_iff: "invar c \<Longrightarrow> is_ready c \<longleftrightarrow> (\<exists>r. abs c = Resolved r)"
    and take_value: "invar c \<Longrightarrow> abs c = Resolved (Inl v) \<Longrightarrow>
      \<exists>c'. take_result c = (c', Ok v) \<and> invar c' \<and> abs c' = Taken"
    and take_exn: "invar c \<Longrightarrow> abs c = Resolved (Inr e) \<Longrightarrow>
      \<exists>c'. take_result c = (c', Exn e) \<and> invar c' \<and> (abs c' = Taken \<or> abs c' = Resolved (Inr e))"
    and take_taken: "invar c \<Longrightarrow> abs c = Taken \<Longrightarrow> \<exists>m. take_result c = (c, Exn (UvcoMessage m))"
    and reset_awaited: "invar c \<Longrightarrow> abs c = Awaited h \<Longrightarrow>
      \<exists>c'. reset c = (c', Ok ()) \<and> invar c' \<and> abs c' = Pending"
    and reset_other: "invar c \<Longrightarrow> (\<forall>h. abs c \<noteq> Awaited h) \<Longrightarrow> reset c = (c, Ok ())"
begin

lemma take_outcome:
  assumes "invar c" "abs c = Resolved r"
  shows "\<exists>c'. take_result c = (c', outcome r) \<and> invar c' \<and> set_handle g c' = (c', Exn already_awaited)"
proof (cases r)
  case (Inl v)
  with take_value [OF assms(1)] assms(2) set_refused show ?thesis by fastforce
next
  case (Inr e)
  with take_exn [OF assms(1)] assms(2) obtain c' where
    "take_result c = (c', Exn e)" "invar c'" "abs c' = Taken \<or> abs c' = Resolved (Inr e)" by blast
  moreover from this(3) have "abs c' \<noteq> Pending" by auto
  ultimately show ?thesis using Inr set_refused by auto
qed

text \<open>The life of an awaited result: registered, resolved with one wake-up, taken, spent.\<close>

lemma await_then_finish:
  assumes "invar c" "abs c = Pending"
  shows "\<exists>c1 c2 c3. set_handle (Some h) c = (c1, Ok ()) \<and>
      finish r (c1, l) = ((c2, Loop_enqueue (Some h) l), Ok ()) \<and> is_ready c2 \<and>
      take_result c2 = (c3, outcome r) \<and> invar c3 \<and>
      set_handle g c3 = (c3, Exn already_awaited)"
proof -
  obtain c1 where c1: "set_handle (Some h) c = (c1, Ok ())" "invar c1" "abs c1 = Awaited h"
    using set_pending [OF assms] by blast
  obtain c2 where c2: "finish r (c1, l) = ((c2, Loop_enqueue (Some h) l), Ok ())" "invar c2"
    "abs c2 = Resolved r"
    using finish_awaited [OF c1(2,3)] by blast
  from take_outcome [OF c2(2,3), of g] c1 c2 ready_iff [OF c2(2)] show ?thesis by blast
qed

text \<open>A result that is there before anybody waits schedules nobody.\<close>

lemma finish_then_take:
  assumes "invar c" "abs c = Pending"
  shows "\<exists>c2 c3. finish r (c, l) = ((c2, l), Ok ()) \<and> is_ready c2 \<and>
      take_result c2 = (c3, outcome r) \<and> invar c3"
proof -
  obtain c2 where c2: "finish r (c, l) = ((c2, l), Ok ())" "invar c2" "abs c2 = Resolved r"
    using finish_pending [OF assms] by blast
  from take_outcome [OF c2(2,3)] c2 ready_iff [OF c2(2)] show ?thesis by blast
qed

text \<open>A waiter that resets its handle is not scheduled by the result.\<close>

lemma reset_then_finish:
  assumes "invar c" "abs c = Pending"
  shows "\<exists>c1 c2 c3. set_handle (Some h) c = (c1, Ok ()) \<and> reset c1 = (c2, Ok ()) \<and>
      finish r (c2, l) = ((c3, l), Ok ()) \<and> is_ready c3"
proof -
  obtain c1 where c1: "set_handle (Some h) c = (c1, Ok ())" "invar c1" "abs c1 = Awaited h"
    using set_pending [OF assms] by blast
  obtain c2 where c2: "reset c1 = (c2, Ok ())" "invar c2" "abs c2 = Pending"
    using reset_awaited [OF c1(2,3)] by blast
  from finish_pending [OF c2(2,3), of r l] ready_iff c1 c2 show ?thesis by metis
qed

end

section \<open>Both cores implement the contract\<close>

lemmas core_defs = PromiseCore_setHandle_def PromiseCore_resetHandle_def PromiseCore_resume_def
  PromiseCore_ready_def PromiseCore_stale_def PromiseCore_except_def
  PromiseAwaiter_await_ready_def PromiseAwaiter_await_resume_def
  Coroutine_return_value_def Coroutine_unhandled_exception_def

lemmas vcore_defs = VoidCore_setHandle_def VoidCore_resetHandle_def VoidCore_resume_def
  VoidCore_ready_def VoidCore_stale_def VoidCore_except_def
  VoidAwaiter_await_ready_def VoidAwaiter_await_resume_def
  VoidCoroutine_return_void_def VoidCoroutine_unhandled_exception_def

lemma core_init [simp]: "core_inv PromiseCore_init" "core_abs PromiseCore_init = Pending"
  by (simp_all add: core_inv_def core_abs_def PromiseCore_init_def)

lemma vcore_init [simp]: "vcore_inv VoidCore_init" "vcore_abs VoidCore_init = Pending"
  by (simp_all add: vcore_inv_def vcore_abs_def VoidCore_init_def)

lemma core_abs_iffs:
  "core_abs c = Pending \<longleftrightarrow> pc_state c = Init"
  "core_abs c = Awaited h \<longleftrightarrow> pc_state c = WaitedOn \<and> the (pc_waiting c) = h"
  "core_abs c = Resolved r \<longleftrightarrow> pc_state c = Finished \<and> pc_slot c = Some r"
  "core_abs c = Taken \<longleftrightarrow> pc_state c = Finished \<and> pc_slot c = None"
  by (auto simp: core_abs_def split: promise_state.splits option.splits)

lemma vcore_abs_iffs:
  "vcore_abs c = Pending \<longleftrightarrow> vc_state c = Init"
  "vcore_abs c = Awaited h \<longleftrightarrow> vc_state c = WaitedOn \<and> the (vc_waiting c) = h"
  "vcore_abs c = Resolved (Inl u) \<longleftrightarrow> vc_state c = Finished \<and> vc_exception c = None \<and> vc_ready c"
  "vcore_abs c = Resolved (Inr e) \<longleftrightarrow> vc_state c = Finished \<and> vc_exception c = Some e"
  "vcore_abs c = Taken \<longleftrightarrow> vc_state c = Finished \<and> vc_exception c = None \<and> \<not> vc_ready c"
  by (auto simp: vcore_abs_def split: promise_state.splits option.splits)

lemma vcore_abs_resolved:
  "(\<exists>r. vcore_abs c = Resolved r) \<longleftrightarrow> vc_state c = Finished \<and> (vc_exception c \<noteq> None \<or> vc_ready c)"
  by (auto simp: vcore_abs_def split: promise_state.splits option.splits)

lemma vcore_abs_result:
  "vc_state c = Finished \<Longrightarrow> vc_ready c \<Longrightarrow>
     vc_exception c = (case r of Inl u \<Rightarrow> None | Inr e \<Rightarrow> Some e) \<Longrightarrow> vcore_abs c = Resolved r"
  by (cases r) (simp_all add: vcore_abs_def)

lemma core_finish_simps:
  "pc_slot c = None \<Longrightarrow> pc_state c = WaitedOn \<Longrightarrow> pc_waiting c = Some h \<Longrightarrow>
     core_finish r (c, l) =
       ((c\<lparr>pc_slot := Some r, pc_waiting := None, pc_state := Finished\<rparr>, Loop_enqueue (Some h) l), Ok ())"
  "pc_slot c = None \<Longrightarrow> pc_waiting c = None \<Longrightarrow>
     core_finish r (c, l) = ((c\<lparr>pc_slot := Some r, pc_state := Finished\<rparr>, l), Ok ())"
  by (cases r; simp add: core_finish_def core_defs)+

lemma vcore_finish_simps:
  "\<not> vc_ready c \<Longrightarrow> vc_exception c = None \<Longrightarrow> vc_state c = WaitedOn \<Longrightarrow> vc_waiting c = Some h \<Longrightarrow>
     vcore_finish r (c, l) =
       ((c\<lparr>vc_exception := (case r of Inl u \<Rightarrow> None | Inr e \<Rightarrow> Some e), vc_ready := True,
           vc_waiting := None, vc_state := Finished\<rparr>, Loop_enqueue (Some h) l), Ok ())"
  "\<not> vc_ready c \<Longrightarrow> vc_exception c = None \<Longrightarrow> vc_state c = Init \<Longrightarrow> vc_waiting c = None \<Longrightarrow>
     vcore_finish r (c, l) =
       ((c\<lparr>vc_exception := (case r of Inl u \<Rightarrow> None | Inr e \<Rightarrow> Some e), vc_ready := True,
           vc_state := Finished\<rparr>, l), Ok ())"
  by (cases r; simp add: vcore_finish_def vcore_defs)+

interpretation promise: one_shot core_inv core_abs PromiseCore_setHandle PromiseCore_resetHandle
  core_finish PromiseAwaiter_await_ready PromiseAwaiter_await_resume
  by unfold_locales
     (auto simp: core_inv_def core_abs_iffs core_finish_simps PromiseCore_setHandle_def
        PromiseCore_resetHandle_def PromiseAwaiter_await_ready_def PromiseAwaiter_await_resume_def
        PromiseCore_ready_def PromiseCore_stale_def previously_finished_def,
      metis promise_state.exhaust)

interpretation void_promise: one_shot vcore_inv vcore_abs VoidCore_setHandle VoidCore_resetHandle
  vcore_finish VoidAwaiter_await_ready VoidAwaiter_await_resume
  by unfold_locales
     (auto simp: vcore_inv_def vcore_abs_iffs vcore_abs_resolved vcore_finish_simps VoidCore_setHandle_def
        VoidCore_resetHandle_def VoidAwaiter_await_ready_def VoidAwaiter_await_resume_def
        VoidCore_ready_def VoidCore_stale_def previously_finished_void_def
        intro!: vcore_abs_result intro: promise_state.exhaust)

section \<open>The properties of promises\<close>



text \<open>
  C12: A \<open>Promise<T>\<close> whose coroutine finishes before anybody awaits it schedules nobody;
  awaiting it afterwards does not suspend and yields the value or exception.
\<close>

theorem promise_resolved_then_awaited:
  assumes "core_inv c" "core_abs c = Pending"
  shows "\<exists>c2 c3. core_finish r (c, l) = ((c2, l), Ok ()) \<and> PromiseAwaiter_await_ready c2 \<and>
      PromiseAwaiter_await_resume c2 = (c3, outcome r) \<and> core_inv c3"
  by (rule promise.finish_then_take [OF assms])

theorem promise_resolved_then_awaited_witness:
  "\<exists>c2 c3. core_finish (Inr already_awaited) (PromiseCore_init, Loop_init) = ((c2, Loop_init), Ok ()) \<and>
      PromiseAwaiter_await_ready c2 \<and>
      PromiseAwaiter_await_resume c2 = (c3, outcome (Inr already_awaited :: bool + exn)) \<and> core_inv c3"
  by (rule promise_resolved_then_awaited) simp_all

text \<open>
  A waiter that gave up (\<open>resetHandle()\<close>, as \<open>SelectSet\<close> does with the promises
  that were not ready) is not scheduled by the result, and the promise can be awaited again.
\<close>

theorem promise_reset_then_resolved:
  assumes "core_inv c" "core_abs c = Pending"
  shows "\<exists>c1 c2 c3. PromiseCore_setHandle (Some h) c = (c1, Ok ()) \<and>
      PromiseCore_resetHandle c1 = (c2, Ok ()) \<and>
      core_finish r (c2, l) = ((c3, l), Ok ()) \<and> PromiseAwaiter_await_ready c3"
  by (rule promise.reset_then_finish [OF assms])

theorem promise_reset_then_resolved_witness:
  "\<exists>c1 c2 c3. PromiseCore_setHandle (Some 3) PromiseCore_init = (c1, Ok ()) \<and>
      PromiseCore_resetHandle c1 = (c2, Ok ()) \<and>
      core_finish (Inl True) (c2, Loop_init) = ((c3, Loop_init), Ok ()) \<and> PromiseAwaiter_await_ready c3"
  by (rule promise_reset_then_resolved) simp_all



end
