(* ===== verification/Coroutine_Runtime.thy ===== *)
theory Coroutine_Runtime
  imports Promise_Core
begin

text \<open>
  Coroutines at work: the promise cores, the scheduler and the C++ coroutine protocol
  together, as one machine.

  A coroutine body is a tree of the actions that matter to the library: \<open>co_return\<close>, a
  thrown exception, \<open>co_await\<close> of a promise, calling another coroutine, \<open>co_await yield()\<close>
  (\<open>combinators.cc\<close>), \<open>co_await\<close> of an awaiter that is resumed by a libuv callback, and
  the destruction of promises. A frame holds the \<open>PromiseCore\<close> (it is a member of the
  coroutine's promise object) and where the coroutine is suspended. Frame addresses are never
  reused, so that a use after free is visible: it is the outcome \<open>Abort\<close>.

  The machine calls the modelled methods: \<open>initial_suspend\<close> when a coroutine is called,
  \<open>await_ready\<close>, \<open>await_suspend\<close> and \<open>await_resume\<close> of the promise awaiter,
  \<open>return_value\<close> and \<open>unhandled_exception\<close>, \<open>destroyCoroutine\<close>, and
  \<open>getNextInner\<close> as \<open>runAll\<close> does.
  \<open>await_suspend\<close> returns a handle: control moves to that coroutine in place of the
  suspended one (symmetric transfer); otherwise it returns to whoever resumed or called it,
  which is the next entry of the stack.
\<close>

section \<open>Programs, frames and the machine\<close>

datatype (dead 'v) prog =
    Return 'v
  | Throw exn
  | Await coro "'v res \<Rightarrow> 'v prog"
  | Spawn "'v prog" "coro \<Rightarrow> 'v prog"
  | Yield "'v prog"
  | Listen "'v prog"
  | Drop "coro list" "'v prog"

datatype (dead 'v) fstate =
    Running
  | AwaitingPromise coro "'v res \<Rightarrow> 'v prog"
  | AwaitingLoop "'v prog"
  | AtFinal

record 'v frame =
  fr_core :: "'v core"
  fr_state :: "'v fstate"

record 'v rt =
  rt_frames :: "coro \<Rightarrow> 'v frame option"
  rt_next :: coro
  rt_loop :: loop
  rt_stack :: "(coro \<times> 'v prog) list"
  rt_callbacks :: "coro list"

text \<open>\<open>std::coroutine_handle<>::done()\<close>\<close>

definition rt_fin :: "'v rt \<Rightarrow> coro \<Rightarrow> bool" where
  "rt_fin s c = (case rt_frames s c of
     None \<Rightarrow> False
   | Some f \<Rightarrow> (case fr_state f of AtFinal \<Rightarrow> True | Running \<Rightarrow> False
                | AwaitingPromise p k \<Rightarrow> False | AwaitingLoop p \<Rightarrow> False))"

definition rt_set_core :: "coro \<Rightarrow> 'v core \<Rightarrow> 'v rt \<Rightarrow> 'v rt" where
  "rt_set_core c k s =
     s\<lparr>rt_frames := (rt_frames s)(c := map_option (\<lambda>f. f\<lparr>fr_core := k\<rparr>) (rt_frames s c))\<rparr>"

definition rt_set_state :: "coro \<Rightarrow> 'v fstate \<Rightarrow> 'v rt \<Rightarrow> 'v rt" where
  "rt_set_state c st s =
     s\<lparr>rt_frames := (rt_frames s)(c := map_option (\<lambda>f. f\<lparr>fr_state := st\<rparr>) (rt_frames s c))\<rparr>"

definition rt_push :: "coro \<Rightarrow> 'v prog \<Rightarrow> 'v rt \<Rightarrow> 'v rt" where
  "rt_push c p s = s\<lparr>rt_stack := (c, p) # rt_stack s\<rparr>"

text \<open>\<open>handle.resume()\<close>: a coroutine that awaited a promise runs \<open>await_resume()\<close> first.\<close>

definition rt_resume :: "coro \<Rightarrow> 'v rt \<Rightarrow> 'v rt \<times> unit res" where
  "rt_resume d s = (case rt_frames s d of
     None \<Rightarrow> (s, Abort ''resume of a destroyed coroutine'')
   | Some f \<Rightarrow> (case fr_state f of
        AwaitingLoop p \<Rightarrow> (rt_push d p (rt_set_state d Running s), Ok ())
      | AwaitingPromise q k \<Rightarrow>
          (case rt_frames s q of
             None \<Rightarrow> (s, Abort ''await_resume on a destroyed promise'')
           | Some g \<Rightarrow> (case PromiseAwaiter_await_resume (fr_core g) of (core, r) \<Rightarrow>
               (rt_push d (k r) (rt_set_state d Running (rt_set_core q core s)), Ok ())))
      | Running \<Rightarrow> (s, Abort ''resume of a coroutine that is not suspended'')
      | AtFinal \<Rightarrow> (s, Abort ''resume of a coroutine that is not suspended'')))"

definition rt_transfer :: "transfer \<Rightarrow> 'v rt \<Rightarrow> 'v rt \<times> unit res" where
  "rt_transfer t s = (case t of noop_coroutine \<Rightarrow> (s, Ok ()) | Coro d \<Rightarrow> rt_resume d s)"

text \<open>\<open>co_return v\<close> and an escaping exception: the result is set, then the final suspension.\<close>

definition rt_finish :: "coro \<Rightarrow> 'v + exn \<Rightarrow> 'v rt \<Rightarrow> 'v rt \<times> unit res" where
  "rt_finish c r s = (case rt_frames s c of
     None \<Rightarrow> (s, Abort ''co_return in a destroyed coroutine'')
   | Some f \<Rightarrow> (case core_finish r (fr_core f, rt_loop s) of ((core, l), u) \<Rightarrow>
       ((rt_set_state c AtFinal (rt_set_core c core s))\<lparr>rt_loop := l\<rparr>, u)))"

definition rt_await ::
  "coro \<Rightarrow> coro \<Rightarrow> ('v res \<Rightarrow> 'v prog) \<Rightarrow> 'v rt \<Rightarrow> 'v rt \<times> unit res" where
  "rt_await c q k s = (case rt_frames s q of
     None \<Rightarrow> (s, Abort ''co_await on a destroyed promise'')
   | Some g \<Rightarrow>
       (if PromiseAwaiter_await_ready (fr_core g)
        then (case PromiseAwaiter_await_resume (fr_core g) of (core, r) \<Rightarrow>
                (rt_push c (k r) (rt_set_core q core s), Ok ()))
        else (case PromiseAwaiter_await_suspend (rt_fin s) (Some c) (fr_core g, rt_loop s) of
                ((core, l), Ok t) \<Rightarrow>
                  rt_transfer t
                    ((rt_set_state c (AwaitingPromise q k) (rt_set_core q core s))\<lparr>rt_loop := l\<rparr>)
              | ((core, l), Exn e) \<Rightarrow> (rt_push c (k (Exn e)) s, Ok ())
              | ((core, l), Abort m) \<Rightarrow> (s, Abort m))))"

text \<open>Calling a coroutine: a new frame, \<open>initial_suspend()\<close>, and the body starts at once.\<close>

definition rt_spawn :: "'v prog \<Rightarrow> 'v rt \<Rightarrow> 'v rt" where
  "rt_spawn p s =
     (let d = rt_next s
      in rt_push d p
          (s\<lparr>rt_frames := (rt_frames s)
               (d \<mapsto> \<lparr>fr_core = fst (Coroutine_initial_suspend d PromiseCore_init), fr_state = Running\<rparr>),
             rt_next := Suc d\<rparr>))"

text \<open>
  The destructor of a promise calls \<open>destroyCoroutine()\<close>, which frees the frame and runs the
  destructors in it; an awaiter registered with libuv revokes its callback there.
\<close>

definition rt_destroy :: "coro \<Rightarrow> 'v rt \<Rightarrow> 'v rt \<times> unit res" where
  "rt_destroy d s = (case rt_frames s d of
     None \<Rightarrow> (s, Abort ''destruction of a destroyed coroutine'')
   | Some f \<Rightarrow>
       (case fr_state f of
          Running \<Rightarrow> (s, Abort ''destruction of a running coroutine'')
        | _ \<Rightarrow>
          (case PromiseCore_destroyCoroutine (fr_core f) (rt_loop s) of
             (l, None) \<Rightarrow> (s\<lparr>rt_loop := l\<rparr>, Ok ())
           | (l, Some e) \<Rightarrow>
               (s\<lparr>rt_loop := l, rt_frames := (rt_frames s)(e := None),
                  rt_callbacks := filter (\<lambda>x. x \<noteq> e) (rt_callbacks s)\<rparr>, Ok ()))))"

fun rt_destroy_all :: "coro list \<Rightarrow> 'v rt \<Rightarrow> 'v rt \<times> unit res" where
  "rt_destroy_all [] s = (s, Ok ())"
| "rt_destroy_all (d # ds) s = rbind (rt_destroy d s) (\<lambda>s1 u. rt_destroy_all ds s1)"

definition rt_act :: "coro \<Rightarrow> 'v prog \<Rightarrow> 'v rt \<Rightarrow> 'v rt \<times> unit res" where
  "rt_act c p s = (case p of
     Return v \<Rightarrow> rt_finish c (Inl v) s
   | Throw e \<Rightarrow> rt_finish c (Inr e) s
   | Await q k \<Rightarrow> rt_await c q k s
   | Spawn b k \<Rightarrow> (rt_spawn b (rt_push c (k (rt_next s)) s), Ok ())
   | Yield q \<Rightarrow>
       ((rt_set_state c (AwaitingLoop q) s)\<lparr>rt_loop := Loop_enqueue (Some c) (rt_loop s)\<rparr>, Ok ())
   | Listen q \<Rightarrow>
       ((rt_set_state c (AwaitingLoop q) s)\<lparr>rt_callbacks := c # rt_callbacks s\<rparr>, Ok ())
   | Drop ds q \<Rightarrow> rbind (rt_destroy_all ds s) (\<lambda>s1 u. (rt_push c q s1, Ok ())))"

text \<open>
  One step: the top of the stack acts, or, with nothing running, \<open>runAll\<close> takes the next
  scheduled coroutine.
\<close>

definition rt_step :: "'v rt \<Rightarrow> 'v rt \<times> unit res" where
  "rt_step s = (case rt_stack s of
     (c, p) # st \<Rightarrow> rt_act c p (s\<lparr>rt_stack := st\<rparr>)
   | [] \<Rightarrow>
       (if resumable (loop_scheduler (rt_loop s)) = [] then (s, Ok ())
        else (case Scheduler_getNextInner (rt_fin s) (loop_scheduler (rt_loop s)) of (sch, t) \<Rightarrow>
                rt_transfer t (s\<lparr>rt_loop := (rt_loop s)\<lparr>loop_scheduler := sch\<rparr>\<rparr>))))"

text \<open>A libuv callback schedules the coroutine of its awaiter, once.\<close>

definition rt_callback :: "coro \<Rightarrow> 'v rt \<Rightarrow> 'v rt" where
  "rt_callback c s = s\<lparr>rt_callbacks := remove1 c (rt_callbacks s),
                       rt_loop := Loop_enqueue (Some c) (rt_loop s)\<rparr>"

definition rt_start :: "'v prog \<Rightarrow> 'v rt" where
  "rt_start main = rt_spawn main
     \<lparr>rt_frames = (\<lambda>c. None), rt_next = 0, rt_loop = Loop_init, rt_stack = [], rt_callbacks = []\<rparr>"

fun rt_steps :: "nat \<Rightarrow> 'v rt \<Rightarrow> 'v rt \<times> unit res" where
  "rt_steps 0 s = (s, Ok ())"
| "rt_steps (Suc n) s = rbind (rt_step s) (\<lambda>s1 u. rt_steps n s1)"

section \<open>What the language asks of the program\<close>

text \<open>
  A promise is awaited while it exists and while no other coroutine is registered with it. Promises are destroyed
  together with the frames that own them: no surviving coroutine awaits a destroyed promise,
  and no destroyed coroutine is still registered with a surviving promise.
\<close>

definition awaits :: "'v rt \<Rightarrow> coro \<Rightarrow> coro option" where
  "awaits s x = (case rt_frames s x of
     None \<Rightarrow> None
   | Some f \<Rightarrow> (case fr_state f of AwaitingPromise p k \<Rightarrow> Some p | Running \<Rightarrow> None
                | AwaitingLoop p \<Rightarrow> None | AtFinal \<Rightarrow> None))"

definition registered :: "'v rt \<Rightarrow> coro \<Rightarrow> coro \<Rightarrow> bool" where
  "registered s p x = (case rt_frames s p of None \<Rightarrow> False | Some f \<Rightarrow> pc_waiting (fr_core f) = Some x)"

definition on_stack :: "'v rt \<Rightarrow> coro \<Rightarrow> bool" where
  "on_stack s c \<longleftrightarrow> c \<in> set (map fst (rt_stack s))"

definition drop_legal :: "coro list \<Rightarrow> 'v rt \<Rightarrow> bool" where
  "drop_legal ds s \<longleftrightarrow> distinct ds \<and>
     list_all (\<lambda>d. rt_frames s d \<noteq> None \<and> \<not> on_stack s d) ds \<and>
     list_all (\<lambda>x. case awaits s x of
         None \<Rightarrow> True
       | Some p \<Rightarrow> (p \<in> set ds \<longrightarrow> x \<in> set ds) \<and> (x \<in> set ds \<and> registered s p x \<longrightarrow> p \<in> set ds))
       [0..<rt_next s]"

definition rt_legal :: "'v rt \<Rightarrow> bool" where
  "rt_legal s = (case rt_stack s of
     [] \<Rightarrow> True
   | (c, p) # st \<Rightarrow> (case p of
        Await q k \<Rightarrow> (case rt_frames s q of None \<Rightarrow> False | Some g \<Rightarrow> \<not> PromiseCore_isAwaited (fr_core g))
      | Drop ds q \<Rightarrow> drop_legal ds s
      | _ \<Rightarrow> True))"

text \<open>
  The states a program reaches while it keeps to these rules. A turn of the loop sets
  \<open>stopped_\<close> and libuv's stop flag.
\<close>

inductive rt_reaches :: "'v prog \<Rightarrow> 'v rt \<Rightarrow> bool" for main :: "'v prog" where
  start: "rt_reaches main (rt_start main)"
| step: "rt_reaches main s \<Longrightarrow> rt_legal s \<Longrightarrow> rt_step s = (s', Ok ()) \<Longrightarrow> rt_reaches main s'"
| callback: "rt_reaches main s \<Longrightarrow> rt_stack s = [] \<Longrightarrow> c \<in> set (rt_callbacks s) \<Longrightarrow>
    rt_reaches main (rt_callback c s)"
| turn: "rt_reaches main s \<Longrightarrow> rt_stack s = [] \<Longrightarrow>
    rt_reaches main (s\<lparr>rt_loop := (rt_loop s)\<lparr>loop_stopped := b, uv_stop_flag := u\<rparr>\<rparr>)"

section \<open>The invariant\<close>

abbreviation rt_queue :: "'v rt \<Rightarrow> handle list" where
  "rt_queue s \<equiv> resumable (loop_scheduler (rt_loop s))"

text \<open>What the invariant says of one frame.\<close>

definition frame_inv :: "'v rt \<Rightarrow> coro \<Rightarrow> 'v frame \<Rightarrow> bool" where
  "frame_inv s c f \<longleftrightarrow>
     c < rt_next s \<and> core_inv (fr_core f) \<and> pc_coroutine (fr_core f) = Some c \<and>
     (pc_state (fr_core f) = Finished \<longleftrightarrow> fr_state f = AtFinal) \<and>
     (case fr_state f of
        Running \<Rightarrow> on_stack s c \<and> Some c \<notin> set (rt_queue s) \<and> c \<notin> set (rt_callbacks s)
      | AtFinal \<Rightarrow> \<not> on_stack s c \<and> Some c \<notin> set (rt_queue s) \<and> c \<notin> set (rt_callbacks s)
      | AwaitingLoop p \<Rightarrow>
          \<not> on_stack s c \<and> (Some c \<in> set (rt_queue s) \<longleftrightarrow> c \<notin> set (rt_callbacks s))
      | AwaitingPromise p k \<Rightarrow>
          \<not> on_stack s c \<and> c \<notin> set (rt_callbacks s) \<and>
          (\<exists>g. rt_frames s p = Some g \<and>
            (if Some c \<in> set (rt_queue s) then pc_state (fr_core g) = Finished
             else pc_waiting (fr_core g) = Some c)))"

definition rt_inv :: "'v rt \<Rightarrow> bool" where
  "rt_inv s \<longleftrightarrow>
     (\<forall>c f. rt_frames s c = Some f \<longrightarrow> frame_inv s c f) \<and>
     distinct (map fst (rt_stack s)) \<and>
     distinct (filter (\<lambda>h. h \<noteq> None) (rt_queue s)) \<and>
     distinct (rt_callbacks s) \<and>
     (\<forall>c. on_stack s c \<or> Some c \<in> set (rt_queue s) \<or> c \<in> set (rt_callbacks s) \<longrightarrow>
          rt_frames s c \<noteq> None) \<and>
     (\<forall>p x. registered s p x \<longrightarrow> awaits s x = Some p)"

section \<open>Where the handles are\<close>

text \<open>The number of places from which a coroutine can be resumed.\<close>

definition holders :: "'v rt \<Rightarrow> coro \<Rightarrow> nat" where
  "holders s c = count_list (map fst (rt_stack s)) c + count_list (rt_queue s) (Some c) +
     count_list (rt_callbacks s) c + length (filter (\<lambda>p. registered s p c) [0..<rt_next s])"

definition is_live :: "'v rt \<Rightarrow> coro \<Rightarrow> bool" where
  "is_live s c \<longleftrightarrow> rt_frames s c \<noteq> None \<and> \<not> rt_fin s c"

section \<open>Running programs\<close>

text \<open>The executable check that the first \<open>n\<close> steps keep to the rules.\<close>

fun rt_legal_steps :: "nat \<Rightarrow> 'v rt \<Rightarrow> bool" where
  "rt_legal_steps 0 s = True"
| "rt_legal_steps (Suc n) s = (rt_legal s \<and> snd (rt_step s) = Ok () \<and> rt_legal_steps n (fst (rt_step s)))"

text \<open>\<open>main\<close> calls a coroutine that yields once, and awaits it.\<close>

definition await_main :: "nat prog" where
  "await_main = Spawn (Yield (Return 5)) (\<lambda>p. Await p (\<lambda>r. case r of Ok v \<Rightarrow> Return (v + 1) | _ \<Rightarrow> Return 0))"

text \<open>\<open>main\<close> awaits itself.\<close>

definition self_main :: "nat prog" where
  "self_main = Await 0 (\<lambda>r. Return 0)"

text \<open>\<open>main\<close> destroys a coroutine that still awaits a promise it only borrows.\<close>

definition dangling_main :: "nat prog" where
  "dangling_main = Spawn (Yield (Yield (Return 1))) (\<lambda>p. Spawn (Await p (\<lambda>r. Return 2)) (\<lambda>q. Drop [q] (Return 0)))"

section \<open>Every step keeps the invariant\<close>

lemma rt_invI:
  assumes "\<And>c f. rt_frames s c = Some f \<Longrightarrow> frame_inv s c f"
    and "distinct (map fst (rt_stack s))"
    and "distinct (filter (\<lambda>h. h \<noteq> None) (rt_queue s))"
    and "distinct (rt_callbacks s)"
    and "\<And>c. on_stack s c \<Longrightarrow> rt_frames s c \<noteq> None"
    and "\<And>c. Some c \<in> set (rt_queue s) \<Longrightarrow> rt_frames s c \<noteq> None"
    and "\<And>c. c \<in> set (rt_callbacks s) \<Longrightarrow> rt_frames s c \<noteq> None"
    and "\<And>p x. registered s p x \<Longrightarrow> awaits s x = Some p"
  shows "rt_inv s"
  using assms unfolding rt_inv_def by blast

lemma rt_invD:
  assumes "rt_inv s"
  shows "rt_frames s c = Some f \<Longrightarrow> frame_inv s c f"
    and "distinct (map fst (rt_stack s))"
    and "distinct (filter (\<lambda>h. h \<noteq> None) (rt_queue s))"
    and "distinct (rt_callbacks s)"
    and "on_stack s c \<Longrightarrow> rt_frames s c \<noteq> None"
    and "Some c \<in> set (rt_queue s) \<Longrightarrow> rt_frames s c \<noteq> None"
    and "c \<in> set (rt_callbacks s) \<Longrightarrow> rt_frames s c \<noteq> None"
    and "registered s p x \<Longrightarrow> awaits s x = Some p"
  using assms unfolding rt_inv_def by blast+

text \<open>A frame that a step leaves alone keeps its part of the invariant.\<close>

lemma frame_inv_unchanged:
  assumes "frame_inv s x f" "rt_next s \<le> rt_next t"
    and "on_stack t x \<longleftrightarrow> on_stack s x"
    and "Some x \<in> set (rt_queue t) \<longleftrightarrow> Some x \<in> set (rt_queue s)"
    and "x \<in> set (rt_callbacks t) \<longleftrightarrow> x \<in> set (rt_callbacks s)"
    and "\<And>p k g. fr_state f = AwaitingPromise p k \<Longrightarrow> rt_frames s p = Some g \<Longrightarrow>
        \<exists>g'. rt_frames t p = Some g' \<and>
          (pc_state (fr_core g) = Finished \<longrightarrow> pc_state (fr_core g') = Finished) \<and>
          (pc_waiting (fr_core g) = Some x \<longrightarrow> pc_waiting (fr_core g') = Some x)"
  shows "frame_inv t x f"
proof (cases "fr_state f")
  case (AwaitingPromise p k)
  with assms(1) obtain g where g: "rt_frames s p = Some g"
    "if Some x \<in> set (rt_queue s) then pc_state (fr_core g) = Finished else pc_waiting (fr_core g) = Some x"
    unfolding frame_inv_def by auto
  from assms(6) [OF AwaitingPromise g(1)] g(2) assms(1-5) AwaitingPromise show ?thesis
    unfolding frame_inv_def by (fastforce split: if_splits)
qed (use assms(1-5) in \<open>auto simp: frame_inv_def\<close>)

text \<open>A step that changes one frame only, and the places where its handle is stored.\<close>

lemma rt_inv_one:
  assumes inv: "rt_inv s"
    and frames: "rt_frames t = (rt_frames s)(c \<mapsto> f')" and "rt_next s \<le> rt_next t"
    and others: "\<And>x. x \<noteq> c \<Longrightarrow> (on_stack t x \<longleftrightarrow> on_stack s x) \<and>
        (Some x \<in> set (rt_queue t) \<longleftrightarrow> Some x \<in> set (rt_queue s)) \<and>
        (x \<in> set (rt_callbacks t) \<longleftrightarrow> x \<in> set (rt_callbacks s))"
    and dist: "distinct (map fst (rt_stack t))" "distinct (filter (\<lambda>h. h \<noteq> None) (rt_queue t))"
      "distinct (rt_callbacks t)"
    and new: "frame_inv t c f'"
    and core: "\<And>f. rt_frames s c = Some f \<Longrightarrow> pc_waiting (fr_core f') = pc_waiting (fr_core f) \<and>
        (pc_state (fr_core f) = Finished \<longrightarrow> pc_state (fr_core f') = Finished)"
      "rt_frames s c = None \<Longrightarrow> pc_waiting (fr_core f') = None"
    and reg: "\<And>p. registered s p c \<Longrightarrow> awaits t c = Some p"
  shows "rt_inv t"
proof (rule rt_invI)
  fix x g assume g: "rt_frames t x = Some g"
  show "frame_inv t x g"
  proof (cases "x = c")
    case True
    with g new frames show ?thesis by simp
  next
    case False
    with g frames have "rt_frames s x = Some g" by simp
    from rt_invD(1) [OF inv this] assms(3) show ?thesis
    proof (rule frame_inv_unchanged)
      fix p k h assume "rt_frames s p = Some h"
      then show "\<exists>g'. rt_frames t p = Some g' \<and>
          (pc_state (fr_core h) = Finished \<longrightarrow> pc_state (fr_core g') = Finished) \<and>
          (pc_waiting (fr_core h) = Some x \<longrightarrow> pc_waiting (fr_core g') = Some x)"
        using core(1) [of h] by (cases "p = c") (simp_all add: frames)
    qed (simp_all add: others [OF False])
  qed
next
  fix p x assume "registered t p x"
  then have r: "registered s p x"
    using core by (auto simp: registered_def frames split: if_splits option.splits)
  show "awaits t x = Some p"
  proof (cases "x = c")
    case True
    with r reg show ?thesis by simp
  next
    case False
    with rt_invD(8) [OF inv r] show ?thesis by (simp add: awaits_def frames)
  qed
next
  fix x
  show "on_stack t x \<Longrightarrow> rt_frames t x \<noteq> None"
    using others [of x] rt_invD(5) [OF inv, of x] by (auto simp: frames)
  show "Some x \<in> set (rt_queue t) \<Longrightarrow> rt_frames t x \<noteq> None"
    using others [of x] rt_invD(6) [OF inv, of x] by (auto simp: frames)
  show "x \<in> set (rt_callbacks t) \<Longrightarrow> rt_frames t x \<noteq> None"
    using others [of x] rt_invD(7) [OF inv, of x] by (auto simp: frames)
qed (fact dist)+

lemma rt_inv_running:
  assumes "rt_inv s" "rt_stack s = (c, p) # st"
  obtains f where "rt_frames s c = Some f" "fr_state f = Running" "frame_inv s c f"
    "Some c \<notin> set (rt_queue s)" "c \<notin> set (rt_callbacks s)" "c \<notin> set (map fst st)"
    "\<And>p. \<not> registered s p c"
proof -
  have "on_stack s c" using assms(2) by (simp add: on_stack_def)
  with rt_invD(5) [OF assms(1)] obtain f where f: "rt_frames s c = Some f" by blast
  with rt_invD(1) [OF assms(1) f] \<open>on_stack s c\<close> have r: "fr_state f = Running"
    by (cases "fr_state f") (auto simp: frame_inv_def)
  with rt_invD(8) [OF assms(1)] f have "\<not> registered s p c" for p by (force simp: awaits_def)
  with that [OF f r rt_invD(1) [OF assms(1) f]] rt_invD(1) [OF assms(1) f] r rt_invD(2) [OF assms(1)] assms(2)
  show ?thesis by (auto simp: frame_inv_def)
qed

lemma rt_yield_inv:
  assumes inv: "rt_inv s" and st: "rt_stack s = (c, Yield q) # st"
  shows "\<exists>s'. rt_step s = (s', Ok ()) \<and> rt_inv s'"
proof -
  obtain f where f: "rt_frames s c = Some f" "fr_state f = Running" "frame_inv s c f"
    "Some c \<notin> set (rt_queue s)" "c \<notin> set (rt_callbacks s)" "c \<notin> set (map fst st)"
    "\<And>p. \<not> registered s p c"
    using rt_inv_running [OF inv st] by blast
  define t where "t = (rt_set_state c (AwaitingLoop q) (s\<lparr>rt_stack := st\<rparr>))
      \<lparr>rt_loop := Loop_enqueue (Some c) (rt_loop s)\<rparr>"
  have "rt_inv t"
    using rt_invD(2-4) [OF inv] f st
    by (intro rt_inv_one [OF inv, of t c "f\<lparr>fr_state := AwaitingLoop q\<rparr>"])
       (auto simp: t_def rt_set_state_def Scheduler_enqueue_def on_stack_def frame_inv_def)
  then show ?thesis by (simp add: rt_step_def st rt_act_def t_def)
qed

lemma rt_listen_inv:
  assumes inv: "rt_inv s" and st: "rt_stack s = (c, Listen q) # st"
  shows "\<exists>s'. rt_step s = (s', Ok ()) \<and> rt_inv s'"
proof -
  obtain f where f: "rt_frames s c = Some f" "fr_state f = Running" "frame_inv s c f"
    "Some c \<notin> set (rt_queue s)" "c \<notin> set (rt_callbacks s)" "c \<notin> set (map fst st)"
    "\<And>p. \<not> registered s p c"
    using rt_inv_running [OF inv st] by blast
  define t where "t = (rt_set_state c (AwaitingLoop q) (s\<lparr>rt_stack := st\<rparr>))
      \<lparr>rt_callbacks := c # rt_callbacks s\<rparr>"
  have "rt_inv t"
    using rt_invD(2-4) [OF inv] f st
    by (intro rt_inv_one [OF inv, of t c "f\<lparr>fr_state := AwaitingLoop q\<rparr>"])
       (auto simp: t_def rt_set_state_def on_stack_def frame_inv_def)
  then show ?thesis by (simp add: rt_step_def st rt_act_def t_def)
qed

lemma rt_fresh:
  assumes "rt_inv s"
  shows "rt_frames s (rt_next s) = None" "\<not> on_stack s (rt_next s)"
    "Some (rt_next s) \<notin> set (rt_queue s)" "rt_next s \<notin> set (rt_callbacks s)"
    "\<not> registered s p (rt_next s)"
proof -
  show n: "rt_frames s (rt_next s) = None"
    using rt_invD(1) [OF assms, of "rt_next s"]
    by (cases "rt_frames s (rt_next s)") (auto simp: frame_inv_def)
  then show "\<not> on_stack s (rt_next s)" "Some (rt_next s) \<notin> set (rt_queue s)"
    "rt_next s \<notin> set (rt_callbacks s)" "\<not> registered s p (rt_next s)"
    using rt_invD(5-7) [OF assms, of "rt_next s"] rt_invD(8) [OF assms, of p "rt_next s"]
    by (auto simp: awaits_def)
qed

text \<open>The programs on the stack do not matter to the invariant.\<close>

lemma rt_inv_stack:
  assumes "rt_inv s" "map fst st = map fst (rt_stack s)"
  shows "rt_inv (s\<lparr>rt_stack := st\<rparr>)"
proof -
  let ?t = "s\<lparr>rt_stack := st\<rparr>"
  have "set (map fst st) = set (map fst (rt_stack s))" using assms(2) by (rule arg_cong)
  then have "on_stack ?t = on_stack s" "registered ?t = registered s" "awaits ?t = awaits s"
    by (simp_all add: fun_eq_iff on_stack_def registered_def awaits_def)
  moreover from this have "frame_inv ?t = frame_inv s"
    by (simp add: fun_eq_iff frame_inv_def cong: fstate.case_cong)
  ultimately show ?thesis using assms unfolding rt_inv_def by simp
qed

lemma rt_spawn_inv:
  assumes inv: "rt_inv s"
  shows "rt_inv (rt_spawn b s)"
proof -
  let ?d = "rt_next s"
  let ?f = "\<lparr>fr_core = fst (Coroutine_initial_suspend ?d PromiseCore_init), fr_state = Running\<rparr> :: 'a frame"
  have "frame_inv (rt_spawn b s) ?d ?f"
    using rt_fresh [OF inv]
    by (simp add: frame_inv_def rt_spawn_def rt_push_def Let_def on_stack_def
        Coroutine_initial_suspend_def PromiseCore_setRunning_def PromiseCore_init_def core_inv_def)
  then show ?thesis
    using rt_invD(2-4) [OF inv] rt_fresh [OF inv]
    by (intro rt_inv_one [OF inv, of _ ?d ?f])
       (auto simp: rt_spawn_def rt_push_def Let_def on_stack_def
        Coroutine_initial_suspend_def PromiseCore_setRunning_def PromiseCore_init_def)
qed

lemma rt_spawn_step_inv:
  assumes inv: "rt_inv s" and st: "rt_stack s = (c, Spawn b k) # st"
  shows "\<exists>s'. rt_step s = (s', Ok ()) \<and> rt_inv s'"
proof -
  have "rt_inv (s\<lparr>rt_stack := (c, k (rt_next s)) # st\<rparr>)"
    using inv st by (intro rt_inv_stack) auto
  from rt_spawn_inv [OF this] show ?thesis by (simp add: rt_step_def st rt_act_def rt_push_def)
qed

text \<open>The waiter of a finishing coroutine moves from the promise to the queue.\<close>

lemma rt_wake_inv:
  assumes inv: "rt_inv s" and st: "rt_stack s = (c, p) # st"
    and fc: "rt_frames s c = Some f" and w: "pc_waiting (fr_core f) = Some x"
    and t: "rt_frames t = (rt_frames s)(c \<mapsto> f\<lparr>fr_core := (fr_core f)
        \<lparr>pc_slot := Some r, pc_waiting := None, pc_state := Finished\<rparr>, fr_state := AtFinal\<rparr>)"
      "rt_stack t = st" "rt_queue t = rt_queue s @ [Some x]" "rt_callbacks t = rt_callbacks s"
      "rt_next t = rt_next s"
  shows "rt_inv t"
proof -
  have f: "fr_state f = Running" "frame_inv s c f"
    "Some c \<notin> set (rt_queue s)" "c \<notin> set (rt_callbacks s)" "c \<notin> set (map fst st)"
    using rt_inv_running [OF inv st] fc by (metis option.inject)+
  have "registered s c x" using fc w by (simp add: registered_def)
  with rt_invD(8) [OF inv] have "awaits s x = Some c" by blast
  then obtain h k where h: "rt_frames s x = Some h" "fr_state h = AwaitingPromise c k"
    by (auto simp: awaits_def split: option.splits fstate.splits)
  have xc: "x \<noteq> c" using h f fc by auto
  from rt_invD(1) [OF inv h(1)] h(2) fc f(1,2)
  have x: "\<not> on_stack s x" "x \<notin> set (rt_callbacks s)" "Some x \<notin> set (rt_queue s)"
    by (auto simp: frame_inv_def split: if_splits)
  show ?thesis
  proof (rule rt_invI)
    fix y g assume g: "rt_frames t y = Some g"
    consider "y = c" | "y = x" | "y \<noteq> c" "y \<noteq> x" by blast
    then show "frame_inv t y g"
    proof cases
      case 1
      with g f xc st show ?thesis by (auto simp: frame_inv_def t on_stack_def core_inv_def)
    next
      case 2
      with g h x xc st rt_invD(1) [OF inv h(1)] show ?thesis
        by (auto simp: frame_inv_def t on_stack_def)
    next
      case 3
      with g have "rt_frames s y = Some g" by (simp add: t)
      from rt_invD(1) [OF inv this] show ?thesis
        by (rule frame_inv_unchanged) (use w 3 fc st in \<open>auto simp: t on_stack_def\<close>)
    qed
  next
    fix p y assume "registered t p y"
    then have "registered s p y" "p \<noteq> c" by (auto simp: registered_def t split: if_splits)
    with rt_invD(8) [OF inv, of p y] f fc show "awaits t y = Some p" by (auto simp: awaits_def t)
  qed (use rt_invD(2-7) [OF inv] x xc h st in \<open>auto simp: t on_stack_def\<close>)
qed

text \<open>\<open>co_return\<close> and exceptions: without a waiter, and with one that moves to the queue.\<close>

lemma rt_finish_inv:
  assumes inv: "rt_inv s" and st: "rt_stack s = (c, p) # st"
  shows "\<exists>s'. rt_finish c r (s\<lparr>rt_stack := st\<rparr>) = (s', Ok ()) \<and> rt_inv s'"
proof -
  obtain f where f: "rt_frames s c = Some f" "fr_state f = Running" "frame_inv s c f"
    "Some c \<notin> set (rt_queue s)" "c \<notin> set (rt_callbacks s)" "c \<notin> set (map fst st)"
    "\<And>p. \<not> registered s p c"
    using rt_inv_running [OF inv st] by blast
  from f(2,3) have slot: "pc_slot (fr_core f) = None" and ci: "core_inv (fr_core f)"
    by (auto simp: frame_inv_def core_inv_def)
  show ?thesis
  proof (cases "pc_waiting (fr_core f)")
    case None
    let ?g = "f\<lparr>fr_core := (fr_core f)\<lparr>pc_slot := Some r, pc_state := Finished\<rparr>, fr_state := AtFinal\<rparr>"
    define t where "t = s\<lparr>rt_stack := st, rt_frames := (rt_frames s)(c \<mapsto> ?g)\<rparr>"
    have "rt_finish c r (s\<lparr>rt_stack := st\<rparr>) = (t, Ok ())"
      using slot None f(1)
      by (simp add: rt_finish_def core_finish_simps t_def rt_set_core_def rt_set_state_def)
    moreover have "rt_inv t"
      using rt_invD(2-4) [OF inv] f st None
      by (intro rt_inv_one [OF inv, of t c ?g]) (auto simp: t_def on_stack_def frame_inv_def core_inv_def)
    ultimately show ?thesis by blast
  next
    case (Some x)
    let ?g = "f\<lparr>fr_core := (fr_core f)\<lparr>pc_slot := Some r, pc_waiting := None, pc_state := Finished\<rparr>,
        fr_state := AtFinal\<rparr>"
    define t where "t = s\<lparr>rt_stack := st, rt_frames := (rt_frames s)(c \<mapsto> ?g),
        rt_loop := Loop_enqueue (Some x) (rt_loop s)\<rparr>"
    have "rt_finish c r (s\<lparr>rt_stack := st\<rparr>) = (t, Ok ())"
      using slot Some f(1) ci
      by (simp add: rt_finish_def core_finish_simps core_inv_def t_def rt_set_core_def rt_set_state_def)
    moreover have "rt_inv t"
      by (rule rt_wake_inv [OF inv st f(1) Some]) (simp_all add: t_def Scheduler_enqueue_def)
    ultimately show ?thesis by blast
  qed
qed

text \<open>Taking the next coroutine from the queue and resuming it.\<close>

lemma getNextInner_loop_filter:
  assumes "\<And>c. Some c \<in> set rs \<Longrightarrow> \<not> fin c" "getNextInner_loop fin None rs = (n, rest)"
  shows "case n of None \<Rightarrow> rest = [] \<and> filter (\<lambda>h. h \<noteq> None) rs = []
          | Some d \<Rightarrow> \<not> fin d \<and> filter (\<lambda>h. h \<noteq> None) rs = Some d # filter (\<lambda>h. h \<noteq> None) rest"
  using assms
proof (induction rs)
  case Nil
  then show ?case by auto
next
  case (Cons r rs)
  show ?case
  proof (cases r)
    case None
    with Cons show ?thesis by (cases n; cases rs) (auto simp: not_runnable_def)
  next
    case (Some c)
    with Cons.prems have "\<not> not_runnable fin (Some c)" by (simp add: not_runnable_def)
    with Cons.prems(2) Some have "n = Some c" "rest = rs" by (cases rs; simp)+
    with Cons.prems(1) Some show ?thesis by simp
  qed
qed

lemma rt_queued_not_fin:
  assumes "rt_inv s" "Some c \<in> set (rt_queue s)"
  shows "\<not> rt_fin s c"
  using rt_invD(1) [OF assms(1), of c] assms(2)
  by (auto simp: rt_fin_def frame_inv_def split: option.splits fstate.splits)

lemma rt_getNextInner:
  assumes inv: "rt_inv s"
    and g: "Scheduler_getNextInner (rt_fin s) (loop_scheduler (rt_loop s)) = (sch, t)"
  shows "case t of noop_coroutine \<Rightarrow> resumable sch = [] \<and> filter (\<lambda>h. h \<noteq> None) (rt_queue s) = []
      | Coro d \<Rightarrow> filter (\<lambda>h. h \<noteq> None) (rt_queue s) = Some d # filter (\<lambda>h. h \<noteq> None) (resumable sch)"
proof -
  obtain n rest where l: "getNextInner_loop (rt_fin s) None (rt_queue s) = (n, rest)"
    by (meson surj_pair)
  from getNextInner_loop_filter [OF _ l] rt_queued_not_fin [OF inv]
  have "case n of None \<Rightarrow> rest = [] \<and> filter (\<lambda>h. h \<noteq> None) (rt_queue s) = []
      | Some d \<Rightarrow> \<not> rt_fin s d \<and>
          filter (\<lambda>h. h \<noteq> None) (rt_queue s) = Some d # filter (\<lambda>h. h \<noteq> None) rest" by blast
  with g l show ?thesis
    by (cases n) (auto simp: Scheduler_getNextInner_def not_runnable_def)
qed

lemma await_resume_keeps:
  assumes "PromiseAwaiter_await_resume c = (c', r)" "core_inv c"
  shows "pc_waiting c' = pc_waiting c" "pc_state c' = pc_state c" "pc_coroutine c' = pc_coroutine c"
    "core_inv c'"
  using assms
  by (auto simp: PromiseAwaiter_await_resume_def core_inv_def split: if_splits option.splits sum.splits)

lemma rt_set_core_inv:
  assumes inv: "rt_inv s" and g: "rt_frames s p = Some g"
    and k: "pc_waiting k = pc_waiting (fr_core g)" "pc_state k = pc_state (fr_core g)"
      "pc_coroutine k = pc_coroutine (fr_core g)" "core_inv k"
  shows "rt_inv (rt_set_core p k s)"
proof (rule rt_inv_one [OF inv, of _ p "g\<lparr>fr_core := k\<rparr>"])
  let ?t = "rt_set_core p k s"
  from rt_invD(1) [OF inv g] have fi: "frame_inv s p g" .
  have "frame_inv s p (g\<lparr>fr_core := k\<rparr>)" using fi k by (simp add: frame_inv_def)
  then show "frame_inv ?t p (g\<lparr>fr_core := k\<rparr>)"
  proof (rule frame_inv_unchanged)
    fix q j h assume "rt_frames s q = Some h"
    then show "\<exists>g'. rt_frames ?t q = Some g' \<and>
          (pc_state (fr_core h) = Finished \<longrightarrow> pc_state (fr_core g') = Finished) \<and>
          (pc_waiting (fr_core h) = Some p \<longrightarrow> pc_waiting (fr_core g') = Some p)"
      using k g by (cases "q = p") (simp_all add: rt_set_core_def)
  qed (simp_all add: rt_set_core_def on_stack_def)
  show "registered s q p \<Longrightarrow> awaits ?t p = Some q" for q
    using rt_invD(8) [OF inv, of q p] g by (simp add: awaits_def rt_set_core_def)
qed (use g k rt_invD(2-4) [OF inv] in \<open>auto simp: rt_set_core_def on_stack_def\<close>)

lemma rt_resume_inv:
  assumes inv: "rt_inv s"
    and q: "filter (\<lambda>h. h \<noteq> None) (rt_queue s) =
        Some d # filter (\<lambda>h. h \<noteq> None) (resumable (loop_scheduler l))"
  shows "\<exists>s'. rt_resume d (s\<lparr>rt_loop := l\<rparr>) = (s', Ok ()) \<and> rt_inv s'"
proof -
  note m = filter_tail_member [OF q rt_invD(3) [OF inv]]
  from rt_invD(6) [OF inv m(1)] obtain f where f: "rt_frames s d = Some f" by blast
  from rt_invD(1) [OF inv f] have fi: "frame_inv s d f" .
  define push where "push p = rt_push d p (rt_set_state d Running (s\<lparr>rt_loop := l\<rparr>))" for p
  have inv1: "rt_inv (push p)" if "\<And>p. \<not> registered s p d" "fr_state f \<noteq> Running" "fr_state f \<noteq> AtFinal" for p
  proof (rule rt_inv_one [OF inv, of _ d "f\<lparr>fr_state := Running\<rparr>"])
    show "frame_inv (push p) d (f\<lparr>fr_state := Running\<rparr>)"
      using fi that(2,3) m(1,2)
      by (auto simp: frame_inv_def push_def rt_push_def rt_set_state_def on_stack_def split: fstate.splits)
    show "distinct (map fst (rt_stack (push p)))"
      using fi that(2,3) rt_invD(2) [OF inv]
      by (auto simp: frame_inv_def push_def rt_push_def rt_set_state_def on_stack_def split: fstate.splits)
  qed (use f that m rt_invD(4) [OF inv] in
        \<open>auto simp: push_def rt_push_def rt_set_state_def on_stack_def\<close>)
  show ?thesis
  proof (cases "fr_state f")
    case Running
    with fi m(1) show ?thesis by (simp add: frame_inv_def)
  next
    case AtFinal
    with fi m(1) show ?thesis by (simp add: frame_inv_def)
  next
    case (AwaitingLoop p)
    with rt_invD(8) [OF inv, of _ d] f have "\<not> registered s q d" for q by (auto simp: awaits_def)
    with inv1 AwaitingLoop f show ?thesis by (auto simp: rt_resume_def push_def)
  next
    case (AwaitingPromise p k)
    with fi m(1) obtain g where g: "rt_frames s p = Some g" "pc_state (fr_core g) = Finished"
      by (auto simp: frame_inv_def)
    have ci: "core_inv (fr_core g)" using rt_invD(1) [OF inv g(1)] by (simp add: frame_inv_def)
    obtain core r where ar: "PromiseAwaiter_await_resume (fr_core g) = (core, r)" by (meson surj_pair)
    have nr: "\<not> registered s q d" for q
      using rt_invD(8) [OF inv, of q d] f AwaitingPromise g ci
      by (auto simp: awaits_def registered_def core_inv_def)
    then have "rt_inv (push (k r))" by (intro inv1) (simp_all add: AwaitingPromise)
    moreover have pd: "p \<noteq> d"
      using g f AwaitingPromise rt_invD(1) [OF inv g(1)] by (auto simp: frame_inv_def)
    then have "rt_frames (push (k r)) p = Some g"
      using g by (simp add: push_def rt_push_def rt_set_state_def)
    ultimately have "rt_inv (rt_set_core p core (push (k r)))"
      using await_resume_keeps [OF ar ci] by (intro rt_set_core_inv) auto
    moreover have "rt_resume d (s\<lparr>rt_loop := l\<rparr>) = (rt_set_core p core (push (k r)), Ok ())"
      using f g AwaitingPromise ar pd
      by (simp add: rt_resume_def push_def rt_push_def rt_set_state_def rt_set_core_def fun_upd_twist)
    ultimately show ?thesis by blast
  qed
qed

lemma rt_inv_loop:
  assumes inv: "rt_inv s"
    and q: "filter (\<lambda>h. h \<noteq> None) (resumable (loop_scheduler l)) = filter (\<lambda>h. h \<noteq> None) (rt_queue s)"
  shows "rt_inv (s\<lparr>rt_loop := l\<rparr>)"
proof -
  let ?t = "s\<lparr>rt_loop := l\<rparr>"
  have m: "Some x \<in> set (resumable (loop_scheduler l)) \<longleftrightarrow> Some x \<in> set (rt_queue s)" for x
    using arg_cong [OF q, of set] by (auto simp: set_eq_iff)
  have "on_stack ?t = on_stack s" "registered ?t = registered s" "awaits ?t = awaits s"
    by (simp_all add: fun_eq_iff on_stack_def registered_def awaits_def)
  moreover from this have "frame_inv ?t = frame_inv s"
    by (simp add: fun_eq_iff frame_inv_def m cong: fstate.case_cong)
  ultimately show ?thesis using inv q m unfolding rt_inv_def by simp
qed

text \<open>What \<open>getNext()\<close> and \<open>runAll()\<close> do with the handle they took from the queue.\<close>

lemma rt_transfer_inv:
  assumes inv: "rt_inv s"
    and g: "Scheduler_getNextInner (rt_fin s) (loop_scheduler (rt_loop s)) = (sch, t)"
    and l: "loop_scheduler l = sch"
  shows "\<exists>s'. rt_transfer t (s\<lparr>rt_loop := l\<rparr>) = (s', Ok ()) \<and> rt_inv s'"
proof (cases t)
  case noop_coroutine
  with rt_getNextInner [OF inv g] l show ?thesis
    by (auto simp: rt_transfer_def intro: rt_inv_loop [OF inv])
next
  case (Coro d)
  with rt_getNextInner [OF inv g] l rt_resume_inv [OF inv, of d l] show ?thesis
    by (auto simp: rt_transfer_def)
qed

lemma rt_idle_inv:
  assumes inv: "rt_inv s" and st: "rt_stack s = []"
  shows "\<exists>s'. rt_step s = (s', Ok ()) \<and> rt_inv s'"
  using rt_transfer_inv [OF inv] inv
  by (auto simp: rt_step_def st split: prod.split)

text \<open>\<open>co_await\<close> of an unfinished promise: the coroutine is registered with it.\<close>

lemma rt_suspend_inv:
  assumes inv: "rt_inv s" and st: "rt_stack s = (c, p) # st"
    and g: "rt_frames s q = Some g" "pc_state (fr_core g) = Init"
  shows "rt_inv (rt_set_state c (AwaitingPromise q k)
      (rt_set_core q ((fr_core g)\<lparr>pc_waiting := Some c, pc_state := WaitedOn\<rparr>) (s\<lparr>rt_stack := st\<rparr>)))"
    (is "rt_inv ?t")
proof (rule rt_invI)
  obtain f where f: "rt_frames s c = Some f" "fr_state f = Running" "frame_inv s c f"
    "Some c \<notin> set (rt_queue s)" "c \<notin> set (rt_callbacks s)" "c \<notin> set (map fst st)"
    "\<And>p. \<not> registered s p c"
    using rt_inv_running [OF inv st] by blast
  have gi: "frame_inv s q g" by (rule rt_invD(1) [OF inv g(1)])
  have nw: "pc_waiting (fr_core g) = None" using gi g(2) by (auto simp: frame_inv_def core_inv_def)
  note t = rt_set_state_def rt_set_core_def on_stack_def
  fix x h assume h: "rt_frames ?t x = Some h"
  consider "x = c" | "x = q" "x \<noteq> c" | "x \<noteq> q" "x \<noteq> c" by blast
  then show "frame_inv ?t x h"
  proof cases
    case 1
    with h f g gi show ?thesis by (cases "c = q") (auto simp: frame_inv_def core_inv_def t)
  next
    case 2
    have "frame_inv ?t q g" using gi
      by (rule frame_inv_unchanged)
         (use 2 f(1) g nw st in \<open>auto simp: t split: if_splits\<close>)
    with 2 h g show ?thesis
      by (auto simp: frame_inv_def core_inv_def t split: fstate.splits)
  next
    case 3
    with h have s: "rt_frames s x = Some h" by (simp add: t)
    from rt_invD(1) [OF inv s] show ?thesis
      by (rule frame_inv_unchanged) (use 3 st g nw f(1) in \<open>auto simp: t split: if_splits\<close>)
  qed
next
  obtain f where f: "rt_frames s c = Some f" "fr_state f = Running"
    using rt_inv_running [OF inv st] by blast
  fix p' x assume r: "registered ?t p' x"
  show "awaits ?t x = Some p'"
  proof (cases "p' = q")
    case True
    with r f(1) g(1) have "x = c"
      by (cases "c = q") (auto simp: registered_def rt_set_state_def rt_set_core_def)
    with True f(1) show ?thesis by (cases "c = q") (simp_all add: awaits_def rt_set_state_def rt_set_core_def)
  next
    case False
    with r f(1) have "registered s p' x"
      by (cases "p' = c") (simp_all add: registered_def rt_set_state_def rt_set_core_def)
    from rt_invD(8) [OF inv this] f g(1) show ?thesis
      by (cases "x = c"; cases "x = q")
         (simp_all add: awaits_def rt_set_state_def rt_set_core_def)
  qed
qed (use rt_invD(2-7) [OF inv] st g(1) in
      \<open>simp_all add: rt_set_state_def rt_set_core_def on_stack_def\<close>)

lemma rt_await_suspend_inv:
  assumes inv: "rt_inv s" and st: "rt_stack s = (c, Await q k) # st"
    and g: "rt_frames s q = Some g" "pc_waiting (fr_core g) = None" "pc_state (fr_core g) = Init"
    and nr: "\<not> PromiseAwaiter_await_ready (fr_core g)"
  shows "\<exists>s'. rt_step s = (s', Ok ()) \<and> rt_inv s'"
proof -
  let ?core = "(fr_core g)\<lparr>pc_waiting := Some c, pc_state := WaitedOn\<rparr>"
  let ?t = "rt_set_state c (AwaitingPromise q k) (rt_set_core q ?core (s\<lparr>rt_stack := st\<rparr>))"
  obtain sch t where n: "Scheduler_getNextInner (rt_fin (s\<lparr>rt_stack := st\<rparr>)) (loop_scheduler (rt_loop s)) = (sch, t)"
    by (meson surj_pair)
  obtain f where "rt_frames s c = Some f" "fr_state f = Running"
    using rt_inv_running [OF inv st] by blast
  with g(1) have fin: "rt_fin ?t = rt_fin (s\<lparr>rt_stack := st\<rparr>)"
    by (cases "c = q") (auto simp: rt_fin_def fun_eq_iff rt_set_state_def rt_set_core_def)
  have loop: "rt_loop ?t = rt_loop s" by (simp add: rt_set_state_def rt_set_core_def)
  have "rt_inv ?t" by (rule rt_suspend_inv [OF inv st g(1,3)])
  from rt_transfer_inv [OF this, unfolded fin loop, OF n, of "(rt_loop s)\<lparr>loop_scheduler := sch\<rparr>"]
  show ?thesis using g nr n
    by (simp add: rt_step_def st rt_act_def rt_await_def PromiseAwaiter_await_suspend_def
        PromiseCore_isAwaited_def PromiseCore_setHandle_def Loop_getNext_def Scheduler_getNext_def
        useSymmetricHandoff_def)
qed

lemma rt_await_inv:
  assumes inv: "rt_inv s" and st: "rt_stack s = (c, Await q k) # st" and legal: "rt_legal s"
  shows "\<exists>s'. rt_step s = (s', Ok ()) \<and> rt_inv s'"
proof -
  from legal st obtain g where g: "rt_frames s q = Some g" "pc_waiting (fr_core g) = None"
    by (auto simp: rt_legal_def PromiseCore_isAwaited_def split: option.splits)
  have ci: "core_inv (fr_core g)" using rt_invD(1) [OF inv g(1)] by (simp add: frame_inv_def)
  show ?thesis
  proof (cases "PromiseAwaiter_await_ready (fr_core g)")
    case True
    obtain core r where ar: "PromiseAwaiter_await_resume (fr_core g) = (core, r)" by (meson surj_pair)
    have "rt_inv ((rt_set_core q core s)\<lparr>rt_stack := (c, k r) # st\<rparr>)"
      using await_resume_keeps [OF ar ci] g(1) st
      by (intro rt_inv_stack rt_set_core_inv [OF inv]) (auto simp: rt_set_core_def)
    with True g(1) ar show ?thesis
      by (simp add: rt_step_def st rt_act_def rt_await_def rt_push_def rt_set_core_def)
  next
    case False
    note nr = False
    show ?thesis
    proof (cases "pc_state (fr_core g) = Init")
      case False
      have "rt_inv (s\<lparr>rt_stack := (c, k (Exn already_awaited)) # st\<rparr>)"
        using st by (intro rt_inv_stack [OF inv]) simp
      with g False nr show ?thesis
        by (simp add: rt_step_def st rt_act_def rt_await_def PromiseAwaiter_await_suspend_def
            PromiseCore_isAwaited_def PromiseCore_setHandle_def rt_push_def)
    next
      case True
      with rt_await_suspend_inv [OF inv st g _ nr] show ?thesis .
    qed
  qed
qed

text \<open>Destroying a group of coroutines removes every trace of them, whatever the order.\<close>

lemma rt_destroy_ok:
  assumes "rt_frames s d = Some f" "pc_coroutine (fr_core f) = Some d" "fr_state f \<noteq> Running"
    and "pc_state (fr_core f) = Finished \<longrightarrow> Some d \<notin> set (rt_queue s)"
  obtains t where "rt_destroy d s = (t, Ok ())" "rt_frames t = (rt_frames s)(d := None)"
    "rt_next t = rt_next s" "rt_stack t = rt_stack s"
    "rt_callbacks t = filter (\<lambda>x. x \<noteq> d) (rt_callbacks s)"
    "rt_queue t = map (\<lambda>h. if h = Some d then None else h) (rt_queue s)"
proof -
  have "rt_queue s = map (\<lambda>h. if h = Some d then None else h) (rt_queue s)"
    if "pc_state (fr_core f) = Finished"
    using that assms(4) by (auto intro!: map_idI [symmetric])
  with assms that show ?thesis
    by (cases "fr_state f")
       (auto simp: rt_destroy_def PromiseCore_destroyCoroutine_def Loop_cancel_def Scheduler_cancel_def)
qed

lemma rt_destroy_all_ok:
  assumes "distinct ds"
    and "\<And>d. d \<in> set ds \<Longrightarrow> \<exists>f. rt_frames s d = Some f \<and> pc_coroutine (fr_core f) = Some d \<and>
        fr_state f \<noteq> Running \<and> (pc_state (fr_core f) = Finished \<longrightarrow> Some d \<notin> set (rt_queue s))"
  shows "\<exists>t. rt_destroy_all ds s = (t, Ok ()) \<and>
    rt_frames t = (\<lambda>x. if x \<in> set ds then None else rt_frames s x) \<and>
    rt_next t = rt_next s \<and> rt_stack t = rt_stack s \<and>
    rt_callbacks t = filter (\<lambda>x. x \<notin> set ds) (rt_callbacks s) \<and>
    rt_queue t = map (\<lambda>h. if h \<in> Some ` set ds then None else h) (rt_queue s)"
  using assms
proof (induction ds arbitrary: s)
  case (Cons d ds)
  obtain f where f: "rt_frames s d = Some f" "pc_coroutine (fr_core f) = Some d" "fr_state f \<noteq> Running"
    "pc_state (fr_core f) = Finished \<longrightarrow> Some d \<notin> set (rt_queue s)"
    using Cons.prems(2) [of d] by auto
  from rt_destroy_ok [OF f] obtain t where t: "rt_destroy d s = (t, Ok ())"
    "rt_frames t = (rt_frames s)(d := None)" "rt_next t = rt_next s" "rt_stack t = rt_stack s"
    "rt_callbacks t = filter (\<lambda>x. x \<noteq> d) (rt_callbacks s)"
    "rt_queue t = map (\<lambda>h. if h = Some d then None else h) (rt_queue s)" by blast
  have "\<exists>f. rt_frames t e = Some f \<and> pc_coroutine (fr_core f) = Some e \<and>
        fr_state f \<noteq> Running \<and> (pc_state (fr_core f) = Finished \<longrightarrow> Some e \<notin> set (rt_queue t))"
    if "e \<in> set ds" for e
    using Cons.prems(2) [of e] Cons.prems(1) that by (auto simp: t)
  from Cons.IH [OF _ this] Cons.prems(1) show ?case by (auto simp: t fun_eq_iff)
qed auto

lemma rt_dropped_inv:
  assumes inv: "rt_inv s"
    and t: "\<And>x. rt_frames t x = (if x \<in> set ds then None else rt_frames s x)"
      "rt_next t = rt_next s" "map fst (rt_stack t) = map fst (rt_stack s)"
      "rt_callbacks t = filter (\<lambda>x. x \<notin> set ds) (rt_callbacks s)"
      "rt_queue t = map (\<lambda>h. if h \<in> Some ` set ds then None else h) (rt_queue s)"
    and ns: "\<And>d. d \<in> set ds \<Longrightarrow> \<not> on_stack s d"
    and aw: "\<And>x p. x < rt_next s \<Longrightarrow> awaits s x = Some p \<Longrightarrow>
        (p \<in> set ds \<longrightarrow> x \<in> set ds) \<and> (x \<in> set ds \<and> registered s p x \<longrightarrow> p \<in> set ds)"
  shows "rt_inv t"
proof -
  have os: "on_stack t = on_stack s" unfolding on_stack_def t(3) ..
  have q: "Some x \<in> set (rt_queue t) \<longleftrightarrow> Some x \<in> set (rt_queue s) \<and> x \<notin> set ds" for x
    unfolding t(5) by auto
  have d: "distinct (filter (\<lambda>h. h \<noteq> None) (rt_queue t))"
    unfolding t(5) filter_nulled using rt_invD(3) [OF inv] by (rule distinct_filter)
  show ?thesis
  proof (rule rt_invI)
    fix x h assume "rt_frames t x = Some h"
    then have x: "x \<notin> set ds" and h: "rt_frames s x = Some h" by (auto simp: t(1) split: if_splits)
    note fi = rt_invD(1) [OF inv h]
    then have nx: "x < rt_next s" by (simp add: frame_inv_def)
    from fi show "frame_inv t x h"
    proof (rule frame_inv_unchanged)
      fix p k g assume "fr_state h = AwaitingPromise p k" and g: "rt_frames s p = Some g"
      with aw [OF nx, of p] h x have "p \<notin> set ds" by (auto simp: awaits_def)
      with g show "\<exists>g'. rt_frames t p = Some g' \<and>
          (pc_state (fr_core g) = Finished \<longrightarrow> pc_state (fr_core g') = Finished) \<and>
          (pc_waiting (fr_core g) = Some x \<longrightarrow> pc_waiting (fr_core g') = Some x)"
        by (simp add: t(1))
    qed (use x q os in \<open>simp_all add: t(2,4)\<close>)
  next
    fix p x assume "registered t p x"
    then have p: "p \<notin> set ds" and r: "registered s p x"
      by (auto simp: registered_def t(1) split: if_splits)
    from rt_invD(8) [OF inv r] have a: "awaits s x = Some p" .
    then obtain f where "rt_frames s x = Some f" by (auto simp: awaits_def split: option.splits)
    from rt_invD(1) [OF inv this] aw [OF _ a] r p have "x \<notin> set ds" by (auto simp: frame_inv_def)
    with a show "awaits t x = Some p" by (simp add: awaits_def t(1))
  qed (use d rt_invD(2,4-7) [OF inv] ns in \<open>auto simp: t(1,3,4) os q\<close>)
qed

lemma rt_drop_inv:
  assumes inv: "rt_inv s" and st: "rt_stack s = (c, Drop ds q) # st" and legal: "rt_legal s"
  shows "\<exists>s'. rt_step s = (s', Ok ()) \<and> rt_inv s'"
proof -
  from legal st have l: "drop_legal ds s" by (simp add: rt_legal_def)
  then have dl: "distinct ds" "\<And>d. d \<in> set ds \<Longrightarrow> rt_frames s d \<noteq> None \<and> \<not> on_stack s d"
    unfolding drop_legal_def list_all_iff by blast+
  have aw: "(p \<in> set ds \<longrightarrow> x \<in> set ds) \<and> (x \<in> set ds \<and> registered s p x \<longrightarrow> p \<in> set ds)"
    if "x < rt_next s" "awaits s x = Some p" for x p
    using l that by (auto simp: drop_legal_def list_all_iff dest!: bspec [where x = x])
  have "\<exists>f. rt_frames s d = Some f \<and> pc_coroutine (fr_core f) = Some d \<and>
        fr_state f \<noteq> Running \<and> (pc_state (fr_core f) = Finished \<longrightarrow> Some d \<notin> set (rt_queue s))"
    if "d \<in> set ds" for d
    using dl(2) [OF that] rt_invD(1) [OF inv, of d]
    by (auto simp: frame_inv_def split: fstate.splits)
  then obtain t where t: "rt_destroy_all ds (s\<lparr>rt_stack := st\<rparr>) = (t, Ok ())"
    "\<And>x. rt_frames t x = (if x \<in> set ds then None else rt_frames s x)"
    "rt_next t = rt_next s" "rt_stack t = st"
    "rt_callbacks t = filter (\<lambda>x. x \<notin> set ds) (rt_callbacks s)"
    "rt_queue t = map (\<lambda>h. if h \<in> Some ` set ds then None else h) (rt_queue s)"
    using rt_destroy_all_ok [OF dl(1), of "s\<lparr>rt_stack := st\<rparr>"] by fastforce
  have "rt_inv (rt_push c q t)"
    by (rule rt_dropped_inv [OF inv, where ds = ds])
       (use t st dl aw in \<open>simp_all add: rt_push_def cong: if_cong\<close>)
  then show ?thesis by (simp add: rt_step_def st rt_act_def t)
qed

lemma rt_callback_inv:
  assumes inv: "rt_inv s" and st: "rt_stack s = []" and c: "c \<in> set (rt_callbacks s)"
  shows "rt_inv (rt_callback c s)"
proof -
  from rt_invD(7) [OF inv c] obtain f where f: "rt_frames s c = Some f" by blast
  with rt_invD(1) [OF inv f] c obtain p where p: "fr_state f = AwaitingLoop p"
    by (cases "fr_state f") (auto simp: frame_inv_def)
  have fr: "rt_frames (rt_callback c s) = (rt_frames s)(c \<mapsto> f)" using f by (auto simp: rt_callback_def)
  show ?thesis
    using rt_invD(2-4) [OF inv] f p c rt_invD(1) [OF inv f] rt_invD(8) [OF inv, of _ c]
    by (intro rt_inv_one [OF inv fr])
       (auto simp: rt_callback_def on_stack_def st Scheduler_enqueue_def frame_inv_def awaits_def
        distinct_remove1)
qed

lemma rt_step_inv:
  assumes "rt_inv s" "rt_legal s"
  shows "\<exists>s'. rt_step s = (s', Ok ()) \<and> rt_inv s'"
proof (cases "rt_stack s")
  case Nil
  with rt_idle_inv [OF assms(1)] show ?thesis .
next
  case (Cons a st)
  obtain c p where a: "a = (c, p)" by (cases a)
  note st = Cons [unfolded a]
  show ?thesis
  proof (cases p)
    case (Return v)
    with rt_finish_inv [OF assms(1) st, of "Inl v"] show ?thesis by (simp add: rt_step_def st rt_act_def)
  next
    case (Throw e)
    with rt_finish_inv [OF assms(1) st, of "Inr e"] show ?thesis by (simp add: rt_step_def st rt_act_def)
  qed (use st rt_await_inv [OF assms(1) _ assms(2)] rt_spawn_step_inv [OF assms(1)] rt_yield_inv [OF assms(1)]
        rt_listen_inv [OF assms(1)] rt_drop_inv [OF assms(1) _ assms(2)] in blast)+
qed

lemma rt_start_inv: "rt_inv (rt_start main)"
proof -
  have "rt_inv (\<lparr>rt_frames = (\<lambda>c. None), rt_next = 0, rt_loop = Loop_init, rt_stack = [], rt_callbacks = []\<rparr> :: 'a rt)"
    by (rule rt_invI) (simp_all add: on_stack_def registered_def Loop_init_def)
  from rt_spawn_inv [OF this] show ?thesis by (simp add: rt_start_def)
qed

lemma rt_reaches_inv: "rt_reaches main s \<Longrightarrow> rt_inv s"
proof (induction rule: rt_reaches.induct)
  case (step s s')
  with rt_step_inv [of s] show ?case by auto
next
  case (turn s b u)
  then show ?case by (intro rt_inv_loop) simp_all
qed (simp_all add: rt_start_inv rt_callback_inv)

section \<open>No handle is lost or duplicated\<close>

lemma rt_registered:
  assumes inv: "rt_inv s"
  shows "length (filter (\<lambda>p. registered s p c) [0..<rt_next s]) =
    (if \<exists>p. registered s p c then 1 else 0)"
proof (cases "\<exists>p. registered s p c")
  case True
  then obtain p where p: "registered s p c" by blast
  then obtain f where "rt_frames s p = Some f" by (auto simp: registered_def split: option.splits)
  from rt_invD(1) [OF inv this] have "p < rt_next s" by (simp add: frame_inv_def)
  moreover have "registered s x c \<longleftrightarrow> x = p" for x
    using rt_invD(8) [OF inv p] rt_invD(8) [OF inv, of x c] p by auto
  ultimately show ?thesis using True by (subst filter_unique [where p = p]) auto
qed simp

lemma rt_holders:
  assumes inv: "rt_inv s"
  shows "holders s c = (if is_live s c then 1 else 0)"
proof -
  have q: "count_list (rt_queue s) (Some c) = (if Some c \<in> set (rt_queue s) then 1 else 0)"
    using count_list_distinct [OF rt_invD(3) [OF inv], of "Some c"]
    by (simp add: count_list_keep)
  note d = count_list_distinct [OF rt_invD(2) [OF inv], of c] count_list_distinct [OF rt_invD(4) [OF inv], of c]
    q rt_registered [OF inv]
  show ?thesis
  proof (cases "rt_frames s c")
    case None
    then have "\<not> (\<exists>p. registered s p c)" using rt_invD(8) [OF inv, of _ c] by (auto simp: awaits_def)
    with None d rt_invD(5-7) [OF inv, of c] show ?thesis
      by (auto simp: holders_def is_live_def on_stack_def)
  next
    case (Some f)
    note fi = rt_invD(1) [OF inv Some]
    show ?thesis
    proof (cases "\<exists>p k. fr_state f = AwaitingPromise p k")
      case True
      then obtain p k where p: "fr_state f = AwaitingPromise p k" by blast
      with fi obtain g where g: "rt_frames s p = Some g"
        "if Some c \<in> set (rt_queue s) then pc_state (fr_core g) = Finished
         else pc_waiting (fr_core g) = Some c" by (auto simp: frame_inv_def)
      have "awaits s c = Some p" using Some p by (simp add: awaits_def)
      with rt_invD(8) [OF inv, of _ c] have "(\<exists>p. registered s p c) \<longleftrightarrow> registered s p c" by auto
      also have "\<dots> \<longleftrightarrow> Some c \<notin> set (rt_queue s)"
        using g rt_invD(1) [OF inv g(1)] by (auto simp: registered_def frame_inv_def core_inv_def)
      finally have "(\<exists>p. registered s p c) \<longleftrightarrow> Some c \<notin> set (rt_queue s)" .
      with d fi p Some show ?thesis
        by (auto simp: holders_def is_live_def on_stack_def frame_inv_def rt_fin_def)
    next
      case False
      then have "\<not> (\<exists>p. registered s p c)" using rt_invD(8) [OF inv, of _ c] Some
        by (cases "fr_state f") (auto simp: awaits_def)
      with d fi Some False show ?thesis
        by (cases "fr_state f") (auto simp: holders_def is_live_def on_stack_def frame_inv_def rt_fin_def)
    qed
  qed
qed

lemma rt_stuck_awaits:
  assumes inv: "rt_inv s" and q: "rt_stack s = []" "rt_queue s = []" "rt_callbacks s = []"
    and c: "is_live s c"
  shows "\<exists>p. awaits s c = Some p \<and> registered s p c \<and> is_live s p"
proof -
  from c obtain f where f: "rt_frames s c = Some f" by (auto simp: is_live_def)
  note fi = rt_invD(1) [OF inv f]
  from c fi f q obtain p k where p: "fr_state f = AwaitingPromise p k"
    by (cases "fr_state f") (auto simp: is_live_def rt_fin_def frame_inv_def on_stack_def)
  with fi q obtain g where g: "rt_frames s p = Some g" "pc_waiting (fr_core g) = Some c"
    by (auto simp: frame_inv_def)
  with rt_invD(1) [OF inv g(1)] have "\<not> rt_fin s p"
    by (auto simp: frame_inv_def core_inv_def rt_fin_def split: fstate.splits)
  with f p g show ?thesis by (simp add: awaits_def registered_def is_live_def)
qed

lemma rt_steps_reaches:
  "rt_reaches main s \<Longrightarrow> rt_legal_steps n s \<Longrightarrow> rt_reaches main (fst (rt_steps n s))"
proof (induction n arbitrary: s)
  case (Suc n)
  then have "rt_step s = (fst (rt_step s), Ok ())" by (cases "rt_step s") simp
  with Suc.prems have "rt_reaches main (fst (rt_step s))" by (auto intro: rt_reaches.step)
  from Suc.IH [OF this] Suc.prems(2) show ?case
    by (cases "rt_step s") (auto simp: rbind_def)
qed simp

section \<open>The properties of running programs\<close>

text \<open>
  C1: As long as a program keeps to the rules of \<open>rt_legal\<close>, every step from a reachable
  state succeeds: no assertion of the promise cores, of the awaiters or of the scheduler fails,
  and no coroutine is resumed that is destroyed, running or finished.
\<close>

theorem rt_safe:
  assumes "rt_reaches main s" "rt_legal s"
  shows "\<exists>s'. rt_step s = (s', Ok ())"
  using rt_step_inv [OF rt_reaches_inv [OF assms(1)] assms(2)] by blast

theorem rt_safe_witness:
  "\<exists>s'. rt_step (fst (rt_steps 6 (rt_start await_main))) = (s', Ok ())"
proof (rule rt_safe)
  show "rt_reaches await_main (fst (rt_steps 6 (rt_start await_main)))"
    by (rule rt_steps_reaches [OF rt_reaches.start]) code_simp
  show "rt_legal (fst (rt_steps 6 (rt_start await_main)))" by code_simp
qed

text \<open>
  C2: In every reachable state a coroutine that has not finished can be resumed from exactly
  one place (the stack, the ready queue, a pending libuv callback, or one promise core), and a
  finished or destroyed coroutine from none: no wake-up is lost and none happens twice.
\<close>

theorem rt_one_holder:
  assumes "rt_reaches main s"
  shows "holders s c = (if is_live s c then 1 else 0)"
  by (rule rt_holders [OF rt_reaches_inv [OF assms]])

theorem rt_one_holder_witness:
  "holders (fst (rt_steps 3 (rt_start await_main))) 0 = 1"
proof -
  have "rt_reaches await_main (fst (rt_steps 3 (rt_start await_main)))"
    by (rule rt_steps_reaches [OF rt_reaches.start]) code_simp
  from rt_one_holder [OF this, of 0] show ?thesis
    by (rule trans) code_simp
qed

text \<open>
  C3: When nothing is left to run (no coroutine runs, is scheduled or waits for libuv), every
  unfinished coroutine awaits an unfinished coroutine and is registered with it. So a program
  is stuck only when its coroutines await each other in a cycle.
\<close>

theorem rt_stuck_only_in_cycles:
  assumes "rt_reaches main s" "rt_stack s = []" "rt_queue s = []" "rt_callbacks s = []" "is_live s c"
  shows "\<exists>p. awaits s c = Some p \<and> registered s p c \<and> is_live s p"
  by (rule rt_stuck_awaits [OF rt_reaches_inv [OF assms(1)] assms(2-5)])

theorem rt_stuck_only_in_cycles_witness:
  "\<exists>p. awaits (fst (rt_steps 1 (rt_start self_main))) 0 = Some p \<and>
      registered (fst (rt_steps 1 (rt_start self_main))) p 0 \<and>
      is_live (fst (rt_steps 1 (rt_start self_main))) p"
proof (rule rt_stuck_only_in_cycles)
  show "rt_reaches self_main (fst (rt_steps 1 (rt_start self_main)))"
    by (rule rt_steps_reaches [OF rt_reaches.start]) code_simp
qed code_simp+

text \<open>
  The rule on destruction is needed. A coroutine destroyed while it awaits a promise it
  does not own stays registered with that promise, since the awaiter's destructor does not call
  \<open>resetHandle()\<close>; the promise later schedules the dangling handle.
\<close>

theorem rt_dangling_handle:
  "snd (rt_steps 10 (rt_start dangling_main)) = Abort ''resume of a destroyed coroutine'' \<and>
   rt_legal_steps 5 (rt_start dangling_main) \<and> \<not> rt_legal (fst (rt_steps 5 (rt_start dangling_main)))"
  by code_simp

end
