(* ===== verification/Bounded_Queue.thy ===== *)
theory Bounded_Queue
  imports Uvco_Prelude
begin

text \<open>
  \<open>BoundedQueue<T>\<close> of \<open>src/uvco/bounded_queue.h\<close>: a FIFO queue on a
  \<open>std::vector\<close> that is filled up to its reserved capacity by \<open>push_back\<close> and then
  reused as a circular buffer. The cursors and the size are 32-bit \<open>unsigned\<close> values and
  are kept as words.

  \<open>bq_list\<close> reads the queued items in order; \<open>bq_inv\<close> is the invariant of the
  representation. The interface that the channel, the UDP socket and the file-system watcher
  rely on is the locale \<open>bounded_fifo\<close>, interpreted at the end on the operations below.
\<close>

section \<open>The class\<close>

record 'a bqueue =
  bq_queue :: "'a list"
  bq_reserved :: nat
  bq_head :: u32
  bq_tail :: u32
  bq_size :: u32

text \<open>
  The constructor reserves \<open>capacity\<close> elements. How much a \<open>std::vector\<close> really
  reserves is up to the standard library, which promises at least that many: \<open>reserve\<close>
  is a parameter.
\<close>

definition BoundedQueue_new :: "(nat \<Rightarrow> nat) \<Rightarrow> nat \<Rightarrow> 'a bqueue" where
  "BoundedQueue_new reserve capacity =
     \<lparr>bq_queue = [], bq_reserved = reserve capacity, bq_head = 0, bq_tail = 0, bq_size = 0\<rparr>"

definition BoundedQueue_size :: "'a bqueue \<Rightarrow> u32" where
  "BoundedQueue_size q = bq_size q"

definition BoundedQueue_capacity :: "'a bqueue \<Rightarrow> u32" where
  "BoundedQueue_capacity q = word_of_nat (bq_reserved q)"

definition BoundedQueue_empty :: "'a bqueue \<Rightarrow> bool" where
  "BoundedQueue_empty q \<longleftrightarrow> BoundedQueue_size q = 0"

definition BoundedQueue_hasSpace :: "'a bqueue \<Rightarrow> bool" where
  "BoundedQueue_hasSpace q \<longleftrightarrow> BoundedQueue_size q < BoundedQueue_capacity q"

definition queue_full :: exn where
  "queue_full = UvcoStatus UV_EBUSY ''queue is full''"

definition queue_is_empty :: exn where
  "queue_is_empty = UvcoStatus UV_EAGAIN ''queue is empty''"

definition out_of_range :: exn where
  "out_of_range = StdException ''vector::_M_range_check''"

text \<open>The last two statements of \<open>put()\<close>: advance the head and count the element.\<close>

definition BoundedQueue_advance_head :: "'a bqueue \<Rightarrow> 'a bqueue" where
  "BoundedQueue_advance_head q =
     q\<lparr>bq_head := (bq_head q + 1) mod BoundedQueue_capacity q, bq_size := bq_size q + 1\<rparr>"

definition BoundedQueue_put :: "'a \<Rightarrow> 'a bqueue \<Rightarrow> 'a bqueue \<times> unit res" where
  "BoundedQueue_put elem q =
     (if \<not> BoundedQueue_hasSpace q then (q, Exn queue_full)
      else if length (bq_queue q) < unat (BoundedQueue_capacity q) then
        (if bq_tail q \<le> bq_head q
         then (BoundedQueue_advance_head (q\<lparr>bq_queue := bq_queue q @ [elem]\<rparr>), Ok ())
         else (q, Abort ''tail_ <= head_''))
      else if unat (bq_head q) < length (bq_queue q)
        then (BoundedQueue_advance_head (q\<lparr>bq_queue := (bq_queue q)[unat (bq_head q) := elem]\<rparr>),
              Ok ())
      else (q, Exn out_of_range))"

text \<open>
  \<open>get()\<close>. \<open>queue_.at(tail_++)\<close> increments the cursor before the range check can
  throw. The slot of the moved-out element keeps its place in the vector.
\<close>

definition BoundedQueue_get :: "'a bqueue \<Rightarrow> 'a bqueue \<times> 'a res" where
  "BoundedQueue_get q =
     (if BoundedQueue_empty q then (q, Exn queue_is_empty)
      else
        let t = bq_tail q; q1 = q\<lparr>bq_tail := t + 1\<rparr>
        in if unat t < length (bq_queue q)
           then (q1\<lparr>bq_tail := bq_tail q1 mod BoundedQueue_capacity q,
                     bq_size := bq_size q - 1\<rparr>, Ok (bq_queue q ! unat t))
           else (q1, Exn out_of_range))"

text \<open>
  \<open>forEach(function)\<close> applies a function that may overwrite the element it is given
  (\<open>T &\<close>) to every queued element, oldest first.
\<close>

fun BoundedQueue_forEach_loop ::
  "('a \<Rightarrow> 'a) \<Rightarrow> nat \<Rightarrow> u32 \<Rightarrow> 'a bqueue \<Rightarrow> 'a bqueue \<times> unit res" where
  "BoundedQueue_forEach_loop f 0 idx q = (q, Ok ())"
| "BoundedQueue_forEach_loop f (Suc n) idx q =
     (if unat idx < length (bq_queue q)
      then BoundedQueue_forEach_loop f n ((idx + 1) mod BoundedQueue_capacity q)
             (q\<lparr>bq_queue := (bq_queue q)[unat idx := f (bq_queue q ! unat idx)]\<rparr>)
      else (q, Exn out_of_range))"

definition BoundedQueue_forEach :: "('a \<Rightarrow> 'a) \<Rightarrow> 'a bqueue \<Rightarrow> 'a bqueue \<times> unit res" where
  "BoundedQueue_forEach f q = BoundedQueue_forEach_loop f (unat (bq_size q)) (bq_tail q) q"

section \<open>Abstraction and invariant\<close>

definition bq_index :: "'a bqueue \<Rightarrow> nat \<Rightarrow> nat" where
  "bq_index q i = (unat (bq_tail q) + i) mod bq_reserved q"

definition bq_list :: "'a bqueue \<Rightarrow> 'a list" where
  "bq_list q = map (\<lambda>i. bq_queue q ! bq_index q i) [0..<unat (bq_size q)]"

definition bq_inv :: "'a bqueue \<Rightarrow> bool" where
  "bq_inv q \<longleftrightarrow>
     bq_reserved q < 2 ^ 32 \<and> length (bq_queue q) \<le> bq_reserved q \<and>
     unat (bq_size q) \<le> length (bq_queue q) \<and>
     (bq_reserved q = 0 \<or>
       unat (bq_tail q) < bq_reserved q \<and>
       unat (bq_head q) = (unat (bq_tail q) + unat (bq_size q)) mod bq_reserved q) \<and>
     (length (bq_queue q) < bq_reserved q \<longrightarrow>
       unat (bq_tail q) + unat (bq_size q) = length (bq_queue q))"

section \<open>A run of queue operations\<close>

text \<open>
  Clients use a queue as a sequence of \<open>put\<close> and \<open>get\<close> calls, some of which fail.
  \<open>fifo_run\<close> records the items that \<open>put\<close> accepted and the items that \<open>get\<close>
  delivered, in order.
\<close>

datatype 'a queue_op = QPut 'a | QGet

fun fifo_run ::
  "('a \<Rightarrow> 'q \<Rightarrow> 'q \<times> unit res) \<Rightarrow> ('q \<Rightarrow> 'q \<times> 'a res) \<Rightarrow>
   'a queue_op list \<Rightarrow> 'q \<Rightarrow> 'q \<times> 'a list \<times> 'a list" where
  "fifo_run put get [] q = (q, [], [])"
| "fifo_run put get (QPut x # ops) q =
     (case put x q of (q1, r) \<Rightarrow>
        (case fifo_run put get ops q1 of (q2, ins, outs) \<Rightarrow>
           (q2, (case r of Ok u \<Rightarrow> [x] | Exn e \<Rightarrow> [] | Abort m \<Rightarrow> []) @ ins, outs)))"
| "fifo_run put get (QGet # ops) q =
     (case get q of (q1, r) \<Rightarrow>
        (case fifo_run put get ops q1 of (q2, ins, outs) \<Rightarrow>
           (q2, ins, (case r of Ok x \<Rightarrow> [x] | Exn e \<Rightarrow> [] | Abort m \<Rightarrow> []) @ outs)))"

section \<open>The interface\<close>

locale bounded_fifo =
  fixes invar :: "'q \<Rightarrow> bool"
    and contents :: "'q \<Rightarrow> 'a list"
    and bound :: "'q \<Rightarrow> nat"
    and put :: "'a \<Rightarrow> 'q \<Rightarrow> 'q \<times> unit res"
    and get :: "'q \<Rightarrow> 'q \<times> 'a res"
  assumes bounded: "invar q \<Longrightarrow> length (contents q) \<le> bound q"
    and put_space: "invar q \<Longrightarrow> length (contents q) < bound q \<Longrightarrow>
      \<exists>q'. put x q = (q', Ok ()) \<and> invar q' \<and> contents q' = contents q @ [x] \<and>
           bound q' = bound q"
    and put_full: "invar q \<Longrightarrow> length (contents q) = bound q \<Longrightarrow> put x q = (q, Exn queue_full)"
    and get_some: "invar q \<Longrightarrow> contents q = x # xs \<Longrightarrow>
      \<exists>q'. get q = (q', Ok x) \<and> invar q' \<and> contents q' = xs \<and> bound q' = bound q"
    and get_none: "invar q \<Longrightarrow> contents q = [] \<Longrightarrow> get q = (q, Exn queue_is_empty)"
begin

lemma put_cases:
  assumes "invar q"
  obtains (accepted) q' where "put x q = (q', Ok ())" "invar q'"
      "contents q' = contents q @ [x]" "bound q' = bound q" "length (contents q) < bound q"
    | (rejected) "put x q = (q, Exn queue_full)" "length (contents q) = bound q"
  using assms bounded [of q] put_space [of q x] put_full [of q x]
  by (metis le_neq_implies_less)

lemma get_cases:
  assumes "invar q"
  obtains (delivered) q' x where "get q = (q', Ok x)" "invar q'" "contents q = x # contents q'"
      "bound q' = bound q"
    | (empty) "get q = (q, Exn queue_is_empty)" "contents q = []"
  using assms get_none [of q] get_some [of q] by (cases "contents q") (metis, metis)

lemma fifo_run_correct:
  assumes "invar q" "fifo_run put get ops q = (q', ins, outs)"
  shows "invar q' \<and> bound q' = bound q \<and> contents q @ ins = outs @ contents q'"
  using assms
proof (induction ops arbitrary: q ins outs)
  case Nil
  then show ?case by simp
next
  case (Cons op ops)
  show ?case
  proof (cases op)
    case (QPut x)
    from \<open>invar q\<close> show ?thesis
    proof (cases rule: put_cases [where x = x])
      case (accepted q1)
      obtain ins1 where run: "fifo_run put get ops q1 = (q', ins1, outs)" and "ins = x # ins1"
        using Cons.prems(2) QPut accepted(1) by (auto split: prod.splits)
      with Cons.IH [OF accepted(2) run] accepted show ?thesis by simp
    next
      case rejected
      with Cons.prems QPut have "fifo_run put get ops q = (q', ins, outs)"
        by (auto split: prod.splits)
      from Cons.IH [OF \<open>invar q\<close> this] show ?thesis .
    qed
  next
    case QGet
    from \<open>invar q\<close> show ?thesis
    proof (cases rule: get_cases)
      case (delivered q1 x)
      obtain outs1 where run: "fifo_run put get ops q1 = (q', ins, outs1)" and "outs = x # outs1"
        using Cons.prems(2) QGet delivered(1) by (auto split: prod.splits)
      with Cons.IH [OF delivered(2) run] delivered show ?thesis by simp
    next
      case empty
      with Cons.prems QGet have "fifo_run put get ops q = (q', ins, outs)"
        by (auto split: prod.splits)
      from Cons.IH [OF \<open>invar q\<close> this] show ?thesis .
    qed
  qed
qed

end

section \<open>The class implements the interface\<close>

lemma unat_capacity: "bq_inv q \<Longrightarrow> unat (BoundedQueue_capacity q) = bq_reserved q"
  by (simp add: bq_inv_def BoundedQueue_capacity_def unat_of_nat_u32)

lemma bq_hasSpace_iff: "bq_inv q \<Longrightarrow> BoundedQueue_hasSpace q \<longleftrightarrow> length (bq_list q) < bq_reserved q"
  by (simp add: BoundedQueue_hasSpace_def BoundedQueue_size_def word_less_nat_alt unat_capacity
      bq_list_def)

lemma bq_empty_iff: "BoundedQueue_empty q \<longleftrightarrow> bq_list q = []"
  by (simp add: BoundedQueue_empty_def BoundedQueue_size_def bq_list_def u32_eq_0_iff)

lemma bq_length_list [simp]: "length (bq_list q) = unat (bq_size q)"
  by (simp add: bq_list_def)

lemma bq_inv_bounded: "bq_inv q \<Longrightarrow> length (bq_list q) \<le> bq_reserved q"
  by (simp add: bq_inv_def)

lemma unat_step_mod:
  fixes w :: u32
  assumes "unat w < c" "c < 2 ^ 32"
  shows "unat ((w + 1) mod word_of_nat c) = (unat w + 1) mod c"
  using assms by (simp add: unat_mod_distrib unat_plus_one_u32 unat_of_nat_u32)

lemma bq_index_less: "bq_inv q \<Longrightarrow> i < unat (bq_size q) \<Longrightarrow> bq_index q i < length (bq_queue q)"
  by (cases "length (bq_queue q) < bq_reserved q")
     (auto simp: bq_inv_def bq_index_def mod_less)

lemma bq_new_inv:
  assumes "reserve capacity < 2 ^ 32"
  shows "bq_inv (BoundedQueue_new reserve capacity)"
    "bq_list (BoundedQueue_new reserve capacity) = []"
    "bq_reserved (BoundedQueue_new reserve capacity) = reserve capacity"
  using assms by (auto simp: BoundedQueue_new_def bq_inv_def bq_list_def)

lemma bq_advance_head:
  assumes "bq_inv q" "unat (bq_size q) < bq_reserved q"
  shows "unat (bq_size (BoundedQueue_advance_head q)) = unat (bq_size q) + 1"
    and "unat (bq_head (BoundedQueue_advance_head q)) =
           (unat (bq_tail q) + (unat (bq_size q) + 1)) mod bq_reserved q"
proof -
  from assms have c: "bq_reserved q < 2 ^ 32" by (simp add: bq_inv_def)
  from assms have h: "unat (bq_head q) = (unat (bq_tail q) + unat (bq_size q)) mod bq_reserved q"
    by (auto simp: bq_inv_def)
  with assms have "unat (bq_head q) < bq_reserved q" by simp
  then have "unat (bq_head (BoundedQueue_advance_head q)) = (unat (bq_head q) + 1) mod bq_reserved q"
    using c by (simp add: BoundedQueue_advance_head_def BoundedQueue_capacity_def unat_step_mod)
  then show "unat (bq_head (BoundedQueue_advance_head q)) =
           (unat (bq_tail q) + (unat (bq_size q) + 1)) mod bq_reserved q"
    by (simp add: h mod_Suc_eq)
  show "unat (bq_size (BoundedQueue_advance_head q)) = unat (bq_size q) + 1"
    using assms(2) c by (simp add: BoundedQueue_advance_head_def unat_plus_one_u32)
qed

lemma bq_advance_head_frame [simp]:
  "bq_queue (BoundedQueue_advance_head q) = bq_queue q"
  "bq_tail (BoundedQueue_advance_head q) = bq_tail q"
  "bq_reserved (BoundedQueue_advance_head q) = bq_reserved q"
  by (simp_all add: BoundedQueue_advance_head_def)

lemma bq_advance_head_queue:
  "BoundedQueue_advance_head (q\<lparr>bq_queue := xs\<rparr>) = (BoundedQueue_advance_head q)\<lparr>bq_queue := xs\<rparr>"
  by (simp add: BoundedQueue_advance_head_def BoundedQueue_capacity_def)

lemma bq_put_growing:
  fixes q :: "'a bqueue" and x :: 'a
  assumes inv: "bq_inv q" and grow: "length (bq_queue q) < bq_reserved q"
  defines "q' \<equiv> BoundedQueue_advance_head (q\<lparr>bq_queue := bq_queue q @ [x]\<rparr>)"
  shows "BoundedQueue_put x q = (q', Ok ()) \<and> bq_inv q' \<and> bq_list q' = bq_list q @ [x]"
proof -
  let ?n = "length (bq_queue q)" and ?c = "bq_reserved q"
  from inv grow have ts: "unat (bq_tail q) + unat (bq_size q) = ?n"
    and h: "unat (bq_head q) = (unat (bq_tail q) + unat (bq_size q)) mod ?c" and c: "?c < 2 ^ 32"
    by (auto simp: bq_inv_def)
  then have "bq_tail q \<le> bq_head q" and size: "unat (bq_size q) < ?c"
    using grow by (auto simp: word_le_nat_alt)
  then have put: "BoundedQueue_put x q = (q', Ok ())"
    using inv grow by (simp add: BoundedQueue_put_def q'_def bq_hasSpace_iff unat_capacity)
  have inv': "bq_inv q'"
    using inv grow ts bq_advance_head [OF inv size]
    by (simp add: q'_def bq_advance_head_queue bq_inv_def)
  have "bq_list q' = bq_list q @ [x]"
    using grow ts bq_advance_head(1) [OF inv size]
    by (simp add: q'_def bq_advance_head_queue bq_list_def bq_index_def nth_append)
  with put inv' show ?thesis by simp
qed

lemma bq_put_wrapped:
  fixes q :: "'a bqueue" and x :: 'a
  assumes inv: "bq_inv q" and full: "length (bq_queue q) = bq_reserved q"
    and size: "unat (bq_size q) < bq_reserved q"
  defines "q' \<equiv> BoundedQueue_advance_head (q\<lparr>bq_queue := (bq_queue q)[unat (bq_head q) := x]\<rparr>)"
  shows "BoundedQueue_put x q = (q', Ok ()) \<and> bq_inv q' \<and> bq_list q' = bq_list q @ [x]"
proof -
  from inv size have h: "unat (bq_head q) = bq_index q (unat (bq_size q))"
    by (auto simp: bq_inv_def bq_index_def)
  moreover from size have hlt: "bq_index q (unat (bq_size q)) < bq_reserved q"
    by (simp add: bq_index_def)
  ultimately have put: "BoundedQueue_put x q = (q', Ok ())"
    using inv full size by (simp add: BoundedQueue_put_def q'_def bq_hasSpace_iff unat_capacity)
  have inv': "bq_inv q'"
    using inv full size bq_advance_head [OF inv size]
    by (auto simp: q'_def bq_advance_head_queue bq_inv_def)
  have other: "(bq_queue q)[bq_index q (unat (bq_size q)) := x] ! bq_index q i = bq_queue q ! bq_index q i"
    if "i < unat (bq_size q)" for i
    using mod_window_neq [OF that size, of "unat (bq_tail q)"]
    by (simp add: bq_index_def nth_list_update_neq)
  have idx: "bq_index q' = bq_index q" and sz: "unat (bq_size q') = Suc (unat (bq_size q))"
    using bq_advance_head(1) [OF inv size]
    by (simp_all add: q'_def bq_advance_head_queue bq_index_def fun_eq_iff)
  have "bq_list q' = bq_list q @ [x]"
    using other hlt full unfolding bq_list_def idx sz
    by (simp add: q'_def h)
  with put inv' show ?thesis by simp
qed

lemma bq_put_reserved [simp]: "bq_reserved (fst (BoundedQueue_put x q)) = bq_reserved q"
  by (simp add: BoundedQueue_put_def)

lemma bq_put_space:
  assumes "bq_inv q" "length (bq_list q) < bq_reserved q"
  shows "\<exists>q'. BoundedQueue_put x q = (q', Ok ()) \<and> bq_inv q' \<and> bq_list q' = bq_list q @ [x] \<and>
              bq_reserved q' = bq_reserved q"
proof (cases "length (bq_queue q) < bq_reserved q")
  case True
  with bq_put_growing [OF assms(1) True, of x] show ?thesis by simp
next
  case False
  with assms have "length (bq_queue q) = bq_reserved q" by (simp add: bq_inv_def)
  with bq_put_wrapped [OF assms(1) this, of x] assms(2) show ?thesis by simp
qed

lemma bq_put_full:
  "bq_inv q \<Longrightarrow> length (bq_list q) = bq_reserved q \<Longrightarrow> BoundedQueue_put x q = (q, Exn queue_full)"
  by (simp add: BoundedQueue_put_def bq_hasSpace_iff)

lemma bq_get_some:
  assumes inv: "bq_inv q" and l: "bq_list q = x # xs"
  shows "\<exists>q'. BoundedQueue_get q = (q', Ok x) \<and> bq_inv q' \<and> bq_list q' = xs \<and>
              bq_reserved q' = bq_reserved q"
proof -
  let ?c = "bq_reserved q" and ?t = "unat (bq_tail q)"
  let ?q = "q\<lparr>bq_tail := (bq_tail q + 1) mod BoundedQueue_capacity q, bq_size := bq_size q - 1\<rparr>"
  from l have pos: "0 < unat (bq_size q)" by (metis bq_length_list length_greater_0_conv list.discI)
  with inv have c: "?t < ?c" "?c < 2 ^ 32" by (auto simp: bq_inv_def)
  with inv pos have t: "?t < length (bq_queue q)"
    using bq_index_less [OF inv pos] by (simp add: bq_index_def)
  have tail: "unat ((bq_tail q + 1) mod BoundedQueue_capacity q) = (?t + 1) mod ?c"
    using c by (simp add: BoundedQueue_capacity_def unat_step_mod)
  have size: "unat (bq_size q - 1) = unat (bq_size q) - 1"
    using pos by (rule unat_minus_one_u32)
  have x: "x = bq_queue q ! ?t" and xs: "xs = map (\<lambda>i. bq_queue q ! bq_index q (Suc i))
      [0..<unat (bq_size q) - 1]"
    using l pos c map_upt_Suc [of "\<lambda>i. bq_queue q ! bq_index q i" "unat (bq_size q) - 1"]
    by (simp_all add: bq_list_def bq_index_def)
  have "BoundedQueue_get q = (?q, Ok x)"
    using pos t x by (simp add: BoundedQueue_get_def BoundedQueue_empty_def BoundedQueue_size_def
        u32_eq_0_iff Let_def)
  moreover have "((?t + 1) mod ?c + (unat (bq_size q) - 1)) mod ?c = (?t + unat (bq_size q)) mod ?c"
    by (subst mod_add_left_eq) (use pos in simp)
  then have "bq_inv ?q"
    using inv c pos t by (auto simp: bq_inv_def tail size)
  moreover have "bq_list ?q = xs"
    using size by (simp add: xs bq_list_def bq_index_def tail mod_simps)
  ultimately show ?thesis by simp
qed

lemma bq_get_none: "bq_list q = [] \<Longrightarrow> BoundedQueue_get q = (q, Exn queue_is_empty)"
  by (simp add: BoundedQueue_get_def bq_empty_iff)

interpretation bq: bounded_fifo bq_inv bq_list bq_reserved BoundedQueue_put BoundedQueue_get
  by unfold_locales
     (simp_all add: bq_inv_bounded bq_put_space bq_put_full bq_get_some bq_get_none
        del: bq_length_list)

text \<open>In-place update of one queued element, and \<open>forEach\<close> as a map over the contents.\<close>

lemma bq_update_nth:
  fixes q :: "'a bqueue" and y :: 'a
  assumes inv: "bq_inv q" and i: "i < unat (bq_size q)"
  defines "q1 \<equiv> q\<lparr>bq_queue := (bq_queue q)[bq_index q i := y]\<rparr>"
  shows "bq_inv q1" "bq_list q1 = (bq_list q)[i := y]"
proof -
  show "bq_inv q1" using inv by (simp add: q1_def bq_inv_def)
  show "bq_list q1 = (bq_list q)[i := y]"
  proof (rule nth_equalityI)
    show "length (bq_list q1) = length ((bq_list q)[i := y])" by (simp add: q1_def)
    fix j assume "j < length (bq_list q1)"
    then have j: "j < unat (bq_size q)" by (simp add: q1_def)
    have small: "unat (bq_size q) \<le> bq_reserved q" using inv by (simp add: bq_inv_def)
    have "bq_index q j = bq_index q i \<Longrightarrow> j = i"
      unfolding bq_index_def using i j small by (auto dest: mod_window_inj)
    then show "bq_list q1 ! j = (bq_list q)[i := y] ! j"
      using i j bq_index_less [OF inv i]
      by (auto simp: q1_def bq_list_def bq_index_def nth_list_update)
  qed
qed

lemma bq_forEach_loop:
  assumes "bq_inv q" "i + n = unat (bq_size q)" "0 < n \<Longrightarrow> unat idx = bq_index q i"
  shows "\<exists>q'. BoundedQueue_forEach_loop f n idx q = (q', Ok ()) \<and> bq_inv q' \<and>
              bq_list q' = take i (bq_list q) @ map f (drop i (bq_list q)) \<and>
              bq_reserved q' = bq_reserved q"
  using assms
proof (induction n arbitrary: i idx q)
  case 0
  then show ?case by simp
next
  case (Suc n)
  let ?y = "f (bq_queue q ! bq_index q i)"
  define q1 where "q1 = q\<lparr>bq_queue := (bq_queue q)[bq_index q i := ?y]\<rparr>"
  let ?idx = "(idx + 1) mod BoundedQueue_capacity q"
  from Suc.prems have i: "i < unat (bq_size q)" and idx: "unat idx = bq_index q i" by auto
  note upd = bq_update_nth [OF Suc.prems(1) i, of ?y, folded q1_def]
  have y: "?y = f (bq_list q ! i)" using i by (simp add: bq_list_def)
  have r: "bq_reserved q \<noteq> 0" "bq_reserved q < 2 ^ 32" "unat idx < bq_reserved q"
    using Suc.prems(1) i bq_index_less [OF Suc.prems(1) i] by (auto simp: bq_inv_def idx)
  then have "unat ?idx = bq_index q1 (Suc i)"
    by (simp add: BoundedQueue_capacity_def unat_step_mod idx bq_index_def q1_def mod_Suc_eq)
  from Suc.IH [OF upd(1) _ this] Suc.prems(2) obtain q' where
    q': "BoundedQueue_forEach_loop f n ?idx q1 = (q', Ok ())" "bq_inv q'"
      "bq_list q' = take (Suc i) (bq_list q1) @ map f (drop (Suc i) (bq_list q1))"
      "bq_reserved q' = bq_reserved q1"
    by (auto simp: q1_def)
  have "BoundedQueue_forEach_loop f (Suc n) idx q = (q', Ok ())"
    using q'(1) bq_index_less [OF Suc.prems(1) i] by (simp add: idx q1_def)
  moreover have "bq_list q' = take i (bq_list q) @ map f (drop i (bq_list q))"
    using i by (simp add: q'(3) upd(2) y take_Suc_conv_app_nth Cons_nth_drop_Suc [symmetric])
  ultimately show ?case using q'(2,4) by (simp add: q1_def)
qed

lemma bq_forEach:
  assumes "bq_inv q"
  shows "\<exists>q'. BoundedQueue_forEach f q = (q', Ok ()) \<and> bq_inv q' \<and>
              bq_list q' = map f (bq_list q) \<and> bq_reserved q' = bq_reserved q"
proof -
  have "0 < unat (bq_size q) \<Longrightarrow> unat (bq_tail q) = bq_index q 0"
    using assms by (auto simp: bq_inv_def bq_index_def)
  with bq_forEach_loop [OF assms, of 0 "unat (bq_size q)" "bq_tail q" f] show ?thesis
    by (simp add: BoundedQueue_forEach_def)
qed

section \<open>The properties of the class\<close>

text \<open>
  C18: Whatever sequence of \<open>put\<close> and \<open>get\<close> calls runs on a new queue, the items
  that were accepted are the items that were delivered, in the same order, followed by the items
  still queued; the queue never holds more than its capacity, although the cursors wrap around.
\<close>

theorem bq_fifo:
  assumes "reserve capacity < 2 ^ 32"
    and "fifo_run BoundedQueue_put BoundedQueue_get ops (BoundedQueue_new reserve capacity) = (q, ins, outs)"
  shows "ins = outs @ bq_list (q :: 'a bqueue) \<and> length (bq_list q) \<le> reserve capacity \<and> bq_inv q"
proof -
  let ?q = "BoundedQueue_new reserve capacity :: 'a bqueue"
  have new: "bq_inv ?q" "bq_list ?q = []" "bq_reserved ?q = reserve capacity"
    using assms(1) by (rule bq_new_inv)+
  from bq.fifo_run_correct [OF new(1) assms(2)] new bq_inv_bounded [of q] show ?thesis by simp
qed

theorem bq_fifo_witness:
  "(let (q, ins, outs) = fifo_run BoundedQueue_put BoundedQueue_get
        [QPut 1, QPut 2, QPut 3, QGet, QPut 4, QGet] (BoundedQueue_new (\<lambda>n. n) 2)
    in ins = outs @ bq_list q \<and> ins = [1, 2, 4::nat] \<and> outs = [1, 2])"
proof -
  let ?r = "fifo_run BoundedQueue_put BoundedQueue_get
      [QPut 1, QPut 2, QPut 3, QGet, QPut 4, QGet] (BoundedQueue_new (\<lambda>n. n) 2) :: _ \<times> nat list \<times> _"
  have "snd ?r = ([1, 2, 4], [1, 2])" by code_simp
  then have r: "?r = (fst ?r, [1, 2, 4], [1, 2])" by (metis surjective_pairing)
  from bq_fifo [OF _ r] show ?thesis by (subst r) simp
qed

text \<open>
  C19: \<open>put\<close> and \<open>get\<close> on every branch. With space, \<open>put\<close> appends the
  element; without, it throws \<open>UV_EBUSY\<close> and changes nothing. \<open>get\<close> removes the
  oldest element, or throws \<open>UV_EAGAIN\<close>. Neither the range check of the vector nor the
  assertion on the cursors ever fails.
\<close>

theorem bq_put_get:
  assumes "bq_inv q"
  shows "(if length (bq_list q) < bq_reserved q
          then \<exists>q'. BoundedQueue_put x q = (q', Ok ()) \<and> bq_inv q' \<and> bq_list q' = bq_list q @ [x]
          else BoundedQueue_put x q = (q, Exn queue_full)) \<and>
         (case bq_list q of
            [] \<Rightarrow> BoundedQueue_get q = (q, Exn queue_is_empty)
          | y # ys \<Rightarrow> \<exists>q'. BoundedQueue_get q = (q', Ok y) \<and> bq_inv q' \<and> bq_list q' = ys)"
  using bq_put_space [OF assms, of x] bq_put_full [OF assms, of x] bq_inv_bounded [OF assms]
    bq_get_none [of q] bq_get_some [OF assms]
  by (cases "bq_list q") (auto simp del: bq_length_list)

theorem bq_put_get_witness:
  "\<exists>q'. BoundedQueue_put (CHR ''c'')
      \<lparr>bq_queue = ''xb'', bq_reserved = 2, bq_head = 0, bq_tail = 1, bq_size = 1\<rparr> = (q', Ok ()) \<and>
    bq_inv q' \<and> bq_list q' = ''bc''"
proof -
  let ?q = "\<lparr>bq_queue = ''xb'', bq_reserved = 2, bq_head = 0, bq_tail = 1, bq_size = 1\<rparr> :: char bqueue"
  have "bq_inv ?q" "bq_list ?q = ''b''" by (simp_all add: bq_inv_def bq_list_def bq_index_def)
  with bq_put_get [of ?q "CHR ''c''"] show ?thesis by auto
qed



end
