(* ===== verification/Channel.thy ===== *)
theory Channel
  imports Bounded_Queue Event_Loop
begin

text \<open>
  \<open>Channel<T>\<close> of \<open>src/uvco/channel.h\<close>: a bounded channel between coroutines, built
  from three bounded queues (the items, the waiting readers, the waiting writers).

  \<open>put\<close>, \<open>get\<close> and \<open>getAll\<close> are coroutines. Each is modelled by its part before the
  \<open>co_await\<close> and its part after it; a part ends with a result or at the suspension point.
  The second half lets any number of coroutines use one channel on one event loop, with
  cancellation, and states when that is safe.
\<close>

section \<open>The channel\<close>

record 'v channel =
  ch_queue :: "'v bqueue"
  ch_read_waiting :: "handle bqueue"
  ch_write_waiting :: "handle bqueue"

datatype 'r progress = Suspends | Returns 'r

definition Channel_new :: "(nat \<Rightarrow> nat) \<Rightarrow> nat \<Rightarrow> nat \<Rightarrow> 'v channel" where
  "Channel_new reserve capacity max_waiters =
     \<lparr>ch_queue = BoundedQueue_new reserve capacity,
      ch_read_waiting = BoundedQueue_new reserve max_waiters,
      ch_write_waiting = BoundedQueue_new reserve max_waiters\<rparr>"

text \<open>\<open>ChannelAwaiter_\<close>: the awaiter that registers a handle with one of the waiter queues.\<close>

definition too_many_waiting :: exn where
  "too_many_waiting =
     UvcoStatus UV_EBUSY ''too many coroutines waiting for reading/writing a channel''"

definition ChannelAwaiter_await_suspend :: "handle \<Rightarrow> handle bqueue \<Rightarrow> handle bqueue \<times> unit res" where
  "ChannelAwaiter_await_suspend h waiters =
     (if \<not> BoundedQueue_hasSpace waiters then (waiters, Exn too_many_waiting)
      else BoundedQueue_put h waiters)"

definition ChannelAwaiter_await_resume :: "'v bqueue \<Rightarrow> bool" where
  "ChannelAwaiter_await_resume q \<longleftrightarrow> \<not> BoundedQueue_empty q"

definition ChannelAwaiter_destroy :: "handle \<Rightarrow> handle bqueue \<Rightarrow> handle bqueue \<times> unit res" where
  "ChannelAwaiter_destroy thisCoro waiters =
     BoundedQueue_forEach (\<lambda>h. if h = thisCoro then None else h) waiters"

text \<open>The loop of \<open>awake_reader()\<close> and \<open>awake_writer()\<close>: cancelled waiters are skipped.\<close>

function Channel_awake :: "handle bqueue \<Rightarrow> loop \<Rightarrow> (handle bqueue \<times> loop) \<times> unit res" where
  "Channel_awake waiters l =
     (if BoundedQueue_empty waiters then ((waiters, l), Ok ())
      else (case BoundedQueue_get waiters of
              (w, Ok h) \<Rightarrow>
                (if h \<noteq> None then ((w, Loop_enqueue h l), Ok ()) else Channel_awake w l)
            | (w, Exn e) \<Rightarrow> ((w, l), Exn e)
            | (w, Abort m) \<Rightarrow> ((w, l), Abort m)))"
  by pat_completeness auto

termination Channel_awake
proof (relation "measure (\<lambda>(w, l). unat (bq_size w))")
  fix waiters w :: "handle bqueue" and l :: loop and a r h
  assume "\<not> BoundedQueue_empty waiters" "(w, r) = BoundedQueue_get waiters" "r = Ok h"
  then have "bq_size waiters \<noteq> 0" "bq_size w = bq_size waiters - 1"
    by (auto simp: BoundedQueue_get_def BoundedQueue_empty_def BoundedQueue_size_def Let_def
        split: if_splits)
  then show "((w, l), (waiters, l)) \<in> measure (\<lambda>(w, l). unat (bq_size w))"
    by (simp add: unat_minus_one_u32 u32_eq_0_iff)
qed simp

definition Channel_awake_reader :: "'v channel \<times> loop \<Rightarrow> ('v channel \<times> loop) \<times> unit res" where
  "Channel_awake_reader cl = (case cl of (ch, l) \<Rightarrow>
     (case Channel_awake (ch_read_waiting ch) l of ((w, l1), r) \<Rightarrow>
        ((ch\<lparr>ch_read_waiting := w\<rparr>, l1), r)))"

definition Channel_awake_writer :: "'v channel \<times> loop \<Rightarrow> ('v channel \<times> loop) \<times> unit res" where
  "Channel_awake_writer cl = (case cl of (ch, l) \<Rightarrow>
     (case Channel_awake (ch_write_waiting ch) l of ((w, l1), r) \<Rightarrow>
        ((ch\<lparr>ch_write_waiting := w\<rparr>, l1), r)))"

text \<open>
  \<open>put(value)\<close>: the statements after the \<open>if\<close>, the part up to the suspension, and the part
  that runs when the writer is resumed (the awaiter is destroyed at the end of the block).
\<close>

definition Channel_put_end :: "'v \<Rightarrow> 'v channel \<times> loop \<Rightarrow> ('v channel \<times> loop) \<times> unit progress res" where
  "Channel_put_end v cl = (case cl of (ch, l) \<Rightarrow>
     (case BoundedQueue_put v (ch_queue ch) of (q, r) \<Rightarrow>
        rbind ((ch\<lparr>ch_queue := q\<rparr>, l), r) (\<lambda>s u.
          rbind (Channel_awake_reader s) (\<lambda>s u. (s, Ok (Returns ()))))))"

definition Channel_put ::
  "handle \<Rightarrow> 'v \<Rightarrow> 'v channel \<times> loop \<Rightarrow> ('v channel \<times> loop) \<times> unit progress res" where
  "Channel_put self v cl = (case cl of (ch, l) \<Rightarrow>
     (if \<not> BoundedQueue_hasSpace (ch_queue ch) then
        (case ChannelAwaiter_await_suspend self (ch_write_waiting ch) of
           (w, Ok u) \<Rightarrow> ((ch\<lparr>ch_write_waiting := w\<rparr>, l), Ok Suspends)
         | (w, Exn e) \<Rightarrow>
             (case ChannelAwaiter_destroy None w of (w1, r) \<Rightarrow>
                rbind ((ch\<lparr>ch_write_waiting := w1\<rparr>, l), r) (\<lambda>s u. (s, Exn e)))
         | (w, Abort m) \<Rightarrow> ((ch\<lparr>ch_write_waiting := w\<rparr>, l), Abort m))
      else Channel_put_end v (ch, l)))"

definition Channel_put_resume ::
  "handle \<Rightarrow> 'v \<Rightarrow> 'v channel \<times> loop \<Rightarrow> ('v channel \<times> loop) \<times> unit progress res" where
  "Channel_put_resume self v cl = (case cl of (ch, l) \<Rightarrow>
     (if \<not> BoundedQueue_hasSpace (ch_queue ch) then ((ch, l), Abort ''queue_.hasSpace()'')
      else (case ChannelAwaiter_destroy self (ch_write_waiting ch) of (w, r) \<Rightarrow>
              rbind ((ch\<lparr>ch_write_waiting := w\<rparr>, l), r) (\<lambda>s u. Channel_put_end v s))))"

text \<open>\<open>get()\<close>.\<close>

definition Channel_get_end :: "'v channel \<times> loop \<Rightarrow> ('v channel \<times> loop) \<times> 'v progress res" where
  "Channel_get_end cl = (case cl of (ch, l) \<Rightarrow>
     (case BoundedQueue_get (ch_queue ch) of (q, r) \<Rightarrow>
        rbind ((ch\<lparr>ch_queue := q\<rparr>, l), r) (\<lambda>s item.
          rbind (Channel_awake_writer s) (\<lambda>s u. (s, Ok (Returns item))))))"

definition Channel_get ::
  "handle \<Rightarrow> 'v channel \<times> loop \<Rightarrow> ('v channel \<times> loop) \<times> 'v progress res" where
  "Channel_get self cl = (case cl of (ch, l) \<Rightarrow>
     (if BoundedQueue_empty (ch_queue ch) then
        (case ChannelAwaiter_await_suspend self (ch_read_waiting ch) of
           (w, Ok u) \<Rightarrow> ((ch\<lparr>ch_read_waiting := w\<rparr>, l), Ok Suspends)
         | (w, Exn e) \<Rightarrow>
             (case ChannelAwaiter_destroy None w of (w1, r) \<Rightarrow>
                rbind ((ch\<lparr>ch_read_waiting := w1\<rparr>, l), r) (\<lambda>s u. (s, Exn e)))
         | (w, Abort m) \<Rightarrow> ((ch\<lparr>ch_read_waiting := w\<rparr>, l), Abort m))
      else Channel_get_end (ch, l)))"

definition Channel_get_resume ::
  "handle \<Rightarrow> 'v channel \<times> loop \<Rightarrow> ('v channel \<times> loop) \<times> 'v progress res" where
  "Channel_get_resume self cl = (case cl of (ch, l) \<Rightarrow>
     (if \<not> ChannelAwaiter_await_resume (ch_queue ch) then ((ch, l), Abort ''co_await awaiter'')
      else (case ChannelAwaiter_destroy self (ch_read_waiting ch) of (w, r) \<Rightarrow>
              rbind ((ch\<lparr>ch_read_waiting := w\<rparr>, l), r) (\<lambda>s u. Channel_get_end s))))"

text \<open>
  \<open>getAll()\<close>: one round of its loop, up to the suspension in the channel or to the \<open>co_yield\<close>, whose
  item is the result; the generator begins the next round when its consumer asks for it. The
  awaiter registers the coroutine, and after the suspension it is destroyed with its block.
\<close>

definition Channel_getAll_item :: "'v channel \<times> loop \<Rightarrow> ('v channel \<times> loop) \<times> 'v progress res" where
  "Channel_getAll_item cl =
     (case BoundedQueue_get (ch_queue (fst cl)) of
        (q, Ok item) \<Rightarrow>
          (case Channel_awake_writer ((fst cl)\<lparr>ch_queue := q\<rparr>, snd cl) of
             (s, Ok u) \<Rightarrow> (s, Ok (Returns item)) | (s, Exn e) \<Rightarrow> (s, Exn e) | (s, Abort m) \<Rightarrow> (s, Abort m))
      | (q, Exn e) \<Rightarrow> (((fst cl)\<lparr>ch_queue := q\<rparr>, snd cl), Exn e)
      | (q, Abort m) \<Rightarrow> (((fst cl)\<lparr>ch_queue := q\<rparr>, snd cl), Abort m))"

definition Channel_getAll :: "handle \<Rightarrow> 'v channel \<times> loop \<Rightarrow> ('v channel \<times> loop) \<times> 'v progress res" where
  "Channel_getAll self cl =
     (if BoundedQueue_empty (ch_queue (fst cl)) then
        (case ChannelAwaiter_await_suspend self (ch_read_waiting (fst cl)) of
           (w, Ok u) \<Rightarrow> (((fst cl)\<lparr>ch_read_waiting := w\<rparr>, snd cl), Ok Suspends)
         | (w, Exn e) \<Rightarrow>
             (case ChannelAwaiter_destroy None w of
                (w1, Ok u) \<Rightarrow> (((fst cl)\<lparr>ch_read_waiting := w1\<rparr>, snd cl), Exn e)
              | (w1, Exn x) \<Rightarrow> (((fst cl)\<lparr>ch_read_waiting := w1\<rparr>, snd cl), Exn x)
              | (w1, Abort m) \<Rightarrow> (((fst cl)\<lparr>ch_read_waiting := w1\<rparr>, snd cl), Abort m))
         | (w, Abort m) \<Rightarrow> (((fst cl)\<lparr>ch_read_waiting := w\<rparr>, snd cl), Abort m))
      else Channel_getAll_item cl)"

definition Channel_getAll_resume :: "handle \<Rightarrow> 'v channel \<times> loop \<Rightarrow> ('v channel \<times> loop) \<times> 'v progress res" where
  "Channel_getAll_resume self cl =
     (if \<not> ChannelAwaiter_await_resume (ch_queue (fst cl)) then (cl, Abort ''co_await awaiter'')
      else (case ChannelAwaiter_destroy self (ch_read_waiting (fst cl)) of
              (w, Ok u) \<Rightarrow> Channel_getAll_item ((fst cl)\<lparr>ch_read_waiting := w\<rparr>, snd cl)
            | (w, Exn e) \<Rightarrow> (((fst cl)\<lparr>ch_read_waiting := w\<rparr>, snd cl), Exn e)
            | (w, Abort m) \<Rightarrow> (((fst cl)\<lparr>ch_read_waiting := w\<rparr>, snd cl), Abort m)))"

text \<open>
  A round of \<open>getAll()\<close> is a \<open>get()\<close> of the generator's coroutine, so that everything below holds of
  generators that read the channel as well.
\<close>

lemma getAll_rounds:
  "Channel_getAll self cl = Channel_get self cl" "Channel_getAll_resume self cl = Channel_get_resume self cl"
proof -
  have item: "Channel_getAll_item cl = Channel_get_end cl" for cl :: "'v channel \<times> loop"
    by (auto simp: Channel_getAll_item_def Channel_get_end_def rbind_def split: prod.splits res.splits)
  show "Channel_getAll self cl = Channel_get self cl" "Channel_getAll_resume self cl = Channel_get_resume self cl"
    by (auto simp: Channel_getAll_def Channel_get_def Channel_getAll_resume_def Channel_get_resume_def item rbind_def
        split: prod.splits res.splits)
qed

section \<open>Coroutines on a channel\<close>

text \<open>
  \<open>cs_blocked\<close> says which coroutines are suspended in the channel and in which call. The two
  lists record the items put and the items taken, in order.
\<close>

datatype 'v chop = ChPut 'v | ChGet

record 'v chsys =
  cs_ch :: "'v channel"
  cs_loop :: loop
  cs_blocked :: "coro \<Rightarrow> 'v chop option"
  cs_put :: "'v list"
  cs_got :: "'v list"

text \<open>A call that returned leaves its trace; one that suspended blocks its coroutine.\<close>

definition cs_after_put ::
  "coro \<Rightarrow> 'v \<Rightarrow> 'v chsys \<Rightarrow> ('v channel \<times> loop) \<times> unit progress res \<Rightarrow> 'v chsys \<times> unit res" where
  "cs_after_put c v s r = (case r of ((ch, l), p) \<Rightarrow>
     (case p of
        Ok Suspends \<Rightarrow>
          (s\<lparr>cs_ch := ch, cs_loop := l, cs_blocked := (cs_blocked s)(c \<mapsto> ChPut v)\<rparr>, Ok ())
      | Ok (Returns u) \<Rightarrow>
          (s\<lparr>cs_ch := ch, cs_loop := l, cs_blocked := (cs_blocked s)(c := None),
             cs_put := cs_put s @ [v]\<rparr>, Ok ())
      | Exn e \<Rightarrow> (s\<lparr>cs_ch := ch, cs_loop := l, cs_blocked := (cs_blocked s)(c := None)\<rparr>, Ok ())
      | Abort m \<Rightarrow> (s, Abort m)))"

definition cs_after_get ::
  "coro \<Rightarrow> 'v chsys \<Rightarrow> ('v channel \<times> loop) \<times> 'v progress res \<Rightarrow> 'v chsys \<times> unit res" where
  "cs_after_get c s r = (case r of ((ch, l), p) \<Rightarrow>
     (case p of
        Ok Suspends \<Rightarrow>
          (s\<lparr>cs_ch := ch, cs_loop := l, cs_blocked := (cs_blocked s)(c \<mapsto> ChGet)\<rparr>, Ok ())
      | Ok (Returns v) \<Rightarrow>
          (s\<lparr>cs_ch := ch, cs_loop := l, cs_blocked := (cs_blocked s)(c := None),
             cs_got := cs_got s @ [v]\<rparr>, Ok ())
      | Exn e \<Rightarrow> (s\<lparr>cs_ch := ch, cs_loop := l, cs_blocked := (cs_blocked s)(c := None)\<rparr>, Ok ())
      | Abort m \<Rightarrow> (s, Abort m)))"

text \<open>
  A coroutine calls the channel, the event loop resumes the next coroutine, or a suspended
  coroutine is destroyed: then \<open>destroyCoroutine()\<close> takes it off the event loop and the
  destructor of its awaiter takes it off the waiter queue.
\<close>

datatype 'v chaction = ChCall coro "'v chop" | ChTurn | ChCancel coro

definition cs_call :: "coro \<Rightarrow> 'v chop \<Rightarrow> 'v chsys \<Rightarrow> 'v chsys \<times> unit res" where
  "cs_call c op s = (case op of
     ChPut v \<Rightarrow> cs_after_put c v s (Channel_put (Some c) v (cs_ch s, cs_loop s))
   | ChGet \<Rightarrow> cs_after_get c s (Channel_get (Some c) (cs_ch s, cs_loop s)))"

definition cs_resume :: "coro \<Rightarrow> 'v chop \<Rightarrow> 'v chsys \<Rightarrow> 'v chsys \<times> unit res" where
  "cs_resume c op s = (case op of
     ChPut v \<Rightarrow> cs_after_put c v s (Channel_put_resume (Some c) v (cs_ch s, cs_loop s))
   | ChGet \<Rightarrow> cs_after_get c s (Channel_get_resume (Some c) (cs_ch s, cs_loop s)))"

definition cs_turn :: "'v chsys \<Rightarrow> 'v chsys \<times> unit res" where
  "cs_turn s = (case Loop_getNext (\<lambda>c. False) (cs_loop s) of (l, t) \<Rightarrow>
     (case t of
        noop_coroutine \<Rightarrow> (s\<lparr>cs_loop := l\<rparr>, Ok ())
      | Coro c \<Rightarrow> (case cs_blocked s c of
          None \<Rightarrow> (s, Abort ''resume of a coroutine that is not suspended'')
        | Some op \<Rightarrow> cs_resume c op (s\<lparr>cs_loop := l\<rparr>))))"

definition cs_cancel :: "coro \<Rightarrow> 'v chop \<Rightarrow> 'v chsys \<Rightarrow> 'v chsys \<times> unit res" where
  "cs_cancel c op s =
     (let s1 = s\<lparr>cs_loop := Loop_cancel c (cs_loop s), cs_blocked := (cs_blocked s)(c := None)\<rparr>
      in case op of
           ChPut v \<Rightarrow> (case ChannelAwaiter_destroy (Some c) (ch_write_waiting (cs_ch s)) of (w, r) \<Rightarrow>
             (s1\<lparr>cs_ch := (cs_ch s)\<lparr>ch_write_waiting := w\<rparr>\<rparr>, r))
         | ChGet \<Rightarrow> (case ChannelAwaiter_destroy (Some c) (ch_read_waiting (cs_ch s)) of (w, r) \<Rightarrow>
             (s1\<lparr>cs_ch := (cs_ch s)\<lparr>ch_read_waiting := w\<rparr>\<rparr>, r)))"

definition cs_step :: "'v chaction \<Rightarrow> 'v chsys \<Rightarrow> 'v chsys \<times> unit res" where
  "cs_step a s = (case a of
     ChCall c op \<Rightarrow> (if cs_blocked s c = None then cs_call c op s else (s, Ok ()))
   | ChTurn \<Rightarrow> cs_turn s
   | ChCancel c \<Rightarrow> (case cs_blocked s c of None \<Rightarrow> (s, Ok ()) | Some op \<Rightarrow> cs_cancel c op s))"

fun cs_run :: "'v chaction list \<Rightarrow> 'v chsys \<Rightarrow> 'v chsys \<times> unit res" where
  "cs_run [] s = (s, Ok ())"
| "cs_run (a # as) s = rbind (cs_step a s) (\<lambda>s1 u. cs_run as s1)"

definition cs_start :: "(nat \<Rightarrow> nat) \<Rightarrow> nat \<Rightarrow> nat \<Rightarrow> 'v chsys" where
  "cs_start reserve capacity max_waiters =
     \<lparr>cs_ch = Channel_new reserve capacity max_waiters, cs_loop = Loop_init,
      cs_blocked = (\<lambda>c. None), cs_put = [], cs_got = []\<rparr>"

section \<open>The rule for callers\<close>

text \<open>
  The woken coroutines: scheduled, but not resumed yet. A caller must not take the item or the
  space that a woken coroutine was promised. With one reading and one writing coroutine this
  holds of itself.
\<close>

definition cs_woken :: "'v chsys \<Rightarrow> coro list" where
  "cs_woken s = loop_pending (\<lambda>c. False) (cs_loop s)"

fun is_put :: "'v chop option \<Rightarrow> bool" where
  "is_put (Some (ChPut v)) = True"
| "is_put _ = False"

definition woken_readers :: "'v chsys \<Rightarrow> nat" where
  "woken_readers s = length (filter (\<lambda>c. cs_blocked s c = Some ChGet) (cs_woken s))"

definition woken_writers :: "'v chsys \<Rightarrow> nat" where
  "woken_writers s = length (filter (\<lambda>c. is_put (cs_blocked s c)) (cs_woken s))"

definition cs_size :: "'v chsys \<Rightarrow> nat" where
  "cs_size s = length (bq_list (ch_queue (cs_ch s)))"

definition cs_space :: "'v chsys \<Rightarrow> nat" where
  "cs_space s = bq_reserved (ch_queue (cs_ch s)) - cs_size s"

definition polite :: "'v chaction \<Rightarrow> 'v chsys \<Rightarrow> bool" where
  "polite a s = (case a of
     ChCall c (ChPut v) \<Rightarrow> cs_blocked s c \<noteq> None \<or> cs_space s = 0 \<or> woken_writers s < cs_space s
   | ChCall c ChGet \<Rightarrow> cs_blocked s c \<noteq> None \<or> cs_size s = 0 \<or> woken_readers s < cs_size s
   | ChTurn \<Rightarrow> True
   | ChCancel c \<Rightarrow> True)"

fun polite_run :: "'v chaction list \<Rightarrow> 'v chsys \<Rightarrow> bool" where
  "polite_run [] s = True"
| "polite_run (a # as) s = (polite a s \<and> polite_run as (fst (cs_step a s)))"

definition keeps_woken :: "'v chaction \<Rightarrow> 'v chsys \<Rightarrow> bool" where
  "keeps_woken a s = (case a of ChCancel c \<Rightarrow> c \<notin> set (cs_woken s) | _ \<Rightarrow> True)"

fun keeping_run :: "'v chaction list \<Rightarrow> 'v chsys \<Rightarrow> bool" where
  "keeping_run [] s = True"
| "keeping_run (a # as) s = (keeps_woken a s \<and> keeping_run as (fst (cs_step a s)))"

text \<open>One coroutine writes, another one reads.\<close>

definition one_writer_one_reader :: "coro \<Rightarrow> coro \<Rightarrow> 'v chaction \<Rightarrow> bool" where
  "one_writer_one_reader w r a = (case a of
     ChCall c (ChPut v) \<Rightarrow> c = w | ChCall c ChGet \<Rightarrow> c = r | ChTurn \<Rightarrow> True | ChCancel c \<Rightarrow> True)"

section \<open>The abstract channel\<close>

text \<open>
  What a channel stands for: the items, the waiting readers and writers without the cancelled
  ones, and the woken coroutines.
\<close>

record 'v aview =
  av_items :: "'v list"
  av_cap :: nat
  av_readers :: "coro list"
  av_writers :: "coro list"
  av_woken :: "coro list"
  av_blocked :: "coro \<Rightarrow> 'v chop option"
  av_put :: "'v list"
  av_got :: "'v list"

definition live_waiters :: "handle bqueue \<Rightarrow> coro list" where
  "live_waiters w = List.map_filter (\<lambda>h. h) (bq_list w)"

definition view :: "'v chsys \<Rightarrow> 'v aview" where
  "view s = \<lparr>av_items = bq_list (ch_queue (cs_ch s)), av_cap = bq_reserved (ch_queue (cs_ch s)),
     av_readers = live_waiters (ch_read_waiting (cs_ch s)),
     av_writers = live_waiters (ch_write_waiting (cs_ch s)),
     av_woken = cs_woken s, av_blocked = cs_blocked s, av_put = cs_put s, av_got = cs_got s\<rparr>"

definition a_put_end :: "'v \<Rightarrow> 'v aview \<Rightarrow> 'v aview" where
  "a_put_end v a = a\<lparr>av_items := av_items a @ [v], av_readers := tl (av_readers a),
     av_woken := av_woken a @ take 1 (av_readers a), av_put := av_put a @ [v]\<rparr>"

definition a_get_end :: "'v aview \<Rightarrow> 'v aview" where
  "a_get_end a = a\<lparr>av_items := tl (av_items a), av_writers := tl (av_writers a),
     av_woken := av_woken a @ take 1 (av_writers a), av_got := av_got a @ [hd (av_items a)]\<rparr>"

definition a_unblock :: "coro \<Rightarrow> 'v aview \<Rightarrow> 'v aview" where
  "a_unblock c a = a\<lparr>av_woken := filter (\<lambda>d. d \<noteq> c) (av_woken a), av_blocked := (av_blocked a)(c := None),
     av_readers := filter (\<lambda>d. d \<noteq> c) (av_readers a), av_writers := filter (\<lambda>d. d \<noteq> c) (av_writers a)\<rparr>"

inductive a_step :: "'v chaction \<Rightarrow> 'v aview \<Rightarrow> 'v aview \<Rightarrow> bool" where
  same: "a_step act a a"
| put_now: "av_blocked a c = None \<Longrightarrow> length (av_items a) < av_cap a \<Longrightarrow>
    a_step (ChCall c (ChPut v)) a (a_put_end v a)"
| put_wait: "av_blocked a c = None \<Longrightarrow> length (av_items a) = av_cap a \<Longrightarrow>
    a_step (ChCall c (ChPut v)) a
      (a\<lparr>av_writers := av_writers a @ [c], av_blocked := (av_blocked a)(c \<mapsto> ChPut v)\<rparr>)"
| get_now: "av_blocked a c = None \<Longrightarrow> av_items a \<noteq> [] \<Longrightarrow> a_step (ChCall c ChGet) a (a_get_end a)"
| get_wait: "av_blocked a c = None \<Longrightarrow> av_items a = [] \<Longrightarrow>
    a_step (ChCall c ChGet) a
      (a\<lparr>av_readers := av_readers a @ [c], av_blocked := (av_blocked a)(c \<mapsto> ChGet)\<rparr>)"
| put_resumed: "av_woken a = c # w \<Longrightarrow> av_blocked a c = Some (ChPut v) \<Longrightarrow>
    length (av_items a) < av_cap a \<Longrightarrow> a_step ChTurn a (a_put_end v (a_unblock c a))"
| get_resumed: "av_woken a = c # w \<Longrightarrow> av_blocked a c = Some ChGet \<Longrightarrow> av_items a \<noteq> [] \<Longrightarrow>
    a_step ChTurn a (a_get_end (a_unblock c a))"
| cancelled: "av_blocked a c \<noteq> None \<Longrightarrow> a_step (ChCancel c) a (a_unblock c a)"

text \<open>Where the channel's \<open>BOOST_VERIFY\<close> fails.\<close>

definition a_violated :: "'v aview \<Rightarrow> bool" where
  "a_violated a = (case av_woken a of
     [] \<Rightarrow> False
   | c # w \<Rightarrow> (case av_blocked a c of
       None \<Rightarrow> True | Some (ChPut v) \<Rightarrow> length (av_items a) = av_cap a | Some ChGet \<Rightarrow> av_items a = []))"

definition a_inv :: "'v aview \<Rightarrow> bool" where
  "a_inv a \<longleftrightarrow> distinct (av_woken a @ av_readers a @ av_writers a) \<and>
     list_all (\<lambda>c. av_blocked a c = Some ChGet) (av_readers a) \<and>
     list_all (\<lambda>c. is_put (av_blocked a c)) (av_writers a) \<and>
     list_all (\<lambda>c. av_blocked a c \<noteq> None) (av_woken a) \<and>
     (\<forall>c. av_blocked a c \<noteq> None \<longrightarrow> c \<in> set (av_woken a @ av_readers a @ av_writers a)) \<and>
     av_put a = av_got a @ av_items a \<and> length (av_items a) \<le> av_cap a"

definition a_woken_readers :: "'v aview \<Rightarrow> nat" where
  "a_woken_readers a = length (filter (\<lambda>c. av_blocked a c = Some ChGet) (av_woken a))"

definition a_woken_writers :: "'v aview \<Rightarrow> nat" where
  "a_woken_writers a = length (filter (\<lambda>c. is_put (av_blocked a c)) (av_woken a))"

definition a_polite :: "'v chaction \<Rightarrow> 'v aview \<Rightarrow> bool" where
  "a_polite act a = (case act of
     ChCall c (ChPut v) \<Rightarrow> av_blocked a c \<noteq> None \<or> av_cap a \<le> length (av_items a) \<or>
       a_woken_writers a < av_cap a - length (av_items a)
   | ChCall c ChGet \<Rightarrow> av_blocked a c \<noteq> None \<or> av_items a = [] \<or> a_woken_readers a < length (av_items a)
   | ChTurn \<Rightarrow> True
   | ChCancel c \<Rightarrow> True)"

definition a_safe :: "'v aview \<Rightarrow> bool" where
  "a_safe a \<longleftrightarrow> a_woken_readers a \<le> length (av_items a) \<and> a_woken_writers a \<le> av_cap a - length (av_items a)"

definition a_live :: "'v aview \<Rightarrow> bool" where
  "a_live a \<longleftrightarrow> (av_readers a \<noteq> [] \<longrightarrow> length (av_items a) \<le> a_woken_readers a) \<and>
     (av_writers a \<noteq> [] \<longrightarrow> av_cap a - length (av_items a) \<le> a_woken_writers a)"

definition a_keeps_woken :: "'v chaction \<Rightarrow> 'v aview \<Rightarrow> bool" where
  "a_keeps_woken act a = (case act of ChCancel c \<Rightarrow> c \<notin> set (av_woken a) | _ \<Rightarrow> True)"

definition bqs_inv :: "'v chsys \<Rightarrow> bool" where
  "bqs_inv s \<longleftrightarrow> bq_inv (ch_queue (cs_ch s)) \<and> bq_inv (ch_read_waiting (cs_ch s)) \<and>
     bq_inv (ch_write_waiting (cs_ch s))"

definition blocked_roles :: "coro \<Rightarrow> coro \<Rightarrow> 'v aview \<Rightarrow> bool" where
  "blocked_roles w r a \<longleftrightarrow> (\<forall>c. (is_put (av_blocked a c) \<longrightarrow> c = w) \<and> (av_blocked a c = Some ChGet \<longrightarrow> c = r))"

section \<open>Invariants of the abstract channel\<close>

lemma a_put_end_inv:
  "a_inv a \<Longrightarrow> length (av_items a) < av_cap a \<Longrightarrow> a_inv (a_put_end v a)"
  by (cases "av_readers a") (auto simp: a_inv_def a_put_end_def list_all_iff)

lemma a_get_end_inv: "a_inv a \<Longrightarrow> av_items a \<noteq> [] \<Longrightarrow> a_inv (a_get_end a)"
  by (cases "av_writers a"; cases "av_items a") (auto simp: a_inv_def a_get_end_def list_all_iff)

lemma a_unblock_inv: "a_inv a \<Longrightarrow> a_inv (a_unblock c a)"
  by (auto simp: a_inv_def a_unblock_def list_all_iff)

lemma a_unblock_items [simp]:
  "av_items (a_unblock c a) = av_items a" "av_cap (a_unblock c a) = av_cap a"
  by (simp_all add: a_unblock_def)

lemma a_unblock_absent:
  assumes "a_inv a" "av_woken a = c # w"
  shows "av_readers (a_unblock c a) = av_readers a" "av_writers (a_unblock c a) = av_writers a"
  using assms by (auto simp: a_inv_def a_unblock_def filter_id_conv)

lemma a_step_inv: "a_step act a b \<Longrightarrow> a_inv a \<Longrightarrow> a_inv b"
proof (induction rule: a_step.induct)
  case (put_wait a c v)
  then show ?case by (auto simp: a_inv_def list_all_iff)
next
  case (get_wait a c)
  then show ?case by (auto simp: a_inv_def list_all_iff)
qed (simp_all add: a_put_end_inv a_get_end_inv a_unblock_inv)

text \<open>How the numbers of woken coroutines change.\<close>

lemma length_filter_conj: "length (filter (\<lambda>x. R x \<and> P x) xs) \<le> length (filter P xs)"
  by (induction xs) auto

lemma filter_absent: "c \<notin> set xs \<Longrightarrow> filter (\<lambda>x. x \<noteq> c \<and> P x) xs = filter P xs"
  by (induction xs) auto

lemma woken_put_end:
  assumes "a_inv a"
  shows "a_woken_readers (a_put_end v a) = a_woken_readers a + (if av_readers a = [] then 0 else 1)"
    "a_woken_writers (a_put_end v a) = a_woken_writers a"
  using assms
  by (cases "av_readers a"; auto simp: a_inv_def a_woken_readers_def a_woken_writers_def a_put_end_def)+

lemma woken_get_end:
  assumes "a_inv a"
  shows "a_woken_writers (a_get_end a) = a_woken_writers a + (if av_writers a = [] then 0 else 1)"
    "a_woken_readers (a_get_end a) = a_woken_readers a"
  using assms
  by (cases "av_writers a"; auto simp: a_inv_def a_woken_readers_def a_woken_writers_def a_get_end_def;
      metis is_put.simps)+

lemma woken_unblock:
  "a_woken_readers (a_unblock c a) \<le> a_woken_readers a"
  "a_woken_writers (a_unblock c a) \<le> a_woken_writers a"
  by (simp_all add: a_woken_readers_def a_woken_writers_def a_unblock_def length_filter_conj cong: conj_cong)

lemma woken_unblock_first:
  assumes "a_inv a" "av_woken a = c # w"
  shows "a_woken_readers a = a_woken_readers (a_unblock c a) + (if av_blocked a c = Some ChGet then 1 else 0)"
    "a_woken_writers a = a_woken_writers (a_unblock c a) + (if is_put (av_blocked a c) then 1 else 0)"
proof -
  have "c \<notin> set w" using assms by (simp add: a_inv_def)
  then show "a_woken_readers a = a_woken_readers (a_unblock c a) + (if av_blocked a c = Some ChGet then 1 else 0)"
    "a_woken_writers a = a_woken_writers (a_unblock c a) + (if is_put (av_blocked a c) then 1 else 0)"
    by (simp_all add: a_woken_readers_def a_woken_writers_def a_unblock_def assms(2) filter_absent cong: conj_cong)
qed

lemma woken_unblock_absent:
  assumes "c \<notin> set (av_woken a)"
  shows "a_woken_readers (a_unblock c a) = a_woken_readers a"
    "a_woken_writers (a_unblock c a) = a_woken_writers a"
  using assms
  by (simp_all add: a_woken_readers_def a_woken_writers_def a_unblock_def filter_absent cong: conj_cong)

lemma a_end_frame [simp]:
  "av_items (a_put_end v a) = av_items a @ [v]" "av_cap (a_put_end v a) = av_cap a"
  "av_items (a_get_end a) = tl (av_items a)" "av_cap (a_get_end a) = av_cap a"
  "av_readers (a_put_end v a) = tl (av_readers a)" "av_writers (a_put_end v a) = av_writers a"
  "av_writers (a_get_end a) = tl (av_writers a)" "av_readers (a_get_end a) = av_readers a"
  by (simp_all add: a_put_end_def a_get_end_def)

lemma woken_wait:
  assumes "a_inv a" "av_blocked a c = None" "av_woken t = av_woken a"
    "av_blocked t = (av_blocked a)(c \<mapsto> p)"
  shows "a_woken_readers t = a_woken_readers a" "a_woken_writers t = a_woken_writers a"
proof -
  have "c \<notin> set (av_woken a)" using assms(1,2) by (auto simp: a_inv_def list_all_iff)
  then have f: "filter (\<lambda>d. P (av_blocked t d)) (av_woken t) = filter (\<lambda>d. P (av_blocked a d)) (av_woken a)" for P
    unfolding assms(3,4) by (intro filter_cong) auto
  show "a_woken_readers t = a_woken_readers a" "a_woken_writers t = a_woken_writers a"
    unfolding a_woken_readers_def a_woken_writers_def
    using f [of "\<lambda>b. b = Some ChGet"] f [of is_put] by simp_all
qed

lemma a_step_safe: "a_step act a b \<Longrightarrow> a_inv a \<Longrightarrow> a_polite act a \<Longrightarrow> a_safe a \<Longrightarrow> a_safe b"
proof (induction rule: a_step.induct)
  case (put_now a c v)
  then show ?case by (simp add: a_safe_def a_polite_def woken_put_end)
next
  case (put_wait a c v)
  then show ?case by (simp add: a_safe_def woken_wait [of a c])
next
  case (get_now a c)
  then have "length (av_items a) \<le> av_cap a" by (simp add: a_inv_def)
  with get_now show ?case by (auto simp: a_safe_def a_polite_def woken_get_end)
next
  case (get_wait a c)
  then show ?case by (simp add: a_safe_def woken_wait [of a c])
next
  case (put_resumed a c w v)
  then show ?case using woken_unblock_first [of a c w]
    by (auto simp: a_safe_def a_unblock_inv woken_put_end)
next
  case (get_resumed a c w)
  then have "length (av_items a) \<le> av_cap a" by (simp add: a_inv_def)
  with get_resumed show ?case using woken_unblock_first [of a c w]
    by (auto simp: a_safe_def a_unblock_inv woken_get_end)
next
  case (cancelled a c)
  then show ?case using woken_unblock [of c a] by (simp add: a_safe_def)
qed simp

lemma a_safe_not_violated:
  assumes "a_inv a" "a_safe a"
  shows "\<not> a_violated a"
proof (cases "av_woken a")
  case (Cons c w)
  with woken_unblock_first [OF assms(1) Cons] assms show ?thesis
    by (auto simp: a_violated_def a_safe_def a_inv_def list_all_iff split: chop.splits option.splits)
qed (simp add: a_violated_def)

lemma a_step_live:
  "a_step act a b \<Longrightarrow> a_inv a \<Longrightarrow> a_polite act a \<Longrightarrow> a_keeps_woken act a \<Longrightarrow> a_live a \<Longrightarrow> a_live b"
proof (induction rule: a_step.induct)
  case (put_now a c v)
  then show ?case by (cases "av_readers a") (auto simp: a_live_def a_polite_def woken_put_end)
next
  case (put_wait a c v)
  then show ?case by (simp add: a_live_def woken_wait [of a c])
next
  case (get_now a c)
  then show ?case by (cases "av_writers a") (auto simp: a_live_def a_polite_def woken_get_end)
next
  case (get_wait a c)
  then show ?case by (simp add: a_live_def woken_wait [of a c])
next
  case (put_resumed a c w v)
  then show ?case using woken_unblock_first [of a c w] a_unblock_absent [of a c w]
    by (cases "av_readers a") (auto simp: a_live_def a_unblock_inv woken_put_end)
next
  case (get_resumed a c w)
  then show ?case using woken_unblock_first [of a c w] a_unblock_absent [of a c w]
    by (cases "av_writers a") (auto simp: a_live_def a_unblock_inv woken_get_end)
next
  case (cancelled a c)
  then have "a_woken_readers (a_unblock c a) = a_woken_readers a"
    "a_woken_writers (a_unblock c a) = a_woken_writers a"
    by (simp_all add: woken_unblock_absent a_keeps_woken_def)
  with cancelled show ?case by (auto simp: a_live_def a_unblock_def)
qed simp

section \<open>The channel implements the abstract channel\<close>

lemma map_filter_id_simps [simp]:
  "List.map_filter (\<lambda>h. h) [] = []"
  "List.map_filter (\<lambda>h. h) (None # hs) = List.map_filter (\<lambda>h. h) hs"
  "List.map_filter (\<lambda>h. h) (Some c # hs) = c # List.map_filter (\<lambda>h. h) hs"
  "List.map_filter (\<lambda>h. h) (hs @ [Some c]) = List.map_filter (\<lambda>h. h) hs @ [c]"
  by (simp_all add: List.map_filter_simps) (simp add: List.map_filter_def)

lemma map_filter_nulled:
  "List.map_filter (\<lambda>h. h) (map (\<lambda>h. if h = Some c then None else h) hs) =
   filter (\<lambda>d. d \<noteq> c) (List.map_filter (\<lambda>h. h) hs)"
proof (induction hs)
  case (Cons h hs)
  then show ?case by (cases h) auto
qed simp

lemma woken_enqueue:
  "loop_pending (\<lambda>c. False) (Loop_enqueue (Some c) l) = loop_pending (\<lambda>c. False) l @ [c]"
  using event_loop.pending_enq [of "\<lambda>c. False"] by simp

text \<open>Waking skips the cancelled waiters and schedules the first live one.\<close>

lemma Channel_awake_spec:
  assumes "bq_inv w"
  shows "\<exists>w' l'. Channel_awake w l = ((w', l'), Ok ()) \<and> bq_inv w' \<and> live_waiters w' = tl (live_waiters w) \<and>
    loop_pending (\<lambda>c. False) l' = loop_pending (\<lambda>c. False) l @ take 1 (live_waiters w)"
  using assms
proof (induction w l rule: Channel_awake.induct)
  case (1 w l)
  show ?case
  proof (cases "bq_list w")
    case Nil
    then show ?thesis using 1(2)
      by (subst Channel_awake.simps) (simp add: bq_empty_iff live_waiters_def)
  next
    case (Cons h hs)
    from bq_get_some [OF 1(2) Cons] obtain w1 where g: "BoundedQueue_get w = (w1, Ok h)" "bq_inv w1" "bq_list w1 = hs"
      by blast
    have e: "\<not> BoundedQueue_empty w" using Cons by (simp add: bq_empty_iff)
    show ?thesis
    proof (cases h)
      case None
      with 1(1) [OF e g(1) [symmetric] refl] g Cons e show ?thesis
        by (subst Channel_awake.simps) (simp add: live_waiters_def)
    next
      case (Some c)
      with g Cons e show ?thesis
        by (subst Channel_awake.simps) (simp add: live_waiters_def woken_enqueue)
    qed
  qed
qed

lemma ChannelAwaiter_destroy_spec:
  assumes "bq_inv w"
  shows "\<exists>w'. ChannelAwaiter_destroy (Some c) w = (w', Ok ()) \<and> bq_inv w' \<and>
      live_waiters w' = filter (\<lambda>d. d \<noteq> c) (live_waiters w)"
    "\<exists>w'. ChannelAwaiter_destroy None w = (w', Ok ()) \<and> bq_inv w' \<and> live_waiters w' = live_waiters w"
proof -
  show "\<exists>w'. ChannelAwaiter_destroy (Some c) w = (w', Ok ()) \<and> bq_inv w' \<and>
      live_waiters w' = filter (\<lambda>d. d \<noteq> c) (live_waiters w)"
    using bq_forEach [OF assms, of "\<lambda>h. if h = Some c then None else h"] map_filter_nulled [of c "bq_list w"]
    by (auto simp: ChannelAwaiter_destroy_def live_waiters_def)
  have "(\<lambda>h. if h = None then None else h) = (\<lambda>h :: handle. h)" by auto
  with bq_forEach [OF assms, of "\<lambda>h. if h = None then None else h"]
  show "\<exists>w'. ChannelAwaiter_destroy None w = (w', Ok ()) \<and> bq_inv w' \<and> live_waiters w' = live_waiters w"
    by (auto simp: ChannelAwaiter_destroy_def live_waiters_def)
qed

lemma ChannelAwaiter_suspend_spec:
  assumes "bq_inv w"
  shows "(\<exists>w'. ChannelAwaiter_await_suspend (Some c) w = (w', Ok ()) \<and> bq_inv w' \<and>
      live_waiters w' = live_waiters w @ [c]) \<or>
    ChannelAwaiter_await_suspend (Some c) w = (w, Exn too_many_waiting)"
  using bq_put_space [OF assms, of "Some c"] bq_hasSpace_iff [OF assms]
  by (auto simp: ChannelAwaiter_await_suspend_def live_waiters_def)

lemma Channel_put_end_spec:
  assumes "bqs_inv s" "length (bq_list (ch_queue (cs_ch s))) < bq_reserved (ch_queue (cs_ch s))"
    "(cs_blocked t)(c := None) = (cs_blocked s)(c := None)" "cs_put t = cs_put s" "cs_got t = cs_got s"
  shows "\<exists>s'. cs_after_put c v t (Channel_put_end v (cs_ch s, cs_loop s)) = (s', Ok ()) \<and> bqs_inv s' \<and>
      view s' = a_put_end v (view (s\<lparr>cs_blocked := (cs_blocked s)(c := None)\<rparr>))"
proof -
  obtain q where q: "BoundedQueue_put v (ch_queue (cs_ch s)) = (q, Ok ())" "bq_inv q"
    "bq_list q = bq_list (ch_queue (cs_ch s)) @ [v]" "bq_reserved q = bq_reserved (ch_queue (cs_ch s))"
    using bq_put_space [of "ch_queue (cs_ch s)" v] assms by (auto simp: bqs_inv_def)
  obtain w l where w: "Channel_awake (ch_read_waiting (cs_ch s)) (cs_loop s) = ((w, l), Ok ())" "bq_inv w"
    "live_waiters w = tl (live_waiters (ch_read_waiting (cs_ch s)))"
    "loop_pending (\<lambda>c. False) l = loop_pending (\<lambda>c. False) (cs_loop s) @ take 1 (live_waiters (ch_read_waiting (cs_ch s)))"
    using Channel_awake_spec [of "ch_read_waiting (cs_ch s)" "cs_loop s"] assms(1) by (auto simp: bqs_inv_def)
  show ?thesis using assms q w
    by (simp add: cs_after_put_def Channel_put_end_def Channel_awake_reader_def bqs_inv_def view_def
        a_put_end_def cs_woken_def fun_upd_twist del: Channel_awake.simps)
qed

lemma Channel_get_end_spec:
  assumes "bqs_inv s" "bq_list (ch_queue (cs_ch s)) \<noteq> []"
    "(cs_blocked t)(c := None) = (cs_blocked s)(c := None)" "cs_put t = cs_put s" "cs_got t = cs_got s"
  shows "\<exists>s'. cs_after_get c t (Channel_get_end (cs_ch s, cs_loop s)) = (s', Ok ()) \<and> bqs_inv s' \<and>
      view s' = a_get_end (view (s\<lparr>cs_blocked := (cs_blocked s)(c := None)\<rparr>))"
proof -
  obtain x xs where l: "bq_list (ch_queue (cs_ch s)) = x # xs" using assms(2) by (meson neq_Nil_conv)
  obtain q where q: "BoundedQueue_get (ch_queue (cs_ch s)) = (q, Ok x)" "bq_inv q"
    "bq_list q = xs" "bq_reserved q = bq_reserved (ch_queue (cs_ch s))"
    using bq_get_some [OF _ l] assms by (auto simp: bqs_inv_def)
  obtain w l where w: "Channel_awake (ch_write_waiting (cs_ch s)) (cs_loop s) = ((w, l), Ok ())" "bq_inv w"
    "live_waiters w = tl (live_waiters (ch_write_waiting (cs_ch s)))"
    "loop_pending (\<lambda>c. False) l = loop_pending (\<lambda>c. False) (cs_loop s) @ take 1 (live_waiters (ch_write_waiting (cs_ch s)))"
    using Channel_awake_spec [of "ch_write_waiting (cs_ch s)" "cs_loop s"] assms(1) by (auto simp: bqs_inv_def)
  show ?thesis using assms q w l
    by (simp add: cs_after_get_def Channel_get_end_def Channel_awake_writer_def bqs_inv_def view_def
        a_get_end_def cs_woken_def fun_upd_twist del: Channel_awake.simps)
qed

lemma view_simps:
  "av_items (view s) = bq_list (ch_queue (cs_ch s))" "av_cap (view s) = bq_reserved (ch_queue (cs_ch s))"
  "av_blocked (view s) = cs_blocked s" "av_woken (view s) = cs_woken s"
  by (simp_all add: view_def)

lemma bqs_space: "bqs_inv s \<Longrightarrow> BoundedQueue_hasSpace (ch_queue (cs_ch s)) \<longleftrightarrow>
    length (bq_list (ch_queue (cs_ch s))) < bq_reserved (ch_queue (cs_ch s))"
  "bqs_inv s \<Longrightarrow> length (bq_list (ch_queue (cs_ch s))) \<le> bq_reserved (ch_queue (cs_ch s))"
  by (simp_all add: bqs_inv_def bq_hasSpace_iff bq_inv_bounded del: bq_length_list)

lemma view_unblocked: "cs_blocked s c = None \<Longrightarrow> s\<lparr>cs_blocked := (cs_blocked s)(c := None)\<rparr> = s"
  by (cases s) (simp add: fun_upd_idem)

lemma cs_put_blocked:
  assumes inv: "bqs_inv s" and c: "cs_blocked s c = None"
    and full: "\<not> BoundedQueue_hasSpace (ch_queue (cs_ch s))"
  shows "\<exists>s'. cs_call c (ChPut v) s = (s', Ok ()) \<and> bqs_inv s' \<and> a_step (ChCall c (ChPut v)) (view s) (view s')"
proof -
  let ?w = "ch_write_waiting (cs_ch s)"
  have w: "bq_inv ?w" using inv by (simp add: bqs_inv_def)
  have eq: "length (av_items (view s)) = av_cap (view s)" using full bqs_space [OF inv] by (simp add: view_simps)
  from ChannelAwaiter_suspend_spec [OF w, of c] consider
    w' where "ChannelAwaiter_await_suspend (Some c) ?w = (w', Ok ())" "bq_inv w'" "live_waiters w' = live_waiters ?w @ [c]"
    | "ChannelAwaiter_await_suspend (Some c) ?w = (?w, Exn too_many_waiting)" by blast
  then show ?thesis
  proof cases
    case 1
    let ?s = "s\<lparr>cs_ch := (cs_ch s)\<lparr>ch_write_waiting := w'\<rparr>, cs_blocked := (cs_blocked s)(c \<mapsto> ChPut v)\<rparr>"
    have v: "view ?s = (view s)\<lparr>av_writers := av_writers (view s) @ [c], av_blocked := (av_blocked (view s))(c \<mapsto> ChPut v)\<rparr>"
      using 1 by (simp add: view_def cs_woken_def)
    have "a_step (ChCall c (ChPut v)) (view s) (view ?s)"
      unfolding v using c eq by (intro a_step.put_wait) (simp_all add: view_simps)
    then show ?thesis using full 1 inv by (simp add: cs_call_def Channel_put_def cs_after_put_def bqs_inv_def)
  next
    case 2
    obtain w' where w': "ChannelAwaiter_destroy None ?w = (w', Ok ())" "bq_inv w'" "live_waiters w' = live_waiters ?w"
      using ChannelAwaiter_destroy_spec(2) [OF w] by blast
    have "view (s\<lparr>cs_ch := (cs_ch s)\<lparr>ch_write_waiting := w'\<rparr>\<rparr>) = view s" using w' by (simp add: view_def cs_woken_def)
    then show ?thesis using full w' 2 c inv a_step.same [of _ "view s"]
      by (simp add: cs_call_def Channel_put_def cs_after_put_def fun_upd_idem bqs_inv_def)
  qed
qed

lemma cs_get_blocked:
  assumes inv: "bqs_inv s" and c: "cs_blocked s c = None" and e: "BoundedQueue_empty (ch_queue (cs_ch s))"
  shows "\<exists>s'. cs_call c ChGet s = (s', Ok ()) \<and> bqs_inv s' \<and> a_step (ChCall c ChGet) (view s) (view s')"
proof -
  let ?w = "ch_read_waiting (cs_ch s)"
  have w: "bq_inv ?w" using inv by (simp add: bqs_inv_def)
  have eq: "av_items (view s) = []" using e by (simp add: bq_empty_iff view_simps)
  from ChannelAwaiter_suspend_spec [OF w, of c] consider
    w' where "ChannelAwaiter_await_suspend (Some c) ?w = (w', Ok ())" "bq_inv w'" "live_waiters w' = live_waiters ?w @ [c]"
    | "ChannelAwaiter_await_suspend (Some c) ?w = (?w, Exn too_many_waiting)" by blast
  then show ?thesis
  proof cases
    case 1
    let ?s = "s\<lparr>cs_ch := (cs_ch s)\<lparr>ch_read_waiting := w'\<rparr>, cs_blocked := (cs_blocked s)(c \<mapsto> ChGet)\<rparr>"
    have v: "view ?s = (view s)\<lparr>av_readers := av_readers (view s) @ [c], av_blocked := (av_blocked (view s))(c \<mapsto> ChGet)\<rparr>"
      using 1 by (simp add: view_def cs_woken_def)
    have "a_step (ChCall c ChGet) (view s) (view ?s)"
      unfolding v using c eq by (intro a_step.get_wait) (simp_all add: view_simps)
    then show ?thesis using e 1 inv by (simp add: cs_call_def Channel_get_def cs_after_get_def bqs_inv_def)
  next
    case 2
    obtain w' where w': "ChannelAwaiter_destroy None ?w = (w', Ok ())" "bq_inv w'" "live_waiters w' = live_waiters ?w"
      using ChannelAwaiter_destroy_spec(2) [OF w] by blast
    have "view (s\<lparr>cs_ch := (cs_ch s)\<lparr>ch_read_waiting := w'\<rparr>\<rparr>) = view s" using w' by (simp add: view_def cs_woken_def)
    then show ?thesis using e w' 2 c inv a_step.same [of _ "view s"]
      by (simp add: cs_call_def Channel_get_def cs_after_get_def fun_upd_idem bqs_inv_def)
  qed
qed

lemma cs_call_refines:
  assumes inv: "bqs_inv s" and c: "cs_blocked s c = None"
  shows "\<exists>s'. cs_call c op s = (s', Ok ()) \<and> bqs_inv s' \<and> a_step (ChCall c op) (view s) (view s')"
proof (cases op)
  case (ChPut v)
  show ?thesis
  proof (cases "BoundedQueue_hasSpace (ch_queue (cs_ch s))")
    case True
    with bqs_space(1) [OF inv]
    have sp: "length (bq_list (ch_queue (cs_ch s))) < bq_reserved (ch_queue (cs_ch s))" by simp
    from Channel_put_end_spec [OF inv sp, of s c v] c True obtain s' where
      "cs_call c (ChPut v) s = (s', Ok ())" "bqs_inv s'" "view s' = a_put_end v (view s)"
      by (auto simp: cs_call_def Channel_put_def view_unblocked fun_upd_idem)
    with ChPut c sp show ?thesis by (auto simp: view_simps simp del: bq_length_list intro!: a_step.put_now)
  qed (simp add: ChPut cs_put_blocked [OF inv c])
next
  case ChGet
  show ?thesis
  proof (cases "BoundedQueue_empty (ch_queue (cs_ch s))")
    case False
    then have ne: "bq_list (ch_queue (cs_ch s)) \<noteq> []" by (simp add: bq_empty_iff)
    from Channel_get_end_spec [OF inv ne, of s c] c False obtain s' where
      "cs_call c ChGet s = (s', Ok ())" "bqs_inv s'" "view s' = a_get_end (view s)"
      by (auto simp: cs_call_def Channel_get_def view_unblocked fun_upd_idem)
    with ChGet c ne show ?thesis by (auto simp: view_simps intro!: a_step.get_now)
  qed (simp add: ChGet cs_get_blocked [OF inv c])
qed

lemma filter_not_in: "c \<notin> set xs \<Longrightarrow> filter (\<lambda>d. d \<noteq> c) xs = xs"
  by (auto simp: filter_id_conv)

lemma a_inv_unblock_writer:
  "a_inv a \<Longrightarrow> av_blocked a c = Some (ChPut v) \<Longrightarrow> c \<notin> set (av_readers a)"
  "a_inv a \<Longrightarrow> av_blocked a c = Some ChGet \<Longrightarrow> c \<notin> set (av_writers a)"
  by (auto simp: a_inv_def list_all_iff)

lemma cs_resume_put:
  assumes inv: "bqs_inv s" and a: "a_inv (view s)" and c: "cs_blocked s c = Some (ChPut v)"
    and wk: "cs_woken s = c # loop_pending (\<lambda>c. False) l"
  shows "if length (av_items (view s)) = av_cap (view s)
         then \<exists>m. cs_resume c (ChPut v) (s\<lparr>cs_loop := l\<rparr>) = (s\<lparr>cs_loop := l\<rparr>, Abort m)
         else \<exists>s'. cs_resume c (ChPut v) (s\<lparr>cs_loop := l\<rparr>) = (s', Ok ()) \<and> bqs_inv s' \<and>
           a_step ChTurn (view s) (view s')"
proof -
  let ?w = "ch_write_waiting (cs_ch s)"
  have cw: "c \<notin> set (loop_pending (\<lambda>c. False) l)" using a wk by (simp add: a_inv_def view_simps)
  obtain w' where w': "ChannelAwaiter_destroy (Some c) ?w = (w', Ok ())" "bq_inv w'"
    "live_waiters w' = filter (\<lambda>d. d \<noteq> c) (live_waiters ?w)"
    using ChannelAwaiter_destroy_spec(1) [of ?w c] inv by (auto simp: bqs_inv_def)
  define t where "t = s\<lparr>cs_loop := l, cs_ch := (cs_ch s)\<lparr>ch_write_waiting := w'\<rparr>\<rparr>"
  have t: "bqs_inv t" "view (t\<lparr>cs_blocked := (cs_blocked t)(c := None)\<rparr>) = a_unblock c (view s)"
    using inv w' wk cw a_inv_unblock_writer(1) [OF a, of c v] c
    by (simp_all add: bqs_inv_def view_def a_unblock_def t_def cs_woken_def filter_not_in)
  show ?thesis
  proof (cases "BoundedQueue_hasSpace (ch_queue (cs_ch s))")
    case True
    with bqs_space(1) [OF inv]
    have sp: "length (bq_list (ch_queue (cs_ch s))) < bq_reserved (ch_queue (cs_ch s))" by simp
    obtain s' where "cs_resume c (ChPut v) (s\<lparr>cs_loop := l\<rparr>) = (s', Ok ())" "bqs_inv s'"
      "view s' = a_put_end v (a_unblock c (view s))"
      using Channel_put_end_spec [OF t(1), of "s\<lparr>cs_loop := l\<rparr>" c v] sp True w'
      unfolding t(2) by (auto simp: t_def cs_resume_def Channel_put_resume_def)
    with c sp wk show ?thesis
      by (auto simp: view_simps simp del: bq_length_list intro!: a_step.put_resumed)
  next
    case False
    with bqs_space [OF inv] show ?thesis
      by (simp add: cs_resume_def Channel_put_resume_def cs_after_put_def view_simps)
  qed
qed

lemma cs_resume_get:
  assumes inv: "bqs_inv s" and a: "a_inv (view s)" and c: "cs_blocked s c = Some ChGet"
    and wk: "cs_woken s = c # loop_pending (\<lambda>c. False) l"
  shows "if av_items (view s) = []
         then \<exists>m. cs_resume c ChGet (s\<lparr>cs_loop := l\<rparr>) = (s\<lparr>cs_loop := l\<rparr>, Abort m)
         else \<exists>s'. cs_resume c ChGet (s\<lparr>cs_loop := l\<rparr>) = (s', Ok ()) \<and> bqs_inv s' \<and>
           a_step ChTurn (view s) (view s')"
proof -
  let ?w = "ch_read_waiting (cs_ch s)"
  have cw: "c \<notin> set (loop_pending (\<lambda>c. False) l)" using a wk by (simp add: a_inv_def view_simps)
  obtain w' where w': "ChannelAwaiter_destroy (Some c) ?w = (w', Ok ())" "bq_inv w'"
    "live_waiters w' = filter (\<lambda>d. d \<noteq> c) (live_waiters ?w)"
    using ChannelAwaiter_destroy_spec(1) [of ?w c] inv by (auto simp: bqs_inv_def)
  define t where "t = s\<lparr>cs_loop := l, cs_ch := (cs_ch s)\<lparr>ch_read_waiting := w'\<rparr>\<rparr>"
  have t: "bqs_inv t" "view (t\<lparr>cs_blocked := (cs_blocked t)(c := None)\<rparr>) = a_unblock c (view s)"
    using inv w' wk cw a_inv_unblock_writer(2) [OF a, of c] c
    by (simp_all add: bqs_inv_def view_def a_unblock_def t_def cs_woken_def filter_not_in)
  show ?thesis
  proof (cases "BoundedQueue_empty (ch_queue (cs_ch s))")
    case False
    then have ne: "bq_list (ch_queue (cs_ch s)) \<noteq> []" by (simp add: bq_empty_iff)
    obtain s' where "cs_resume c ChGet (s\<lparr>cs_loop := l\<rparr>) = (s', Ok ())" "bqs_inv s'"
      "view s' = a_get_end (a_unblock c (view s))"
      using Channel_get_end_spec [OF t(1), of "s\<lparr>cs_loop := l\<rparr>" c] ne False w'
      unfolding t(2) by (auto simp: t_def cs_resume_def Channel_get_resume_def ChannelAwaiter_await_resume_def)
    with c ne wk show ?thesis by (auto simp: view_simps intro!: a_step.get_resumed)
  next
    case True
    then show ?thesis
      by (simp add: cs_resume_def Channel_get_resume_def ChannelAwaiter_await_resume_def cs_after_get_def
          view_simps bq_empty_iff)
  qed
qed

lemma cs_turn_refines:
  assumes inv: "bqs_inv s" and a: "a_inv (view s)"
  shows "if a_violated (view s) then \<exists>m l. cs_turn s = (s\<lparr>cs_loop := l\<rparr>, Abort m)
         else \<exists>s'. cs_turn s = (s', Ok ()) \<and> bqs_inv s' \<and> a_step ChTurn (view s) (view s')"
proof (cases rule: loop_getNext_cases [of "\<lambda>c. False" "cs_loop s"])
  case (none l')
  then have "view (s\<lparr>cs_loop := l'\<rparr>) = view s"
    by (simp add: view_def cs_woken_def loop_pending_def sched_pending_def List.map_filter_simps)
  with none inv a_step.same [of ChTurn "view s"] show ?thesis
    by (simp add: cs_turn_def a_violated_def view_simps cs_woken_def bqs_inv_def)
next
  case (some l c)
  have wk: "cs_woken s = c # loop_pending (\<lambda>c. False) l" using some by (simp add: cs_woken_def)
  with a obtain op where op: "cs_blocked s c = Some op" by (auto simp: a_inv_def view_simps)
  with cs_resume_put [OF inv a _ wk] cs_resume_get [OF inv a _ wk] some wk show ?thesis
    by (cases op) (auto simp: cs_turn_def a_violated_def view_simps split: if_splits)
qed

lemma cs_cancel_refines:
  assumes inv: "bqs_inv s" and a: "a_inv (view s)" and c: "cs_blocked s c = Some op"
  shows "\<exists>s'. cs_cancel c op s = (s', Ok ()) \<and> bqs_inv s' \<and> view s' = a_unblock c (view s)"
proof -
  have pc: "loop_pending (\<lambda>c. False) (Loop_cancel c l) = filter (\<lambda>d. d \<noteq> c) (loop_pending (\<lambda>c. False) l)" for l
    by (rule event_loop.pending_can)
  show ?thesis
  proof (cases op)
    case (ChPut v)
    with inv c ChannelAwaiter_destroy_spec(1) [of "ch_write_waiting (cs_ch s)" c] a_inv_unblock_writer(1) [OF a, of c v] pc
    show ?thesis by (auto simp: cs_cancel_def bqs_inv_def view_def a_unblock_def cs_woken_def filter_not_in)
  next
    case ChGet
    with inv c ChannelAwaiter_destroy_spec(1) [of "ch_read_waiting (cs_ch s)" c] a_inv_unblock_writer(2) [OF a, of c] pc
    show ?thesis by (auto simp: cs_cancel_def bqs_inv_def view_def a_unblock_def cs_woken_def filter_not_in)
  qed
qed

lemma cs_step_refines:
  assumes inv: "bqs_inv s" and a: "a_inv (view s)"
  shows "if act = ChTurn \<and> a_violated (view s) then \<exists>m l. cs_step act s = (s\<lparr>cs_loop := l\<rparr>, Abort m)
         else \<exists>s'. cs_step act s = (s', Ok ()) \<and> bqs_inv s' \<and> a_step act (view s) (view s')"
proof (cases act)
  case (ChCall c op)
  with cs_call_refines [OF inv] inv a_step.same show ?thesis by (auto simp: cs_step_def)
next
  case ChTurn
  with cs_turn_refines [OF inv a] show ?thesis by (simp add: cs_step_def)
next
  case (ChCancel c)
  show ?thesis
  proof (cases "cs_blocked s c")
    case None
    with ChCancel inv a_step.same show ?thesis by (auto simp: cs_step_def)
  next
    case (Some op)
    with cs_cancel_refines [OF inv a Some] ChCancel a_step.cancelled [of "view s" c]
    show ?thesis by (auto simp: cs_step_def view_simps)
  qed
qed

section \<open>Runs\<close>

lemma view_counts:
  "woken_readers s = a_woken_readers (view s)" "woken_writers s = a_woken_writers (view s)"
  "polite act s = a_polite act (view s)" "keeps_woken act s = a_keeps_woken act (view s)"
  by (simp_all add: woken_readers_def woken_writers_def a_woken_readers_def a_woken_writers_def view_def
      polite_def a_polite_def cs_space_def cs_size_def keeps_woken_def a_keeps_woken_def
      split: chaction.split chop.split del: bq_length_list)

lemma cs_start_inv:
  assumes "reserve capacity < 2 ^ 32" "reserve max_waiters < 2 ^ 32"
  shows "bqs_inv (cs_start reserve capacity max_waiters)"
    "a_inv (view (cs_start reserve capacity max_waiters))"
    "a_safe (view (cs_start reserve capacity max_waiters))"
    "a_live (view (cs_start reserve capacity max_waiters))"
    "av_cap (view (cs_start reserve capacity max_waiters)) = reserve capacity"
    "cs_blocked (cs_start reserve capacity max_waiters) = (\<lambda>c. None)"
  using assms
  by (simp_all add: bqs_inv_def cs_start_def Channel_new_def bq_new_inv a_inv_def view_def live_waiters_def
      cs_woken_def loop_pending_def sched_pending_def Loop_init_def List.map_filter_simps a_safe_def a_live_def
      a_woken_readers_def a_woken_writers_def del: bq_length_list)

lemma a_step_cap: "a_step act a b \<Longrightarrow> av_cap b = av_cap a"
  by (induction rule: a_step.induct) simp_all

lemma cs_run_inv:
  assumes "bqs_inv s" "a_inv (view s)" "cs_run as s = (t, r)"
  shows "cs_put t = cs_got t @ bq_list (ch_queue (cs_ch t)) \<and>
    length (bq_list (ch_queue (cs_ch t))) \<le> av_cap (view s) \<and> (r = Ok () \<or> (\<exists>m. r = Abort m))"
  using assms
proof (induction as arbitrary: s)
  case Nil
  then show ?case by (auto simp: a_inv_def view_def)
next
  case (Cons a as)
  from cs_step_refines [OF Cons.prems(1,2), of a] show ?case
  proof (cases "a = ChTurn \<and> a_violated (view s)")
    case True
    with cs_step_refines [OF Cons.prems(1,2), of a] Cons.prems show ?thesis
      by (auto simp: a_inv_def view_def)
  next
    case False
    with cs_step_refines [OF Cons.prems(1,2), of a] obtain s' where
      "cs_step a s = (s', Ok ())" "bqs_inv s'" "a_step a (view s) (view s')" by auto
    with Cons.IH [of s'] Cons.prems a_step_inv a_step_cap show ?thesis by fastforce
  qed
qed

lemma cs_step_safe:
  assumes "bqs_inv s" "a_inv (view s)" "a_safe (view s)"
  shows "\<exists>s'. cs_step a s = (s', Ok ()) \<and> bqs_inv s' \<and> a_inv (view s') \<and> a_step a (view s) (view s')"
  using cs_step_refines [OF assms(1,2), of a] a_safe_not_violated [OF assms(2,3)] a_step_inv assms(2)
  by auto

lemma cs_run_polite:
  assumes "bqs_inv s" "a_inv (view s)" "a_safe (view s)" "polite_run as s"
  shows "\<exists>t. cs_run as s = (t, Ok ()) \<and> bqs_inv t \<and> a_inv (view t) \<and> a_safe (view t) \<and>
    av_cap (view t) = av_cap (view s) \<and> (keeping_run as s \<and> a_live (view s) \<longrightarrow> a_live (view t))"
  using assms
proof (induction as arbitrary: s)
  case (Cons a as)
  from cs_step_safe [OF Cons.prems(1-3), of a] obtain s' where
    s': "cs_step a s = (s', Ok ())" "bqs_inv s'" "a_inv (view s')" "a_step a (view s) (view s')" by blast
  have p: "a_polite a (view s)" using Cons.prems(4) by (simp add: view_counts)
  have safe: "a_safe (view s')" using a_step_safe [OF s'(4) Cons.prems(2) p Cons.prems(3)] .
  have live: "a_live (view s')" if "keeping_run (a # as) s" "a_live (view s)"
    using a_step_live [OF s'(4) Cons.prems(2) p _ that(2)] that(1) by (simp add: view_counts)
  from Cons.IH [OF s'(2,3) safe] Cons.prems(4) s'(1) live a_step_cap [OF s'(4)] show ?case by auto
qed simp

text \<open>With one writer and one reader the rule holds of itself.\<close>

lemma a_step_roles:
  "a_step act a b \<Longrightarrow> one_writer_one_reader w r act \<Longrightarrow> blocked_roles w r a \<Longrightarrow> blocked_roles w r b"
  by (induction rule: a_step.induct)
     (auto simp: blocked_roles_def one_writer_one_reader_def a_put_end_def a_get_end_def a_unblock_def)

lemma roles_polite:
  assumes "one_writer_one_reader w r act" "blocked_roles w r a" "a_inv a"
  shows "a_polite act a"
proof -
  have "a_woken_writers a = 0" if "av_blocked a w = None"
    using assms(2) that by (auto simp: a_woken_writers_def blocked_roles_def filter_empty_conv)
  moreover have "a_woken_readers a = 0" if "av_blocked a r = None"
    using assms(2) that by (auto simp: a_woken_readers_def blocked_roles_def filter_empty_conv)
  ultimately show ?thesis using assms(1)
    by (fastforce simp: a_polite_def one_writer_one_reader_def split: chaction.splits chop.splits)
qed

lemma roles_polite_run:
  assumes "bqs_inv s" "a_inv (view s)" "a_safe (view s)" "blocked_roles w r (view s)"
    "list_all (one_writer_one_reader w r) as"
  shows "polite_run as s"
  using assms
proof (induction as arbitrary: s)
  case (Cons a as)
  have p: "a_polite a (view s)" using roles_polite [OF _ Cons.prems(4,2)] Cons.prems(5) by simp
  from cs_step_safe [OF Cons.prems(1-3), of a] obtain s' where
    s': "cs_step a s = (s', Ok ())" "bqs_inv s'" "a_inv (view s')" "a_step a (view s) (view s')" by blast
  have "a_safe (view s')" using a_step_safe [OF s'(4) Cons.prems(2) p Cons.prems(3)] .
  moreover have "blocked_roles w r (view s')" using a_step_roles [OF s'(4) _ Cons.prems(4)] Cons.prems(5) by simp
  ultimately have "polite_run as s'" using Cons.IH [OF s'(2,3)] Cons.prems(5) by simp
  with p s'(1) show ?case by (simp add: view_counts)
qed simp

section \<open>The properties of the channel\<close>

text \<open>
  C6: Items leave a channel in the order in which they entered it, none is lost or duplicated
  and the channel never holds more than its capacity, for any number of readers and writers,
  any interleaving of calls, resumptions and cancellations, up to and including a failed
  verification.
\<close>

theorem channel_fifo:
  fixes s :: "'v chsys"
  assumes "reserve capacity < 2 ^ 32" "reserve max_waiters < 2 ^ 32"
    and "cs_run as (cs_start reserve capacity max_waiters) = (s, r)"
  shows "cs_put s = cs_got s @ bq_list (ch_queue (cs_ch s)) \<and>
    length (bq_list (ch_queue (cs_ch s))) \<le> reserve capacity"
proof -
  have "av_cap (view (cs_start reserve capacity max_waiters :: 'v chsys)) = reserve capacity"
    using assms(1,2) by (rule cs_start_inv(5))
  with cs_run_inv [OF cs_start_inv(1,2) [of reserve capacity max_waiters, OF assms(1,2)] assms(3)]
  show ?thesis by simp
qed

theorem channel_fifo_witness:
  "cs_put (fst (cs_run [ChCall 1 ChGet, ChCall 2 (ChPut (7::nat)), ChTurn, ChCall 2 (ChPut 8)] (cs_start (\<lambda>n. n) 1 2))) =
   cs_got (fst (cs_run [ChCall 1 ChGet, ChCall 2 (ChPut (7::nat)), ChTurn, ChCall 2 (ChPut 8)] (cs_start (\<lambda>n. n) 1 2))) @ [8]"
proof -
  let ?r = "cs_run [ChCall 1 ChGet, ChCall 2 (ChPut (7::nat)), ChTurn, ChCall 2 (ChPut 8)] (cs_start (\<lambda>n. n) 1 2)"
  have "bq_list (ch_queue (cs_ch (fst ?r))) = [8]" by code_simp
  with channel_fifo [OF _ _ prod.collapse [of ?r, symmetric]] show ?thesis
    by (simp del: cs_run.simps)
qed

text \<open>
  C7: No verification of the channel fails (and every other assertion of the queues holds), as
  long as no caller takes the item or the space for which a coroutine has been woken but not
  resumed yet.
\<close>

theorem channel_polite_safe:
  assumes "reserve capacity < 2 ^ 32" "reserve max_waiters < 2 ^ 32"
    and "polite_run as (cs_start reserve capacity max_waiters)"
  shows "snd (cs_run as (cs_start reserve capacity max_waiters)) = Ok ()"
  using cs_run_polite [OF cs_start_inv(1-3) [of reserve capacity max_waiters, OF assms(1,2)] assms(3)] by auto

theorem channel_polite_safe_witness:
  "snd (cs_run [ChCall 1 ChGet, ChCall 2 (ChPut True), ChTurn, ChCall 3 ChGet, ChCall 2 (ChPut False), ChTurn]
     (cs_start (\<lambda>n. n) 1 2)) = Ok ()"
  by (rule channel_polite_safe, simp, simp) code_simp

text \<open>
  A channel with one writing and one reading coroutine is always safe, whatever is
  cancelled.
\<close>

theorem channel_one_writer_one_reader:
  assumes "reserve capacity < 2 ^ 32" "reserve max_waiters < 2 ^ 32"
    and "list_all (one_writer_one_reader w r) as"
  shows "snd (cs_run as (cs_start reserve capacity max_waiters)) = Ok ()"
proof -
  note st = cs_start_inv [of reserve capacity max_waiters, OF assms(1,2)]
  have "blocked_roles w r (view (cs_start reserve capacity max_waiters))"
    by (simp add: blocked_roles_def view_simps st(6))
  from cs_run_polite [OF st(1-3) roles_polite_run [OF st(1-3) this assms(3)]] show ?thesis by auto
qed

theorem channel_one_writer_one_reader_witness:
  "snd (cs_run [ChCall 1 ChGet, ChCall 2 (ChPut True), ChCancel 1, ChCall 2 (ChPut False), ChTurn]
     (cs_start (\<lambda>n. n) 1 2)) = Ok ()"
  by (rule channel_one_writer_one_reader [where w = 2 and r = 1])
     (simp_all add: one_writer_one_reader_def)

text \<open>
  C8: No wake-up is lost: when nothing is scheduled, a reader is suspended only if the channel
  is empty and a writer only if it is full, provided that callers are polite and no coroutine
  is destroyed between its wake-up and its resumption.
\<close>

theorem channel_no_lost_wakeup:
  fixes s :: "'v chsys"
  assumes "reserve capacity < 2 ^ 32" "reserve max_waiters < 2 ^ 32"
    and "polite_run as (cs_start reserve capacity max_waiters)"
    and "keeping_run as (cs_start reserve capacity max_waiters)"
    and "cs_run as (cs_start reserve capacity max_waiters) = (s, r)" "cs_woken s = []"
  shows "(cs_blocked s c = Some ChGet \<longrightarrow> bq_list (ch_queue (cs_ch s)) = []) \<and>
    (is_put (cs_blocked s c) \<longrightarrow> length (bq_list (ch_queue (cs_ch s))) = reserve capacity)"
proof -
  note st = cs_start_inv [of reserve capacity max_waiters, OF assms(1,2)]
  have i: "a_inv (view s)" "a_live (view s)" "av_cap (view s) = reserve capacity"
    using cs_run_polite [OF st(1-3) assms(3)] st(4,5) assms(4,5) by auto
  have "a_woken_readers (view s) = 0" "a_woken_writers (view s) = 0"
    using assms(6) by (simp_all add: a_woken_readers_def a_woken_writers_def view_simps)
  with i have l: "av_readers (view s) \<noteq> [] \<Longrightarrow> av_items (view s) = []"
    "av_writers (view s) \<noteq> [] \<Longrightarrow> length (av_items (view s)) = reserve capacity"
    by (auto simp: a_live_def a_inv_def)
  have "c \<in> set (av_readers (view s)) \<or> c \<in> set (av_writers (view s))" if "cs_blocked s c \<noteq> None"
    using i(1) that assms(6) by (auto simp: a_inv_def view_simps)
  moreover have "\<forall>c \<in> set (av_readers (view s)). cs_blocked s c = Some ChGet"
    "\<forall>c \<in> set (av_writers (view s)). is_put (cs_blocked s c)"
    using i(1) by (simp_all add: a_inv_def view_simps list_all_iff)
  ultimately show ?thesis using l by (force simp: view_simps simp del: bq_length_list)
qed

theorem channel_no_lost_wakeup_witness:
  "(let s = fst (cs_run [ChCall 1 ChGet, ChCall 3 ChGet, ChCall 2 (ChPut (7::nat)), ChTurn] (cs_start (\<lambda>n. n) 1 2))
    in cs_blocked s 3 = Some ChGet \<and> bq_list (ch_queue (cs_ch s)) = [])"
proof -
  let ?r = "cs_run [ChCall 1 ChGet, ChCall 3 ChGet, ChCall 2 (ChPut (7::nat)), ChTurn] (cs_start (\<lambda>n. n) 1 2)"
  have b: "cs_blocked (fst ?r) 3 = Some ChGet" by code_simp
  have "polite_run [ChCall 1 ChGet, ChCall 3 ChGet, ChCall 2 (ChPut (7::nat)), ChTurn] (cs_start (\<lambda>n. n) 1 2)"
    "keeping_run [ChCall 1 ChGet, ChCall 3 ChGet, ChCall 2 (ChPut (7::nat)), ChTurn] (cs_start (\<lambda>n. n) 1 2)"
    "cs_woken (fst ?r) = []" by code_simp+
  from channel_no_lost_wakeup [OF _ _ this(1,2) prod.collapse [of ?r, symmetric] this(3), of 3] b
  show ?thesis unfolding Let_def by (simp del: cs_run.simps)
qed

text \<open>
  The politeness rule is needed: an item put for a woken reader can be taken by another
  caller before the reader is resumed, and then the reader's \<open>BOOST_VERIFY\<close> fails.
\<close>

theorem channel_barging_aborts:
  "snd (cs_run [ChCall 1 ChGet, ChCall 2 (ChPut True), ChCall 3 ChGet, ChTurn] (cs_start (\<lambda>n. n) 1 2)) =
     Abort ''co_await awaiter''"
  by code_simp

text \<open>
  A coroutine destroyed between its wake-up and its resumption takes the wake-up with it:
  another reader stays suspended although the channel holds an item and nothing is scheduled.
\<close>

theorem channel_lost_wakeup:
  "(let s = fst (cs_run [ChCall 1 ChGet, ChCall 2 ChGet, ChCall 3 (ChPut True), ChCancel 1] (cs_start (\<lambda>n. n) 1 2))
    in cs_blocked s 2 = Some ChGet \<and> bq_list (ch_queue (cs_ch s)) = [True] \<and> cs_woken s = [])"
  by code_simp

text \<open>
  Cancelled waiters keep their place in the waiter queue: after a reader was cancelled, a
  channel for one waiter refuses the next reader although nobody waits.
\<close>

theorem channel_cancelled_waiters_count:
  "(let s = fst (cs_run [ChCall 1 ChGet, ChCancel 1] (cs_start (\<lambda>n. n) 1 1) :: bool chsys \<times> unit res)
    in live_waiters (ch_read_waiting (cs_ch s)) = [] \<and>
       snd (Channel_get (Some 2) (cs_ch s, cs_loop s)) = Exn too_many_waiting)"
  by code_simp

end
