(* ===== verification/Multi_Promise.thy ===== *)
theory Multi_Promise
  imports Promise_Core
begin

text \<open>
  Generators: \<open>MultiPromiseCore\<close>, \<open>MultiPromise\<close> with its awaiter, and the coroutine
  promise object \<open>Generator\<close> with its yield awaiter (\<open>promise/multipromise.h\<close>).

  The core extends the promise core by two flags, as the class does. The second half puts a
  generator body and a consuming coroutine side by side on one event loop, both acting only
  through the modelled methods, and shows that the consumer sees exactly the values the
  generator yields, then the end (or the exception) for ever.
\<close>

section \<open>MultiPromiseCore\<close>

record 'v mcore = "'v core" +
  mc_suspended :: bool
  mc_terminated :: bool

definition MultiPromiseCore_init :: "'v mcore" where
  "MultiPromiseCore_init = \<lparr>pc_slot = None, pc_coroutine = None, pc_waiting = None, pc_state = Init,
     mc_suspended = False, mc_terminated = False\<rparr>"

definition MultiPromiseCore_setHandle :: "handle \<Rightarrow> 'v mcore \<Rightarrow> 'v mcore \<times> unit res" where
  "MultiPromiseCore_setHandle h c =
     (if pc_state c = WaitedOn then (c, Abort ''MultiPromise must be co_awaited before next yield'')
      else if pc_waiting c \<noteq> None
        then (c, Abort ''MultiPromise must be co_awaited before next yield'')
      else (c\<lparr>pc_waiting := h, pc_state := WaitedOn\<rparr>, Ok ()))"

definition MultiPromiseCore_resumeGenerator ::
  "'v mcore \<times> loop \<Rightarrow> ('v mcore \<times> loop) \<times> unit res" where
  "MultiPromiseCore_resumeGenerator cl = (case cl of (c, l) \<Rightarrow>
     (if pc_state c = Finished then ((c, l), Abort ''state_ != PromiseState::finished'')
      else if mc_suspended c then
        (if pc_coroutine c = None then ((c, l), Abort ''coroutine_ != nullptr'')
         else ((c\<lparr>mc_suspended := False\<rparr>, Loop_enqueue (pc_coroutine c) l), Ok ()))
      else ((c, l), Ok ())))"

definition MultiPromiseCore_suspendGenerator :: "'v mcore \<Rightarrow> 'v mcore \<times> unit res" where
  "MultiPromiseCore_suspendGenerator c =
     (if mc_suspended c then (c, Abort ''!suspended_'') else (c\<lparr>mc_suspended := True\<rparr>, Ok ()))"

definition MultiPromiseCore_setTerminated :: "'v mcore \<Rightarrow> 'v mcore" where
  "MultiPromiseCore_setTerminated c = c\<lparr>mc_terminated := True\<rparr>"

definition MultiPromiseCore_isTerminated :: "'v mcore \<Rightarrow> bool" where
  "MultiPromiseCore_isTerminated c = mc_terminated c"

text \<open>The last component is the frame that \<open>cancelGenerator()\<close> destroys.\<close>

definition MultiPromiseCore_cancelGenerator ::
  "'v mcore \<Rightarrow> loop \<Rightarrow> 'v mcore \<times> loop \<times> coro option" where
  "MultiPromiseCore_cancelGenerator c l =
     (let c1 = MultiPromiseCore_setTerminated c
      in case pc_coroutine c1 of
           None \<Rightarrow> (c1, l, None)
         | Some f \<Rightarrow> (c1\<lparr>pc_coroutine := None\<rparr>, Loop_cancel f l, Some f))"

section \<open>MultiPromise\<close>

text \<open>
  A \<open>MultiPromise\<close> is a pointer to a core: \<open>None\<close> is null. The methods are given the
  core behind the pointer.
\<close>

definition MultiPromise_ready :: "'v mcore option \<Rightarrow> bool" where
  "MultiPromise_ready p = (case p of
     None \<Rightarrow> True | Some c \<Rightarrow> pc_slot c \<noteq> None \<or> MultiPromiseCore_isTerminated c)"

definition MultiPromise_cancel ::
  "'v mcore option \<Rightarrow> loop \<Rightarrow> 'v mcore option \<times> loop \<times> coro option" where
  "MultiPromise_cancel p l = (case p of
     None \<Rightarrow> (None, l, None)
   | Some c \<Rightarrow> (case MultiPromiseCore_cancelGenerator c l of (c1, l1, f) \<Rightarrow> (None, l1, f)))"

definition MultiPromise_destroy :: "'v mcore option \<Rightarrow> loop \<Rightarrow> loop \<times> coro option" where
  "MultiPromise_destroy p l = (case MultiPromise_cancel p l of (q, l1, f) \<Rightarrow> (l1, f))"

definition MultiPromise_move :: "'v mcore option \<Rightarrow> 'v mcore option \<times> 'v mcore option" where
  "MultiPromise_move other = (other, None)"

text \<open>
  The move assignment calls \<open>destroyCoroutine()\<close> where the destructor calls
  \<open>cancelGenerator()\<close>. The first components are the two pointers afterwards.
\<close>

definition MultiPromise_move_assign ::
  "bool \<Rightarrow> 'v mcore option \<Rightarrow> 'v mcore option \<Rightarrow> loop \<Rightarrow>
   ('v mcore option \<times> 'v mcore option) \<times> loop \<times> coro option" where
  "MultiPromise_move_assign same this other l =
     (if same then ((this, other), l, None)
      else (case this of
              None \<Rightarrow> ((other, None), l, None)
            | Some c \<Rightarrow>
                (case PromiseCore_destroyCoroutine c l of (l1, f) \<Rightarrow> ((other, None), l1, f))))"

definition MultiPromiseAwaiter_await_ready :: "'v mcore option \<Rightarrow> bool" where
  "MultiPromiseAwaiter_await_ready p = (case p of
     None \<Rightarrow> True | Some c \<Rightarrow> MultiPromiseCore_isTerminated c \<or> pc_slot c \<noteq> None)"

definition MultiPromiseAwaiter_await_suspend ::
  "(coro \<Rightarrow> bool) \<Rightarrow> handle \<Rightarrow> 'v mcore option \<times> loop \<Rightarrow> ('v mcore option \<times> loop) \<times> transfer res" where
  "MultiPromiseAwaiter_await_suspend fin h pl = (case pl of (p, l) \<Rightarrow>
     (case p of
        None \<Rightarrow> (case Loop_getNext fin l of (l1, t) \<Rightarrow> ((None, l1), Ok t))
      | Some c \<Rightarrow>
          (if PromiseCore_isAwaited c then ((p, l), Abort ''promise is already being waited on!'')
           else case MultiPromiseCore_setHandle h c of (c1, r1) \<Rightarrow>
             rbind ((Some c1, l), r1) (\<lambda>s u.
               case MultiPromiseCore_resumeGenerator (c1, l) of ((c2, l2), r2) \<Rightarrow>
                 rbind ((Some c2, l2), r2) (\<lambda>s u.
                   case Loop_getNext fin l2 of (l3, t) \<Rightarrow> ((Some c2, l3), Ok t))))))"

definition MultiPromiseAwaiter_await_resume ::
  "'v mcore option \<Rightarrow> 'v mcore option \<times> 'v option res" where
  "MultiPromiseAwaiter_await_resume p = (case p of
     None \<Rightarrow> (None, Ok None)
   | Some c \<Rightarrow>
       (case pc_slot c of
          None \<Rightarrow> (p, Ok None)
        | Some (Inl v) \<Rightarrow> (Some (c\<lparr>pc_slot := None\<rparr>), Ok (Some v))
        | Some (Inr e) \<Rightarrow>
            (if MultiPromiseCore_isTerminated c then (p, Exn e) else (p, Abort ''isTerminated()''))))"

text \<open>
  \<open>next()\<close> is a coroutine around one \<open>co_await\<close>: up to its suspension it either has a result
  already (\<open>Inr\<close>) or transfers control (\<open>Inl\<close>); resumed, it ends with \<open>await_resume()\<close>.
\<close>

definition MultiPromise_next_start ::
  "(coro \<Rightarrow> bool) \<Rightarrow> coro \<Rightarrow> 'v mcore option \<times> loop \<Rightarrow> ('v mcore option \<times> loop) \<times> (transfer + 'v option) res" where
  "MultiPromise_next_start fin self pl = (case pl of (p, l) \<Rightarrow>
     (if MultiPromiseAwaiter_await_ready p
      then (case MultiPromiseAwaiter_await_resume p of (p1, r) \<Rightarrow>
              rbind ((p1, l), r) (\<lambda>s v. (s, Ok (Inr v))))
      else rbind (MultiPromiseAwaiter_await_suspend fin (Some self) (p, l)) (\<lambda>s t. (s, Ok (Inl t)))))"

definition MultiPromise_next_end :: "'v mcore option \<Rightarrow> 'v mcore option \<times> 'v option res" where
  "MultiPromise_next_end p = MultiPromiseAwaiter_await_resume p"

section \<open>Generator\<close>

definition Generator_get_return_object :: "'v mcore \<Rightarrow> 'v mcore option" where
  "Generator_get_return_object c = Some c"

definition Generator_initial_suspend :: "coro \<Rightarrow> 'v mcore \<Rightarrow> 'v mcore \<times> unit res" where
  "Generator_initial_suspend self c = PromiseCore_setRunning (Some self) c"

definition Generator_return_void :: "'v mcore \<times> loop \<Rightarrow> ('v mcore \<times> loop) \<times> unit res" where
  "Generator_return_void cl = (case cl of (c, l) \<Rightarrow>
     PromiseCore_resume (MultiPromiseCore_setTerminated c, l))"

definition Generator_unhandled_exception ::
  "exn \<Rightarrow> 'v mcore \<times> loop \<Rightarrow> ('v mcore \<times> loop) \<times> unit res" where
  "Generator_unhandled_exception e cl = (case cl of (c, l) \<Rightarrow>
     PromiseCore_resume (MultiPromiseCore_setTerminated (c\<lparr>pc_slot := Some (Inr e)\<rparr>), l))"

definition Generator_yield_value :: "'v \<Rightarrow> 'v mcore \<times> loop \<Rightarrow> ('v mcore \<times> loop) \<times> unit res" where
  "Generator_yield_value v cl = (case cl of (c, l) \<Rightarrow>
     (if pc_slot c \<noteq> None then ((c, l), Abort ''!core_.slot'')
      else PromiseCore_resume (c\<lparr>pc_slot := Some (Inl v)\<rparr>, l)))"

definition YieldAwaiter_await_ready :: "'v mcore \<Rightarrow> bool" where
  "YieldAwaiter_await_ready c \<longleftrightarrow> pc_slot c = None"

definition YieldAwaiter_await_suspend :: "'v mcore \<Rightarrow> 'v mcore \<times> unit res" where
  "YieldAwaiter_await_suspend c = MultiPromiseCore_suspendGenerator c"

section \<open>A generator and its consumer\<close>

text \<open>
  A generator body yields, waits for something else (\<open>co_await\<close> of an unrelated awaiter),
  returns or throws. The generator is coroutine 0, its consumer coroutine 1; the consumer
  awaits the \<open>MultiPromise\<close> as often as it likes.
\<close>

datatype 'v gbody = GYield 'v "'v gbody" | GWait "'v gbody" | GReturn | GThrow exn

datatype 'v gstate =
    GRunning "'v gbody"
  | GAtYield "'v gbody"
  | GAtWait "'v gbody"
  | GWoken "'v gbody"
  | GDone

record 'v gsys =
  gs_core :: "'v mcore"
  gs_loop :: loop
  gs_gen :: "'v gstate"
  gs_awaiting :: bool
  gs_got :: "'v option res list"

definition gen_handle :: coro where
  "gen_handle = 0"

definition cons_handle :: coro where
  "cons_handle = 1"

definition gs_fin :: "'v gsys \<Rightarrow> coro \<Rightarrow> bool" where
  "gs_fin s c \<longleftrightarrow> c = gen_handle \<and> (case gs_gen s of GDone \<Rightarrow> True | _ \<Rightarrow> False)"

text \<open>The consumer obtains the result of its \<open>co_await\<close>.\<close>

definition gs_receive :: "'v gsys \<Rightarrow> 'v gsys \<times> unit res" where
  "gs_receive s = (case MultiPromiseAwaiter_await_resume (Some (gs_core s)) of
     (p, Abort m) \<Rightarrow> (s, Abort m)
   | (p, r) \<Rightarrow> (s\<lparr>gs_core := the p, gs_awaiting := False, gs_got := gs_got s @ [r]\<rparr>, Ok ()))"

text \<open>A handle taken from the queue is resumed.\<close>

definition gs_resume :: "transfer \<Rightarrow> 'v gsys \<Rightarrow> 'v gsys \<times> unit res" where
  "gs_resume t s = (case t of
     noop_coroutine \<Rightarrow> (s, Ok ())
   | Coro c \<Rightarrow>
       (if c = gen_handle then
          (case gs_gen s of
             GAtYield b \<Rightarrow> (s\<lparr>gs_gen := GRunning b\<rparr>, Ok ())
           | GWoken b \<Rightarrow> (s\<lparr>gs_gen := GRunning b\<rparr>, Ok ())
           | _ \<Rightarrow> (s, Abort ''resume of a generator that is not suspended''))
        else if gs_awaiting s then gs_receive s
        else (s, Abort ''resume of a consumer that is not suspended'')))"

text \<open>The consumer executes \<open>co_await multiPromise\<close>.\<close>

definition gs_await :: "'v gsys \<Rightarrow> 'v gsys \<times> unit res" where
  "gs_await s =
     (if MultiPromiseAwaiter_await_ready (Some (gs_core s)) then gs_receive s
      else (case MultiPromiseAwaiter_await_suspend (gs_fin s) (Some cons_handle)
                   (Some (gs_core s), gs_loop s) of
              ((p, l), Ok t) \<Rightarrow> gs_resume t (s\<lparr>gs_core := the p, gs_awaiting := True, gs_loop := l\<rparr>)
            | ((p, l), Exn e) \<Rightarrow> (s, Exn e)
            | ((p, l), Abort m) \<Rightarrow> (s, Abort m)))"

text \<open>The generator executes up to and including its next \<open>co_yield\<close>, \<open>co_await\<close> or end.\<close>

definition gs_generate :: "'v gbody \<Rightarrow> 'v gsys \<Rightarrow> 'v gsys \<times> unit res" where
  "gs_generate b s = (case b of
     GYield v b1 \<Rightarrow>
       (case Generator_yield_value v (gs_core s, gs_loop s) of ((c, l), r) \<Rightarrow>
          rbind (s\<lparr>gs_core := c, gs_loop := l\<rparr>, r) (\<lambda>s1 u.
            if YieldAwaiter_await_ready (gs_core s1) then (s1\<lparr>gs_gen := GRunning b1\<rparr>, Ok ())
            else (case YieldAwaiter_await_suspend (gs_core s1) of (c2, r2) \<Rightarrow>
                    (s1\<lparr>gs_core := c2, gs_gen := GAtYield b1\<rparr>, r2))))
   | GWait b1 \<Rightarrow> (s\<lparr>gs_gen := GAtWait b1\<rparr>, Ok ())
   | GReturn \<Rightarrow>
       (case Generator_return_void (gs_core s, gs_loop s) of ((c, l), r) \<Rightarrow>
          (s\<lparr>gs_core := c, gs_loop := l, gs_gen := GDone\<rparr>, r))
   | GThrow e \<Rightarrow>
       (case Generator_unhandled_exception e (gs_core s, gs_loop s) of ((c, l), r) \<Rightarrow>
          (s\<lparr>gs_core := c, gs_loop := l, gs_gen := GDone\<rparr>, r)))"

text \<open>
  What can happen next. A running generator runs on; otherwise the consumer may await, the
  event the generator waits for may arrive, or the event loop takes the next handle. An action
  that does not apply changes nothing.
\<close>

datatype gaction = ConsumerAwaits | EventArrives | LoopTurns | GeneratorRuns

definition gs_step :: "gaction \<Rightarrow> 'v gsys \<Rightarrow> 'v gsys \<times> unit res" where
  "gs_step a s = (case gs_gen s of
     GRunning b \<Rightarrow> (if a = GeneratorRuns then gs_generate b s else (s, Ok ()))
   | _ \<Rightarrow> (case a of
        ConsumerAwaits \<Rightarrow> (if gs_awaiting s then (s, Ok ()) else gs_await s)
      | EventArrives \<Rightarrow> (case gs_gen s of
          GAtWait b \<Rightarrow> (s\<lparr>gs_gen := GWoken b, gs_loop := Loop_enqueue (Some gen_handle) (gs_loop s)\<rparr>, Ok ())
        | _ \<Rightarrow> (s, Ok ()))
      | LoopTurns \<Rightarrow>
          (case Loop_getNext (gs_fin s) (gs_loop s) of (l, t) \<Rightarrow> gs_resume t (s\<lparr>gs_loop := l\<rparr>))
      | GeneratorRuns \<Rightarrow> (s, Ok ())))"

fun gs_run :: "gaction list \<Rightarrow> 'v gsys \<Rightarrow> 'v gsys \<times> unit res" where
  "gs_run [] s = (s, Ok ())"
| "gs_run (a # as) s = rbind (gs_step a s) (\<lambda>s1 u. gs_run as s1)"

definition gs_start :: "'v gbody \<Rightarrow> 'v gsys" where
  "gs_start b = \<lparr>gs_core = fst (Generator_initial_suspend gen_handle MultiPromiseCore_init),
     gs_loop = Loop_init, gs_gen = GRunning b, gs_awaiting = False, gs_got = []\<rparr>"

section \<open>The specification: a generator is a stream\<close>

fun yields :: "'v gbody \<Rightarrow> 'v list" where
  "yields (GYield v b) = v # yields b"
| "yields (GWait b) = yields b"
| "yields GReturn = []"
| "yields (GThrow e) = []"

fun gend :: "'v gbody \<Rightarrow> 'v option res" where
  "gend (GYield v b) = gend b"
| "gend (GWait b) = gend b"
| "gend GReturn = Ok None"
| "gend (GThrow e) = Exn e"

definition expected :: "'v gbody \<Rightarrow> nat \<Rightarrow> 'v option res" where
  "expected b i = (if i < length (yields b) then Ok (Some (yields b ! i)) else gend b)"

section \<open>The invariant\<close>

abbreviation gs_queue :: "'v gsys \<Rightarrow> handle list" where
  "gs_queue s \<equiv> resumable (loop_scheduler (gs_loop s))"

definition slot_values :: "'v mcore \<Rightarrow> 'v list" where
  "slot_values c = (case pc_slot c of Some (Inl v) \<Rightarrow> [v] | _ \<Rightarrow> [])"

definition end_slot :: "'v gbody \<Rightarrow> ('v + exn) option" where
  "end_slot b = (case gend b of Exn e \<Rightarrow> Some (Inr e) | _ \<Rightarrow> None)"

text \<open>Where the generator is and what it still has to yield.\<close>

definition gen_inv :: "'v gbody \<Rightarrow> 'v gsys \<Rightarrow> bool" where
  "gen_inv b0 s \<longleftrightarrow> (let c = gs_core s; queued = (Some gen_handle \<in> set (gs_queue s)) in
     case gs_gen s of
       GRunning b \<Rightarrow> \<not> queued \<and> \<not> mc_suspended c \<and> \<not> mc_terminated c \<and> pc_slot c = None
     | GAtYield b \<Rightarrow> (queued \<longleftrightarrow> \<not> mc_suspended c) \<and> \<not> mc_terminated c \<and>
         (queued \<longrightarrow> pc_slot c = None) \<and> (\<forall>e. pc_slot c \<noteq> Some (Inr e)) \<and>
         (pc_waiting c \<noteq> None \<longrightarrow> queued)
     | GAtWait b \<Rightarrow> \<not> queued \<and> \<not> mc_suspended c \<and> \<not> mc_terminated c \<and> pc_slot c = None
     | GWoken b \<Rightarrow> queued \<and> \<not> mc_suspended c \<and> \<not> mc_terminated c \<and> pc_slot c = None
     | GDone \<Rightarrow> \<not> queued \<and> \<not> mc_suspended c \<and> mc_terminated c \<and> pc_slot c = end_slot b0)"

text \<open>Where the consumer is.\<close>

definition cons_inv :: "'v gsys \<Rightarrow> bool" where
  "cons_inv s \<longleftrightarrow> (let c = gs_core s; queued = (Some cons_handle \<in> set (gs_queue s)) in
     if gs_awaiting s then
       (if queued then pc_waiting c = None \<and> pc_state c = Finished \<and> (pc_slot c \<noteq> None \<or> mc_terminated c)
        else pc_waiting c = Some cons_handle \<and> pc_state c = WaitedOn \<and> pc_slot c = None \<and> \<not> mc_terminated c)
     else \<not> queued \<and> pc_waiting c = None \<and> pc_state c \<noteq> WaitedOn)"

text \<open>What the consumer has seen.\<close>

definition got_inv :: "'v gbody \<Rightarrow> 'v gsys \<Rightarrow> bool" where
  "got_inv b0 s \<longleftrightarrow> (\<exists>vs k. gs_got s = map (\<lambda>v. Ok (Some v)) vs @ replicate k (gend b0) \<and>
     (\<forall>b. gs_gen s \<in> {GRunning b, GAtYield b, GAtWait b, GWoken b} \<longrightarrow>
        k = 0 \<and> yields b0 = vs @ slot_values (gs_core s) @ yields b \<and> gend b0 = gend b) \<and>
     (gs_gen s = GDone \<longrightarrow> vs = yields b0))"

definition gs_inv :: "'v gbody \<Rightarrow> 'v gsys \<Rightarrow> bool" where
  "gs_inv b0 s \<longleftrightarrow> pc_coroutine (gs_core s) = Some gen_handle \<and>
     distinct (gs_queue s) \<and> set (gs_queue s) \<subseteq> {Some gen_handle, Some cons_handle} \<and>
     gen_inv b0 s \<and> cons_inv s \<and> got_inv b0 s"

text \<open>The event loop takes the next handle.\<close>

definition gs_turn :: "'v gsys \<Rightarrow> 'v gsys \<times> unit res" where
  "gs_turn s = (case Loop_getNext (gs_fin s) (gs_loop s) of (l, t) \<Rightarrow> gs_resume t (s\<lparr>gs_loop := l\<rparr>))"

section \<open>Every action keeps the invariant\<close>

lemma gend_cases: "gend b = Ok None \<or> (\<exists>e. gend b = Exn e)"
  by (induction b) auto

lemma handles [simp]: "gen_handle \<noteq> cons_handle" "cons_handle \<noteq> gen_handle"
  by (simp_all add: gen_handle_def cons_handle_def)

lemma gs_receive_inv:
  assumes inv: "gs_inv b0 (s\<lparr>gs_awaiting := False\<rparr>)"
    and r: "pc_slot (gs_core s) \<noteq> None \<or> mc_terminated (gs_core s)"
  shows "\<exists>s'. gs_receive s = (s', Ok ()) \<and> gs_inv b0 s' \<and> gs_gen s' = gs_gen s"
proof (cases "gs_gen s = GDone")
  case True
  from inv True have c: "mc_terminated (gs_core s)" "pc_slot (gs_core s) = end_slot b0"
    by (auto simp: gs_inv_def gen_inv_def Let_def)
  then have "gs_receive s = (s\<lparr>gs_awaiting := False, gs_got := gs_got s @ [gend b0]\<rparr>, Ok ())"
    using gend_cases [of b0]
    by (auto simp: gs_receive_def MultiPromiseAwaiter_await_resume_def end_slot_def
        MultiPromiseCore_isTerminated_def)
  moreover have "got_inv b0 (s\<lparr>gs_awaiting := False, gs_got := gs_got s @ [gend b0]\<rparr>)"
  proof -
    from inv True obtain k where "gs_got s = map (\<lambda>v. Ok (Some v)) (yields b0) @ replicate k (gend b0)"
      by (auto simp: gs_inv_def got_inv_def)
    then show ?thesis using True
      by (auto simp: got_inv_def replicate_append_same intro!: exI [of _ "yields b0"] exI [of _ "Suc k"])
  qed
  ultimately show ?thesis using inv True
    by (auto simp: gs_inv_def gen_inv_def cons_inv_def Let_def)
next
  case False
  with inv r obtain b v where b: "gs_gen s = GAtYield b" "pc_slot (gs_core s) = Some (Inl v)"
    by (auto simp: gs_inv_def gen_inv_def Let_def split: gstate.splits) (metis sum.exhaust)+
  then have "gs_receive s = (s\<lparr>gs_core := (gs_core s)\<lparr>pc_slot := None\<rparr>, gs_awaiting := False,
      gs_got := gs_got s @ [Ok (Some v)]\<rparr>, Ok ())" (is "_ = (?t, _)")
    by (simp add: gs_receive_def MultiPromiseAwaiter_await_resume_def)
  moreover have "got_inv b0 ?t"
    using inv b by (fastforce simp: gs_inv_def got_inv_def slot_values_def intro: exI [of _ "_ @ [v]"])
  ultimately show ?thesis using inv b
    by (auto simp: gs_inv_def gen_inv_def cons_inv_def Let_def)
qed


lemma gs_turn_inv:
  assumes inv: "gs_inv b0 s"
  shows "\<exists>s'. gs_turn s = (s', Ok ()) \<and> gs_inv b0 s'"
proof (cases "gs_queue s")
  case Nil
  with inv show ?thesis by (simp add: gs_turn_def loop_getNext_head(2) gs_resume_def)
next
  case (Cons h rs)
  let ?l = "(gs_loop s)\<lparr>loop_scheduler := (loop_scheduler (gs_loop s))\<lparr>resumable := rs\<rparr>\<rparr>"
  have h: "h = Some gen_handle \<or> h = Some cons_handle" using inv Cons by (auto simp: gs_inv_def)
  have d: "h \<notin> set rs" "distinct rs" "set rs \<subseteq> {Some gen_handle, Some cons_handle}"
    using inv Cons by (auto simp: gs_inv_def)
  show ?thesis
  proof (cases "h = Some gen_handle")
    case True
    with inv Cons obtain b where b: "gs_gen s = GAtYield b \<or> gs_gen s = GWoken b"
      by (cases "gs_gen s") (auto simp: gs_inv_def gen_inv_def Let_def)
    then have "\<not> gs_fin s gen_handle" by (auto simp: gs_fin_def)
    with True b Cons have "gs_turn s = (s\<lparr>gs_loop := ?l, gs_gen := GRunning b\<rparr>, Ok ())"
      by (auto simp: gs_turn_def loop_getNext_head(1) gs_resume_def)
    moreover have "gs_inv b0 (s\<lparr>gs_loop := ?l, gs_gen := GRunning b\<rparr>)"
      using inv Cons d True b
      by (auto simp: gs_inv_def gen_inv_def cons_inv_def got_inv_def Let_def)
    ultimately show ?thesis by blast
  next
    case False
    with h have h: "h = Some cons_handle" by simp
    then have "\<not> gs_fin s cons_handle" by (auto simp: gs_fin_def)
    moreover have aw: "gs_awaiting s" using inv h Cons by (auto simp: gs_inv_def cons_inv_def Let_def split: if_splits)
    ultimately have "gs_turn s = gs_receive (s\<lparr>gs_loop := ?l\<rparr>)"
      using h Cons by (simp add: gs_turn_def loop_getNext_head(1) gs_resume_def)
    moreover have "gs_inv b0 (s\<lparr>gs_loop := ?l, gs_awaiting := False\<rparr>)"
      using inv Cons d h aw
      by (auto simp: gs_inv_def gen_inv_def cons_inv_def got_inv_def Let_def split: gstate.splits)
    moreover have "pc_slot (gs_core s) \<noteq> None \<or> mc_terminated (gs_core s)"
      using inv Cons h aw by (auto simp: gs_inv_def cons_inv_def Let_def)
    ultimately show ?thesis using gs_receive_inv [of b0 "s\<lparr>gs_loop := ?l\<rparr>"] by auto
  qed
qed

lemma gs_await_inv:
  assumes inv: "gs_inv b0 s" and aw: "\<not> gs_awaiting s" and run: "\<And>b. gs_gen s \<noteq> GRunning b"
  shows "\<exists>s'. gs_await s = (s', Ok ()) \<and> gs_inv b0 s'"
proof (cases "MultiPromiseAwaiter_await_ready (Some (gs_core s))")
  case True
  have "s\<lparr>gs_awaiting := False\<rparr> = s" using aw by (cases s) simp
  with True inv gs_receive_inv [of b0 s] show ?thesis
    by (auto simp: gs_await_def MultiPromiseAwaiter_await_ready_def MultiPromiseCore_isTerminated_def)
next
  case False
  let ?w = "(gs_core s)\<lparr>pc_waiting := Some cons_handle, pc_state := WaitedOn\<rparr>"
  let ?c = "if mc_suspended (gs_core s) then ?w\<lparr>mc_suspended := False\<rparr> else ?w"
  let ?l = "if mc_suspended (gs_core s) then Loop_enqueue (Some gen_handle) (gs_loop s) else gs_loop s"
  let ?t = "s\<lparr>gs_core := ?c, gs_awaiting := True, gs_loop := ?l\<rparr>"
  have c: "\<not> mc_terminated (gs_core s)" "pc_slot (gs_core s) = None"
    using False by (auto simp: MultiPromiseAwaiter_await_ready_def MultiPromiseCore_isTerminated_def)
  have w: "pc_waiting (gs_core s) = None" "pc_state (gs_core s) \<noteq> WaitedOn"
    "pc_coroutine (gs_core s) = Some gen_handle"
    using inv aw by (auto simp: gs_inv_def cons_inv_def Let_def)
  have "gs_fin ?t = gs_fin s" by (simp add: gs_fin_def fun_eq_iff)
  then have "gs_await s = gs_turn ?t"
    using False w
    by (auto simp: gs_await_def gs_turn_def MultiPromiseAwaiter_await_suspend_def PromiseCore_isAwaited_def
        MultiPromiseCore_setHandle_def MultiPromiseCore_resumeGenerator_def split: prod.split)
  moreover have "gs_inv b0 ?t"
    using inv aw c w run
    by (cases "gs_gen s"; cases "mc_suspended (gs_core s)")
       (auto simp: gs_inv_def gen_inv_def cons_inv_def got_inv_def Let_def Scheduler_enqueue_def slot_values_def)
  ultimately show ?thesis using gs_turn_inv [of b0 ?t] by simp
qed

lemma gs_generate_inv:
  assumes inv: "gs_inv b0 s" and run: "gs_gen s = GRunning b"
  shows "\<exists>s'. gs_generate b s = (s', Ok ()) \<and> gs_inv b0 s'"
proof -
  have c: "\<not> mc_terminated (gs_core s)" "pc_slot (gs_core s) = None" "\<not> mc_suspended (gs_core s)"
    "Some gen_handle \<notin> set (gs_queue s)"
    using inv run by (auto simp: gs_inv_def gen_inv_def Let_def)
  note defs = gs_generate_def Generator_yield_value_def Generator_return_void_def
    Generator_unhandled_exception_def PromiseCore_resume_def YieldAwaiter_await_ready_def
    YieldAwaiter_await_suspend_def MultiPromiseCore_suspendGenerator_def MultiPromiseCore_setTerminated_def
    Scheduler_enqueue_def
  note invs = gs_inv_def gen_inv_def cons_inv_def Let_def
  have got: "got_inv b0 s" using inv by (simp add: gs_inv_def)
  show ?thesis
  proof (cases b)
    case (GYield v b1)
    have "got_inv b0 t" if "gs_got t = gs_got s" "gs_gen t = GAtYield b1" "pc_slot (gs_core t) = Some (Inl v)" for t
      using got run c GYield that by (auto simp: got_inv_def slot_values_def)
    then show ?thesis using inv run c GYield
      by (cases "pc_waiting (gs_core s)") (auto simp: defs invs split: if_splits)
  next
    case (GWait b1)
    with inv run c show ?thesis by (auto simp: defs invs got_inv_def)
  next
    case GReturn
    then show ?thesis using inv run c got
      by (cases "pc_waiting (gs_core s)") (auto simp: defs invs got_inv_def end_slot_def slot_values_def split: if_splits)
  next
    case (GThrow e)
    then show ?thesis using inv run c got
      by (cases "pc_waiting (gs_core s)") (auto simp: defs invs got_inv_def end_slot_def slot_values_def split: if_splits)
  qed
qed

lemma gs_step_inv:
  assumes inv: "gs_inv b0 s"
  shows "\<exists>s'. gs_step a s = (s', Ok ()) \<and> gs_inv b0 s'"
proof (cases "\<exists>b. gs_gen s = GRunning b")
  case True
  with gs_generate_inv [OF inv] inv show ?thesis by (auto simp: gs_step_def)
next
  case False
  show ?thesis
  proof (cases a)
    case ConsumerAwaits
    with False inv gs_await_inv [OF inv] show ?thesis
      by (cases "gs_gen s") (auto simp: gs_step_def)
  next
    case EventArrives
    with False inv show ?thesis
      by (cases "gs_gen s")
         (auto simp: gs_step_def gs_inv_def gen_inv_def cons_inv_def got_inv_def Let_def
           Scheduler_enqueue_def)
  next
    case LoopTurns
    with False inv gs_turn_inv [OF inv] show ?thesis
      by (cases "gs_gen s") (auto simp: gs_step_def gs_turn_def)
  next
    case GeneratorRuns
    with False inv show ?thesis by (cases "gs_gen s") (auto simp: gs_step_def)
  qed
qed


lemma gs_start_inv: "gs_inv b (gs_start b)"
  by (auto simp: gs_start_def gs_inv_def gen_inv_def cons_inv_def got_inv_def Let_def slot_values_def
      Generator_initial_suspend_def PromiseCore_setRunning_def MultiPromiseCore_init_def Loop_init_def
      intro!: exI [of _ "[]"] exI [of _ 0])

lemma gs_run_inv: "gs_inv b0 s \<Longrightarrow> \<exists>s'. gs_run as s = (s', Ok ()) \<and> gs_inv b0 s'"
proof (induction as arbitrary: s)
  case (Cons a as)
  obtain s1 where "gs_step a s = (s1, Ok ())" "gs_inv b0 s1" using gs_step_inv [OF Cons.prems] by blast
  with Cons.IH [of s1] show ?case by simp
qed simp

lemma gs_got_expected:
  assumes "gs_inv b s"
  shows "gs_got s = map (expected b) [0..<length (gs_got s)]"
proof -
  obtain vs k where v: "gs_got s = map (\<lambda>v. Ok (Some v)) vs @ replicate k (gend b)"
    "\<And>b'. gs_gen s \<in> {GRunning b', GAtYield b', GAtWait b', GWoken b'} \<Longrightarrow>
        k = 0 \<and> yields b = vs @ slot_values (gs_core s) @ yields b'" "gs_gen s = GDone \<Longrightarrow> vs = yields b"
    using assms unfolding gs_inv_def got_inv_def by blast
  then have "vs = yields b \<or> k = 0 \<and> (\<exists>ws. yields b = vs @ ws)" by (cases "gs_gen s") auto
  with v(1) show ?thesis
    by (intro nth_equalityI) (auto simp: expected_def nth_append)
qed

section \<open>The properties of generators\<close>

text \<open>
  C5: A consumer that awaits a \<open>MultiPromise\<close> over and over sees exactly what the
  generator yields, in order and without loss or repetition, and after the last value
  \<open>nullopt\<close> for ever, or for ever the exception the generator threw. This holds for every
  interleaving of the two coroutines, and no assertion of the multipromise core or of the
  awaiters fails.
\<close>

theorem generator_is_stream:
  "\<exists>s. gs_run as (gs_start b) = (s, Ok ()) \<and> gs_got s = map (expected b) [0..<length (gs_got s)]"
  using gs_run_inv [OF gs_start_inv] gs_got_expected by blast

text \<open>
  C13: A waiting consumer is never stuck: the generator is running, waits for its own event, or
  one of the two coroutines is scheduled.
\<close>

theorem generator_no_lost_wakeup:
  assumes "gs_run as (gs_start b) = (s, Ok ())" "gs_awaiting s"
  shows "gs_queue s \<noteq> [] \<or> (\<exists>b'. gs_gen s = GRunning b' \<or> gs_gen s = GAtWait b')"
proof -
  have "gs_inv b s" using gs_run_inv [OF gs_start_inv [of b], of as] assms(1) by auto
  with assms(2) show ?thesis
    by (cases "gs_gen s") (auto simp: gs_inv_def gen_inv_def cons_inv_def Let_def split: if_splits)
qed

theorem generator_no_lost_wakeup_witness:
  "\<exists>s. gs_run [GeneratorRuns, ConsumerAwaits, ConsumerAwaits, GeneratorRuns] (gs_start (GYield (1::nat) (GWait GReturn))) = (s, Ok ()) \<and>
     gs_awaiting s \<and> (0 < length (gs_queue s) \<or> (\<exists>b'. gs_gen s = GRunning b' \<or> gs_gen s = GAtWait b'))"
proof -
  let ?r = "gs_run [GeneratorRuns, ConsumerAwaits, ConsumerAwaits, GeneratorRuns] (gs_start (GYield (1::nat) (GWait GReturn)))"
  have "snd ?r = Ok ()" by code_simp
  then have r: "?r = (fst ?r, Ok ())" by (metis prod.collapse)
  have a: "gs_awaiting (fst ?r)" by code_simp
  from generator_no_lost_wakeup [OF r a] r a show ?thesis by (metis length_greater_0_conv)
qed

end
