(* ===== verification/Select_Set.thy ===== *)
theory Select_Set
  imports Promise_Core
begin

text \<open>
  \<open>SelectSet\<close> of \<open>src/uvco/promise/select.h\<close> and the combinators on top of it
  (\<open>waitAny\<close>, \<open>race\<close>, \<open>raceIgnore\<close> of \<open>combinators.h\<close>): a coroutine waits for
  several promises at once.

  A select set holds references to the promises; here it is given their cores, one per argument,
  and the fold over the parameter pack is a recursion over that list.
\<close>

section \<open>SelectSet\<close>

record select_set =
  ss_suspended :: handle
  ss_resumed :: bool

definition SelectSet_init :: select_set where
  "SelectSet_init = \<lparr>ss_suspended = None, ss_resumed = False\<rparr>"

definition SelectSet_await_ready :: "'v core list \<Rightarrow> select_set \<Rightarrow> select_set \<times> bool res" where
  "SelectSet_await_ready cs ss =
     (if ss_resumed ss then (ss, Abort ''A select set can only be used once'')
      else let isReady = list_ex PromiseCore_ready cs
           in (ss\<lparr>ss_resumed := ss_resumed ss \<or> isReady\<rparr>, Ok isReady))"

text \<open>
  The handle is stored in every promise that is not stale, in argument order; \<open>setHandle()\<close>
  throws for a promise that somebody else awaits, and the rest is not reached.
\<close>

fun SelectSet_register :: "handle \<Rightarrow> 'v core list \<Rightarrow> 'v core list \<times> unit res" where
  "SelectSet_register h [] = ([], Ok ())"
| "SelectSet_register h (c # cs) =
     (case (if \<not> PromiseCore_stale c then PromiseCore_setHandle h c else (c, Ok ())) of
        (c1, Ok u) \<Rightarrow> (case SelectSet_register h cs of (cs1, r) \<Rightarrow> (c1 # cs1, r))
      | (c1, Exn e) \<Rightarrow> (c1 # cs, Exn e)
      | (c1, Abort m) \<Rightarrow> (c1 # cs, Abort m))"

definition SelectSet_await_suspend ::
  "(coro \<Rightarrow> bool) \<Rightarrow> handle \<Rightarrow> 'v core list \<Rightarrow> select_set \<Rightarrow> loop \<Rightarrow>
   ('v core list \<times> select_set \<times> loop) \<times> transfer res" where
  "SelectSet_await_suspend fin h cs ss l =
     (case SelectSet_register h cs of (cs1, r) \<Rightarrow>
        rbind ((cs1, ss, l), r) (\<lambda>s u.
          case Loop_getNext fin l of (l1, t) \<Rightarrow> ((cs1, ss\<lparr>ss_suspended := h\<rparr>, l1), Ok t)))"

text \<open>
  \<open>checkPromises<Ix>()\<close>: the indices of the ready promises; the others are reset.
\<close>

fun SelectSet_checkPromises :: "nat \<Rightarrow> 'v core list \<Rightarrow> 'v core list \<times> nat list res" where
  "SelectSet_checkPromises ix [] = ([], Ok [])"
| "SelectSet_checkPromises ix (c # cs) =
     (if PromiseCore_ready c
      then (case SelectSet_checkPromises (Suc ix) cs of (cs1, r) \<Rightarrow> (c # cs1, map_res (\<lambda>is. ix # is) r))
      else (case PromiseCore_resetHandle c of
              (c1, Ok u) \<Rightarrow> (case SelectSet_checkPromises (Suc ix) cs of (cs1, r) \<Rightarrow> (c1 # cs1, r))
            | (c1, Exn e) \<Rightarrow> (c1 # cs, Exn e)
            | (c1, Abort m) \<Rightarrow> (c1 # cs, Abort m)))"

definition SelectSet_await_resume ::
  "'v core list \<Rightarrow> select_set \<Rightarrow> loop \<Rightarrow> ('v core list \<times> select_set \<times> loop) \<times> nat list res" where
  "SelectSet_await_resume cs ss l =
     (let ss1 = ss\<lparr>ss_resumed := True\<rparr>
      in case SelectSet_checkPromises 0 cs of (cs1, r) \<Rightarrow>
           rbind ((cs1, ss1, l), r) (\<lambda>s ready.
             case ss_suspended ss1 of
               Some h \<Rightarrow> ((cs1, ss1\<lparr>ss_suspended := None\<rparr>, Loop_cancel h l), Ok ready)
             | None \<Rightarrow> ((cs1, ss1, l), Ok ready)))"

text \<open>The destructor of a select set that was not resumed resets every promise.\<close>

fun SelectSet_reset_all :: "'v core list \<Rightarrow> 'v core list \<times> unit res" where
  "SelectSet_reset_all [] = ([], Ok ())"
| "SelectSet_reset_all (c # cs) =
     (case PromiseCore_resetHandle c of
        (c1, Ok u) \<Rightarrow> (case SelectSet_reset_all cs of (cs1, r) \<Rightarrow> (c1 # cs1, r))
      | (c1, Exn e) \<Rightarrow> (c1 # cs, Exn e)
      | (c1, Abort m) \<Rightarrow> (c1 # cs, Abort m))"

definition SelectSet_destroy :: "'v core list \<Rightarrow> select_set \<Rightarrow> 'v core list \<times> unit res" where
  "SelectSet_destroy cs ss = (if \<not> ss_resumed ss then SelectSet_reset_all cs else (cs, Ok ()))"

section \<open>waitAny and race (combinators.h)\<close>

text \<open>The loop of \<open>waitAny()\<close>: the ready promises are unwrapped, with their index.\<close>

fun waitAny_unwrap :: "nat list \<Rightarrow> 'v core list \<Rightarrow> 'v core list \<times> (nat \<times> 'v) list res" where
  "waitAny_unwrap [] cs = (cs, Ok [])"
| "waitAny_unwrap (i # is) cs =
     (case Promise_unwrap (cs ! i) of (c, r) \<Rightarrow>
        rbind (cs[i := c], r) (\<lambda>cs1 v.
          case waitAny_unwrap is cs1 of (cs2, r2) \<Rightarrow> (cs2, map_res (\<lambda>vs. (i, v) # vs) r2)))"

text \<open>What \<open>waitAny()\<close> does once its \<open>co_await\<close> continues.\<close>

definition waitAny_resume ::
  "'v core list \<Rightarrow> select_set \<Rightarrow> loop \<Rightarrow>
   ('v core list \<times> select_set \<times> loop) \<times> (nat \<times> 'v) list res" where
  "waitAny_resume cs ss l =
     rbind (SelectSet_await_resume cs ss l) (\<lambda>s ready.
       case s of (cs1, ss1, l1) \<Rightarrow>
         (case waitAny_unwrap ready cs1 of (cs2, r) \<Rightarrow> ((cs2, ss1, l1), r)))"

text \<open>
  \<open>race(promises...)\<close> owns its promises: after \<open>waitAny\<close> the unfinished ones are
  destroyed, and their coroutines with them. The last component lists the destroyed frames.
\<close>

fun destroy_promises :: "'v core list \<Rightarrow> loop \<Rightarrow> loop \<times> coro list" where
  "destroy_promises [] l = (l, [])"
| "destroy_promises (c # cs) l =
     (case PromiseCore_destroyCoroutine c l of (l1, f) \<Rightarrow>
        (case destroy_promises cs l1 of (l2, fs) \<Rightarrow>
           (l2, (case f of None \<Rightarrow> [] | Some d \<Rightarrow> [d]) @ fs)))"

definition race_resume ::
  "'v core list \<Rightarrow> select_set \<Rightarrow> loop \<Rightarrow> loop \<times> coro list \<times> (nat \<times> 'v) list res" where
  "race_resume cs ss l =
     (case waitAny_resume cs ss l of ((cs1, ss1, l1), r) \<Rightarrow>
        (case destroy_promises cs1 l1 of (l2, fs) \<Rightarrow> (l2, fs, r)))"

definition raceIgnore_resume :: "'v core list \<Rightarrow> select_set \<Rightarrow> loop \<Rightarrow> loop \<times> coro list \<times> unit res" where
  "raceIgnore_resume cs ss l =
     (case SelectSet_await_resume cs ss l of ((cs1, ss1, l1), r) \<Rightarrow>
        (case destroy_promises cs1 l1 of (l2, fs) \<Rightarrow> (l2, fs, map_res (\<lambda>ready. ()) r)))"

section \<open>A select, while the promises run\<close>

text \<open>
  After the registration any of the promises may finish, in any order, before the waiting
  coroutine runs again: \<open>select_finish\<close> is one such event.
\<close>

definition select_finish ::
  "nat \<times> ('v + exn) \<Rightarrow> 'v core list \<times> loop \<Rightarrow> 'v core list \<times> loop" where
  "select_finish ev s = (case ev of (i, r) \<Rightarrow> (case s of (cs, l) \<Rightarrow>
     (if i < length cs \<and> pc_state (cs ! i) \<noteq> Finished
      then (case core_finish r (cs ! i, l) of ((c, l1), u) \<Rightarrow> (cs[i := c], l1))
      else (cs, l))))"

definition mentions :: "coro \<Rightarrow> 'v core list \<Rightarrow> loop \<Rightarrow> bool" where
  "mentions h cs l \<longleftrightarrow> list_ex (\<lambda>c. pc_waiting c = Some h) cs \<or> Some h \<in> set (resumable (loop_scheduler l))"

text \<open>A promise whose waiter gave up.\<close>

definition released :: "'v core \<Rightarrow> 'v core" where
  "released c = (if pc_state c = WaitedOn then c\<lparr>pc_waiting := None, pc_state := Init\<rparr> else c)"

text \<open>What holds while a coroutine \<open>h\<close> is suspended in a select.\<close>

definition selecting :: "coro \<Rightarrow> 'v core list \<times> loop \<Rightarrow> bool" where
  "selecting h s \<longleftrightarrow> (case s of (cs, l) \<Rightarrow>
     list_all core_inv cs \<and>
     list_all (\<lambda>c. pc_state c = Finished \<or> pc_waiting c = Some h) cs \<and>
     (list_ex PromiseCore_ready cs \<longrightarrow> Some h \<in> set (resumable (loop_scheduler l))))"

section \<open>Lemmas\<close>

lemma core_reset:
  assumes "core_inv c"
  shows "PromiseCore_resetHandle c =
    (if pc_state c = WaitedOn then c\<lparr>pc_waiting := None, pc_state := Init\<rparr> else c, Ok ())"
  using assms by (cases "pc_state c") (auto simp: PromiseCore_resetHandle_def core_inv_def)

lemma released_inv: "core_inv c \<Longrightarrow> core_inv (released c) \<and> pc_waiting (released c) = None"
  by (cases "pc_state c") (auto simp: released_def core_inv_def)

lemma reset_all_spec:
  "list_all core_inv cs \<Longrightarrow> SelectSet_reset_all cs = (map released cs, Ok ())"
  by (induction cs) (simp_all add: core_reset released_def)

lemma checkPromises_spec:
  "list_all core_inv cs \<Longrightarrow>
     SelectSet_checkPromises ix cs =
       (map released cs, Ok (filter (\<lambda>i. PromiseCore_ready (cs ! (i - ix))) [ix..<ix + length cs]))"
proof (induction cs arbitrary: ix)
  case (Cons c cs)
  have sh: "filter (\<lambda>i. PromiseCore_ready ((c # cs) ! (i - ix))) [Suc ix..<Suc (ix + length cs)] =
      filter (\<lambda>i. PromiseCore_ready (cs ! (i - Suc ix))) [Suc ix..<Suc ix + length cs]"
    by (intro filter_cong) (auto simp: nth_Cons')
  have "released c = c" if "PromiseCore_ready c"
    using that Cons.prems by (auto simp: released_def core_inv_def PromiseCore_ready_def)
  with Cons sh show ?case
    by (simp add: core_reset released_def upt_conv_Cons del: upt_Suc)
qed simp

lemma register_spec:
  "list_all core_inv cs \<Longrightarrow> list_all (\<lambda>c. pc_state c = Init \<or> PromiseCore_stale c) cs \<Longrightarrow>
     SelectSet_register h cs =
       (map (\<lambda>c. if pc_state c = Init then c\<lparr>pc_waiting := h, pc_state := WaitedOn\<rparr> else c) cs, Ok ())"
  by (induction cs) (auto simp: PromiseCore_setHandle_def PromiseCore_stale_def)

lemma select_finish_selecting:
  assumes "selecting h s"
  shows "selecting h (select_finish ev s)" "length (fst (select_finish ev s)) = length (fst s)"
proof -
  obtain i r cs l where s: "ev = (i, r)" "s = (cs, l)" by (cases ev; cases s)
  show "length (fst (select_finish ev s)) = length (fst s)"
    by (simp add: s select_finish_def split: prod.split)
  show "selecting h (select_finish ev s)"
  proof (cases "i < length cs \<and> pc_state (cs ! i) \<noteq> Finished")
    case True
    then have "core_inv (cs ! i)" "pc_waiting (cs ! i) = Some h"
      using assms by (auto simp: s selecting_def list_all_length)
    then have "core_finish r (cs ! i, l) =
        (((cs ! i)\<lparr>pc_slot := Some r, pc_waiting := None, pc_state := Finished\<rparr>, Loop_enqueue (Some h) l), Ok ())"
      using True by (intro core_finish_simps(1)) (auto simp: core_inv_def)
    with True assms show ?thesis
      by (auto simp: s selecting_def select_finish_def list_all_length nth_list_update core_inv_def
          Scheduler_enqueue_def)
  qed (use assms in \<open>auto simp: s select_finish_def\<close>)
qed

lemma fold_select_finish:
  "selecting h s \<Longrightarrow> selecting h (fold select_finish evs s) \<and>
     length (fst (fold select_finish evs s)) = length (fst s)"
  by (induction evs arbitrary: s) (simp_all add: select_finish_selecting)

lemma registered_selecting:
  assumes "list_all core_inv cs" "list_all (\<lambda>c. pc_state c = Init \<or> PromiseCore_stale c) cs"
  shows "selecting h (map (\<lambda>c. if pc_state c = Init then c\<lparr>pc_waiting := Some h, pc_state := WaitedOn\<rparr> else c) cs, l)"
  using assms
  by (auto simp: selecting_def list_all_iff list_ex_iff core_inv_def PromiseCore_stale_def PromiseCore_ready_def)

lemma mentions_released:
  assumes "list_all core_inv cs"
  shows "\<not> mentions h (map released cs) (Loop_cancel h l)"
proof -
  have "pc_waiting (released c) = None" if "c \<in> set cs" for c
    using released_inv assms that by (auto simp: list_all_iff)
  then show ?thesis by (auto simp: mentions_def list_ex_iff Scheduler_cancel_def)
qed


section \<open>The properties of select\<close>

text \<open>
  C9: A coroutine suspends in a select over promises nobody else awaits, and any of them finish,
  in any order. As soon as one has a result the coroutine is scheduled; when it is resumed, it
  gets exactly the promises that are ready, and no promise and no queue entry refers to it any
  more, so a late result cannot wake it by mistake.
\<close>

theorem select_delivers:
  assumes "list_all core_inv cs" "list_all (\<lambda>c. pc_state c = Init \<or> PromiseCore_stale c) cs"
  shows "\<exists>cs1 ss1 l1 t. SelectSet_await_suspend fin (Some h) cs SelectSet_init l = ((cs1, ss1, l1), Ok t) \<and>
    (case fold select_finish evs (cs1, l1) of (cs2, l2) \<Rightarrow>
       (list_ex PromiseCore_ready cs2 \<longrightarrow> Some h \<in> set (resumable (loop_scheduler l2))) \<and>
       (\<exists>cs3 ss3 l3. SelectSet_await_resume cs2 ss1 l2 =
            ((cs3, ss3, l3), Ok (filter (\<lambda>i. PromiseCore_ready (cs2 ! i)) [0..<length cs])) \<and>
          \<not> mentions h cs3 l3 \<and> list_all core_inv cs3))"
proof -
  let ?cs1 = "map (\<lambda>c. if pc_state c = Init then c\<lparr>pc_waiting := Some h, pc_state := WaitedOn\<rparr> else c) cs"
  obtain l1 t where n: "Loop_getNext fin l = (l1, t)" by (meson surj_pair)
  obtain cs2 l2 where f: "fold select_finish evs (?cs1, l1) = (cs2, l2)" by (meson surj_pair)
  from fold_select_finish [OF registered_selecting [OF assms], of h evs l1] f
  have s: "selecting h (cs2, l2)" "length cs2 = length cs" by simp_all
  then have i: "list_all core_inv cs2" by (simp add: selecting_def)
  have "SelectSet_await_resume cs2 \<lparr>ss_suspended = Some h, ss_resumed = False\<rparr> l2 =
      ((map released cs2, \<lparr>ss_suspended = None, ss_resumed = True\<rparr>, Loop_cancel h l2),
       Ok (filter (\<lambda>i. PromiseCore_ready (cs2 ! i)) [0..<length cs]))"
    using s(2) by (simp add: SelectSet_await_resume_def checkPromises_spec [OF i])
  moreover have "list_all core_inv (map released cs2)"
    using i released_inv by (auto simp: list_all_iff)
  ultimately show ?thesis
    using s(1) mentions_released [OF i] f n register_spec [OF assms, of "Some h"]
    by (auto simp: SelectSet_await_suspend_def SelectSet_init_def selecting_def)
qed

theorem select_delivers_witness:
  "\<exists>cs1 ss1 l1 t. SelectSet_await_suspend (\<lambda>c. False) (Some 9) [PromiseCore_init, PromiseCore_init] SelectSet_init Loop_init =
      ((cs1, ss1, l1), Ok t) \<and>
    (case fold select_finish [(1, Inl True)] (cs1, l1) of (cs2, l2) \<Rightarrow>
       (list_ex PromiseCore_ready cs2 \<longrightarrow> Some 9 \<in> set (resumable (loop_scheduler l2))) \<and>
       (\<exists>cs3 ss3 l3. SelectSet_await_resume cs2 ss1 l2 =
            ((cs3, ss3, l3), Ok (filter (\<lambda>i. PromiseCore_ready (cs2 ! i)) [0..<length [PromiseCore_init :: bool core, PromiseCore_init]])) \<and>
          \<not> mentions 9 cs3 l3 \<and> list_all core_inv cs3))"
  by (rule select_delivers) (simp_all add: PromiseCore_init_def core_inv_def)

text \<open>
  A select that is abandoned (its coroutine is destroyed while it is suspended) leaves no
  reference to that coroutine behind in any of the promises.
\<close>

theorem select_abandoned:
  assumes "selecting h (cs, l)" "\<not> ss_resumed ss"
  shows "\<exists>cs1. SelectSet_destroy cs ss = (cs1, Ok ()) \<and> list_all core_inv cs1 \<and>
    list_all (\<lambda>c. pc_waiting c = None) cs1"
proof -
  have i: "list_all core_inv cs" using assms(1) by (simp add: selecting_def)
  then have "list_all core_inv (map released cs) \<and> list_all (\<lambda>c. pc_waiting c = None) (map released cs)"
    using released_inv by (auto simp: list_all_iff)
  with reset_all_spec [OF i] assms(2) show ?thesis by (simp add: SelectSet_destroy_def)
qed

theorem select_abandoned_witness:
  "\<exists>cs1. SelectSet_destroy [PromiseCore_init\<lparr>pc_waiting := Some 4, pc_state := WaitedOn\<rparr> :: bool core]
      \<lparr>ss_suspended = Some 4, ss_resumed = False\<rparr> = (cs1, Ok ()) \<and> list_all core_inv cs1 \<and>
    list_all (\<lambda>c. pc_waiting c = None) cs1"
  by (rule select_abandoned [where h = 4 and l = Loop_init])
     (simp_all add: selecting_def core_inv_def PromiseCore_init_def PromiseCore_ready_def)

text \<open>
  A select over a promise that another coroutine already awaits throws, and its destructor
  then removes the registration of that other coroutine, which is never woken.
\<close>

theorem select_steals_waiter:
  "(let c = PromiseCore_init\<lparr>pc_waiting := Some 4, pc_state := WaitedOn\<rparr> :: bool core
    in snd (SelectSet_await_suspend (\<lambda>c. False) (Some 9) [c] SelectSet_init Loop_init) = Exn already_awaited \<and>
       map pc_waiting (fst (SelectSet_destroy [c] SelectSet_init)) = [None])"
  by code_simp

text \<open>
  A race owns its promises. When its coroutine continues, every coroutine of the race is destroyed
  once, the losers are off the ready queue, and nothing refers to the waiting coroutine.
\<close>

lemma destroy_promises_spec:
  "destroy_promises cs l = (l', fs) \<Longrightarrow>
     fs = List.map_filter pc_coroutine cs \<and>
     set (resumable (loop_scheduler l')) \<subseteq>
       set (resumable (loop_scheduler l)) - Some ` {d. \<exists>c \<in> set cs. pc_coroutine c = Some d \<and> pc_state c \<noteq> Finished} \<union> {None}"
proof (induction cs arbitrary: l l' fs)
  case (Cons c cs)
  obtain l1 f where 1: "PromiseCore_destroyCoroutine c l = (l1, f)" by fastforce
  obtain l2 gs where 2: "destroy_promises cs l1 = (l2, gs)" by fastforce
  have "set (resumable (loop_scheduler l1)) \<subseteq>
      set (resumable (loop_scheduler l)) - Some ` {d. pc_coroutine c = Some d \<and> pc_state c \<noteq> Finished} \<union> {None}"
    using 1 by (auto simp: PromiseCore_destroyCoroutine_def Loop_cancel_def Scheduler_cancel_def split: option.splits if_splits)
  with Cons.IH [OF 2] Cons.prems 1 2 show ?case
    by (fastforce simp: List.map_filter_simps PromiseCore_destroyCoroutine_def split: option.splits)
qed (auto simp: List.map_filter_simps)

lemma race_cancels_losers:
  assumes "selecting h (cs, l)" "ss_suspended ss = Some h" "raceIgnore_resume cs ss l = (l', fs, r)"
  shows "r = Ok () \<and> fs = List.map_filter pc_coroutine cs \<and> Some h \<notin> set (resumable (loop_scheduler l')) \<and>
    (\<forall>c \<in> set cs. \<forall>d. pc_coroutine c = Some d \<and> pc_state c \<noteq> Finished \<longrightarrow> Some d \<notin> set (resumable (loop_scheduler l')))"
proof -
  have i: "list_all core_inv cs" using assms(1) by (simp add: selecting_def)
  have r: "SelectSet_await_resume cs ss l = ((map released cs, ss\<lparr>ss_resumed := True, ss_suspended := None\<rparr>, Loop_cancel h l),
      Ok (filter (\<lambda>i. PromiseCore_ready (cs ! i)) [0..<length cs]))"
    using assms(2) by (simp add: SelectSet_await_resume_def checkPromises_spec [OF i])
  then have d: "destroy_promises (map released cs) (Loop_cancel h l) = (l', fs)" "r = Ok ()"
    using assms(3) by (auto simp: raceIgnore_resume_def split: prod.splits)
  have frame: "pc_coroutine (released c) = pc_coroutine c" "pc_state (released c) = Finished \<longleftrightarrow> pc_state c = Finished" for c :: "'a core"
    by (simp_all add: released_def)
  then have "List.map_filter pc_coroutine (map released cs) = List.map_filter pc_coroutine cs"
    by (induction cs) (simp_all add: List.map_filter_simps split: option.split)
  moreover have "Some h \<notin> set (resumable (loop_scheduler (Loop_cancel h l)))"
    by (auto simp: Loop_cancel_def Scheduler_cancel_def)
  ultimately show ?thesis using destroy_promises_spec [OF d(1)] d(2) frame by fastforce
qed

end
