(* ===== verification/Combinators.thy ===== *)
theory Combinators
  imports Multi_Promise Select_Set
begin

text \<open>
  The rest of \<open>src/uvco/combinators.h\<close> and \<open>combinators.cc\<close>: \<open>yield()\<close>, the counting
  generator \<open>yield(count)\<close>, \<open>WaitPoint\<close>, \<open>TaskSet\<close> and \<open>waitAll\<close>.

  \<open>TaskSet\<close> counts with \<open>size_t\<close>; its differences are 64-bit words that wrap around.
\<close>

section \<open>yield\<close>

definition Yield_await_suspend :: "handle \<Rightarrow> loop \<Rightarrow> loop" where
  "Yield_await_suspend h l = Loop_enqueue h l"

text \<open>\<open>yield(count)\<close> as a generator body; the loop variable is an \<open>unsigned\<close>.\<close>

function yield_from :: "u32 \<Rightarrow> u32 \<Rightarrow> u32 gbody" where
  "yield_from i count = (if i < count then GYield i (yield_from (i + 1) count) else GReturn)"
  by pat_completeness auto

termination yield_from
proof (relation "measure (\<lambda>(i, count). unat count - unat i)")
  fix i count :: u32
  assume "i < count"
  then have "unat i < unat count" by (simp add: word_less_nat_alt)
  moreover have "unat (i + 1) = unat i + 1"
    using \<open>unat i < unat count\<close> unsigned_less [of count, where 'a = nat] by (intro unat_plus_one_u32) auto
  ultimately show "((i + 1, count), i, count) \<in> measure (\<lambda>(i, count). unat count - unat i)" by simp
qed simp

definition yield_count :: "u32 \<Rightarrow> u32 gbody" where
  "yield_count count = yield_from 0 count"

section \<open>waitAll\<close>

text \<open>
  \<open>waitAll(promises...)\<close> awaits its promises one after the other, in an order the language
  leaves open, and returns the results in argument order; the first exception it meets ends it.
  \<open>order\<close> is the order in which the compiler evaluates the arguments of \<open>make_tuple\<close>.
\<close>

fun waitAll_collect :: "nat list \<Rightarrow> 'v res list \<Rightarrow> (nat \<Rightarrow> 'v option) \<Rightarrow> (nat \<Rightarrow> 'v option) res" where
  "waitAll_collect [] rs got = Ok got"
| "waitAll_collect (i # is) rs got =
     (case rs ! i of
        Ok v \<Rightarrow> waitAll_collect is rs (got(i \<mapsto> v))
      | Exn e \<Rightarrow> Exn e
      | Abort m \<Rightarrow> Abort m)"

definition waitAll :: "nat list \<Rightarrow> 'v res list \<Rightarrow> 'v list res" where
  "waitAll order rs =
     map_res (\<lambda>got. map (\<lambda>i. the (got i)) [0..<length rs]) (waitAll_collect order rs (\<lambda>i. None))"

section \<open>WaitPoint\<close>

record wait_point =
  wp_waiters :: "coro list"

definition WaitPoint_init :: wait_point where
  "WaitPoint_init = \<lparr>wp_waiters = []\<rparr>"

definition WaitPoint_waiting :: "wait_point \<Rightarrow> nat" where
  "WaitPoint_waiting w = length (wp_waiters w)"

definition WaitPoint_enqueue :: "coro \<Rightarrow> wait_point \<Rightarrow> wait_point" where
  "WaitPoint_enqueue h w = w\<lparr>wp_waiters := wp_waiters w @ [h]\<rparr>"

definition WaitPointAwaiter_await_suspend ::
  "(coro \<Rightarrow> bool) \<Rightarrow> coro \<Rightarrow> wait_point \<times> loop \<Rightarrow> (wait_point \<times> loop) \<times> transfer" where
  "WaitPointAwaiter_await_suspend fin h s = (case s of (w, l) \<Rightarrow>
     (case Loop_getNext fin l of (l1, t) \<Rightarrow> ((WaitPoint_enqueue h w, l1), t)))"

definition WaitPoint_releaseOne :: "wait_point \<times> loop \<Rightarrow> wait_point \<times> loop" where
  "WaitPoint_releaseOne s = (case s of (w, l) \<Rightarrow>
     (case wp_waiters w of
        [] \<Rightarrow> (w, l)
      | h # hs \<Rightarrow> (w\<lparr>wp_waiters := hs\<rparr>, Loop_enqueue (Some h) l)))"

function WaitPoint_releaseAll :: "wait_point \<times> loop \<Rightarrow> wait_point \<times> loop" where
  "WaitPoint_releaseAll s =
     (if wp_waiters (fst s) = [] then s else WaitPoint_releaseAll (WaitPoint_releaseOne s))"
  by pat_completeness auto

termination WaitPoint_releaseAll
  by (relation "measure (\<lambda>s. length (wp_waiters (fst s)))")
     (auto simp: WaitPoint_releaseOne_def split: list.splits)

section \<open>TaskSet\<close>

text \<open>
  The promises of the map \<open>tasks_\<close> are the wrapping coroutines; the model keeps the keys.
  \<open>ts_callback\<close> is the error callback that is set, a number; an empty \<open>std::function\<close> is \<open>None\<close>.
  \<open>ts_errors\<close> records the calls of the callbacks, and the messages to the standard error stream
  when there is none. Callbacks are taken to return.
\<close>

record taskset =
  ts_counter :: u64
  ts_tasks :: "u64 list"
  ts_done :: "u64 list"
  ts_onEmpty :: wait_point
  ts_callback :: "nat option"
  ts_errors :: "(nat option \<times> u64 \<times> exn) list"

definition TaskSet_create :: taskset where
  "TaskSet_create = \<lparr>ts_counter = 0, ts_tasks = [], ts_done = [], ts_onEmpty = WaitPoint_init,
     ts_callback = None, ts_errors = []\<rparr>"

definition ts_size :: "'a list \<Rightarrow> u64" where
  "ts_size xs = word_of_nat (length xs)"

definition TaskSet_empty :: "taskset \<Rightarrow> bool" where
  "TaskSet_empty ts \<longleftrightarrow> 0 = ts_size (ts_tasks ts) - ts_size (ts_done ts)"

text \<open>\<open>tasks_.erase(doneTasks_.front()); doneTasks_.pop_front();\<close> until none is left.\<close>

fun ts_drop_done :: "u64 list \<Rightarrow> u64 list \<Rightarrow> u64 list" where
  "ts_drop_done [] tasks = tasks"
| "ts_drop_done (d # ds) tasks = ts_drop_done ds (filter (\<lambda>t. t \<noteq> d) tasks)"

text \<open>\<open>wrap(taskId, task)\<close>, from the point where the task has returned or thrown.\<close>

definition TaskSet_wrap_end :: "u64 \<Rightarrow> unit + exn \<Rightarrow> taskset \<times> loop \<Rightarrow> taskset \<times> loop" where
  "TaskSet_wrap_end taskId r s = (case s of (ts, l) \<Rightarrow>
     (let ts1 = (case r of Inl u \<Rightarrow> ts | Inr e \<Rightarrow> ts\<lparr>ts_errors := ts_errors ts @ [(ts_callback ts, taskId, e)]\<rparr>);
          (wp, l1) = (if ts_size (ts_tasks ts1) - ts_size (ts_done ts1) - 1 = 0
                      then WaitPoint_releaseAll (ts_onEmpty ts1, l) else (ts_onEmpty ts1, l))
      in (ts1\<lparr>ts_tasks := ts_drop_done (ts_done ts1) (ts_tasks ts1), ts_done := [taskId],
              ts_onEmpty := wp\<rparr>, l1)))"

text \<open>\<open>tasks_.insert({id, ...})\<close> does not replace an entry.\<close>

definition ts_insert :: "u64 \<Rightarrow> taskset \<Rightarrow> taskset" where
  "ts_insert k ts = (if k \<in> set (ts_tasks ts) then ts else ts\<lparr>ts_tasks := ts_tasks ts @ [k]\<rparr>)"

text \<open>
  \<open>add(task)\<close>: the arguments of \<open>insert\<close> are evaluated first, so \<open>wrap()\<close> starts before the
  task is in the map; if the task has already finished, \<open>wrap()\<close> runs to its end there.
\<close>

definition TaskSet_add :: "(unit + exn) option \<Rightarrow> taskset \<times> loop \<Rightarrow> (taskset \<times> loop) \<times> u64" where
  "TaskSet_add finished s = (case s of (ts, l) \<Rightarrow>
     (let taskId = ts_counter ts; ts1 = ts\<lparr>ts_counter := taskId + 1\<rparr>;
          (ts2, l2) = (case finished of None \<Rightarrow> (ts1, l) | Some r \<Rightarrow> TaskSet_wrap_end taskId r (ts1, l))
      in ((ts_insert taskId ts2, l2), taskId)))"

text \<open>\<open>onEmpty()\<close>: returns at once, or its coroutine waits at the wait point.\<close>

definition TaskSet_onEmpty :: "coro \<Rightarrow> taskset \<Rightarrow> taskset \<times> bool" where
  "TaskSet_onEmpty c ts =
     (if TaskSet_empty ts then (ts, True)
      else (ts\<lparr>ts_onEmpty := WaitPoint_enqueue c (ts_onEmpty ts)\<rparr>, False))"

definition TaskSet_setOnError :: "nat option \<Rightarrow> taskset \<Rightarrow> taskset" where
  "TaskSet_setOnError ecb ts = ts\<lparr>ts_callback := ecb\<rparr>"

text \<open>The destructor destroys the promises of the map, and so the coroutines of its tasks.\<close>

definition TaskSet_destroy :: "taskset \<Rightarrow> u64 list" where
  "TaskSet_destroy ts = ts_tasks ts"

section \<open>The task set as a set\<close>

text \<open>The tasks that have not finished.\<close>

definition ts_active :: "taskset \<Rightarrow> u64 set" where
  "ts_active ts = set (ts_tasks ts) - set (ts_done ts)"

text \<open>A user of a task set: tasks are added and finish, coroutines wait until none is left.\<close>

datatype ts_op = TSAdd | TSAddFinished "unit + exn" | TSFinish u64 "unit + exn" | TSOnEmpty coro | TSSetOnError "nat option"

fun ts_step :: "ts_op \<Rightarrow> taskset \<times> loop \<Rightarrow> taskset \<times> loop" where
  "ts_step TSAdd s = fst (TaskSet_add None s)"
| "ts_step (TSAddFinished r) s = fst (TaskSet_add (Some r) s)"
| "ts_step (TSFinish k r) s = (if k \<in> ts_active (fst s) then TaskSet_wrap_end k r s else s)"
| "ts_step (TSOnEmpty c) s = (fst (TaskSet_onEmpty c (fst s)), snd s)"
| "ts_step (TSSetOnError ecb) s = (TaskSet_setOnError ecb (fst s), snd s)"

definition ts_wf :: "nat \<Rightarrow> taskset \<Rightarrow> bool" where
  "ts_wf n ts \<longleftrightarrow> distinct (ts_tasks ts) \<and> distinct (ts_done ts) \<and>
     set (ts_done ts) \<subseteq> set (ts_tasks ts) \<and> list_all (\<lambda>k. unat k < n) (ts_tasks ts)"

text \<open>After \<open>n\<close> calls of \<open>add\<close>: nobody waits for an empty set that is empty.\<close>

definition ts_ok :: "nat \<Rightarrow> taskset \<Rightarrow> bool" where
  "ts_ok n ts \<longleftrightarrow> ts_wf n ts \<and> ts_counter ts = word_of_nat n \<and>
     (ts_active ts = {} \<longrightarrow> wp_waiters (ts_onEmpty ts) = [])"

definition ts_adds :: "ts_op \<Rightarrow> nat" where
  "ts_adds op = (case op of TSAdd \<Rightarrow> 1 | TSAddFinished r \<Rightarrow> 1 | TSFinish k r \<Rightarrow> 0 | TSOnEmpty c \<Rightarrow> 0 | TSSetOnError ecb \<Rightarrow> 0)"

section \<open>Lemmas\<close>

lemma releaseOne_simps:
  "wp_waiters w = h # hs \<Longrightarrow>
     WaitPoint_releaseOne (w, l) = (w\<lparr>wp_waiters := hs\<rparr>, Loop_enqueue (Some h) l)"
  by (simp add: WaitPoint_releaseOne_def)

lemma releaseAll_spec:
  "WaitPoint_releaseAll (w, l) = (w\<lparr>wp_waiters := []\<rparr>, fold (\<lambda>h. Loop_enqueue (Some h)) (wp_waiters w) l)"
proof (induction "wp_waiters w" arbitrary: w l)
  case Nil
  then show ?case by (subst WaitPoint_releaseAll.simps) simp
next
  case (Cons h hs)
  from Cons(1) [of "w\<lparr>wp_waiters := hs\<rparr>" "Loop_enqueue (Some h) l"] Cons(2) [symmetric]
  show ?case by (subst WaitPoint_releaseAll.simps) (simp add: releaseOne_simps)
qed

declare WaitPoint_releaseAll.simps [simp del]

lemma ts_drop_done_spec: "ts_drop_done ds tasks = filter (\<lambda>t. t \<notin> set ds) tasks"
  by (induction ds arbitrary: tasks) (auto intro: filter_cong)

lemma ts_size_unat: "length xs < 2 ^ 64 \<Longrightarrow> unat (ts_size xs) = length xs"
  by (simp add: ts_size_def unat_of_nat take_bit_nat_eq_self)

lemma ts_wf_length:
  assumes "ts_wf n ts" "n < 2 ^ 64"
  shows "length (ts_tasks ts) \<le> n" "length (ts_done ts) \<le> length (ts_tasks ts)"
proof -
  have d: "distinct (ts_tasks ts)" "distinct (ts_done ts)" "set (ts_done ts) \<subseteq> set (ts_tasks ts)"
    "unat ` set (ts_tasks ts) \<subseteq> {..<n}"
    using assms(1) by (auto simp: ts_wf_def list_all_iff)
  have "card (unat ` set (ts_tasks ts)) \<le> n" using card_mono [OF _ d(4)] by simp
  moreover have "inj_on (unat :: u64 \<Rightarrow> nat) (set (ts_tasks ts))" by (simp add: inj_on_def word_unat_eq_iff)
  ultimately show "length (ts_tasks ts) \<le> n" using d(1) by (simp add: card_image distinct_card)
  from card_mono [OF _ d(3)] show "length (ts_done ts) \<le> length (ts_tasks ts)"
    using d(1,2) by (simp add: distinct_card)
qed

lemma ts_active_card:
  assumes "ts_wf n ts"
  shows "card (ts_active ts) = length (ts_tasks ts) - length (ts_done ts)"
  using assms by (simp add: ts_active_def ts_wf_def card_Diff_subset distinct_card)

lemma ts_difference:
  assumes "ts_wf n ts" "n < 2 ^ 64"
  shows "unat (ts_size (ts_tasks ts) - ts_size (ts_done ts)) = card (ts_active ts)"
proof -
  note l = ts_wf_length [OF assms]
  with assms(2) have u: "unat (ts_size (ts_tasks ts)) = length (ts_tasks ts)"
    "unat (ts_size (ts_done ts)) = length (ts_done ts)"
    by (simp_all add: ts_size_unat)
  then have "ts_size (ts_done ts) \<le> ts_size (ts_tasks ts)" using l by (simp add: word_le_nat_alt)
  then show ?thesis using u ts_active_card [OF assms(1)] by (simp add: unat_sub)
qed

lemma ts_finite_active [simp]: "finite (ts_active ts)"
  by (simp add: ts_active_def)

lemma TaskSet_empty_iff:
  assumes "ts_wf n ts" "n < 2 ^ 64"
  shows "TaskSet_empty ts \<longleftrightarrow> ts_active ts = {}"
proof -
  have "TaskSet_empty ts \<longleftrightarrow> unat (ts_size (ts_tasks ts) - ts_size (ts_done ts)) = 0"
    by (auto simp: TaskSet_empty_def unat_eq_zero)
  then show ?thesis using ts_difference [OF assms] by simp
qed

lemma ts_last_iff:
  assumes "ts_wf n ts" "n < 2 ^ 64"
  shows "ts_size (ts_tasks ts) - ts_size (ts_done ts) - 1 = 0 \<longleftrightarrow> card (ts_active ts) = 1"
proof -
  have "ts_size (ts_tasks ts) - ts_size (ts_done ts) - 1 = 0 \<longleftrightarrow>
      unat (ts_size (ts_tasks ts) - ts_size (ts_done ts)) = unat (1 :: u64)"
    by (metis diff_eq_eq add_0 word_unat_eq_iff)
  then show ?thesis using ts_difference [OF assms] by simp
qed

text \<open>The effect of a finishing task.\<close>

lemma wrap_end_spec:
  fixes k r l
  assumes "ts_wf n ts" "n < 2 ^ 64"
  defines "s' \<equiv> TaskSet_wrap_end k r (ts, l)"
  shows "ts_tasks (fst s') = filter (\<lambda>t. t \<notin> set (ts_done ts)) (ts_tasks ts)" "ts_done (fst s') = [k]"
    "ts_counter (fst s') = ts_counter ts"
    "wp_waiters (ts_onEmpty (fst s')) = (if card (ts_active ts) = 1 then [] else wp_waiters (ts_onEmpty ts))"
    "snd s' = (if card (ts_active ts) = 1
       then fold (\<lambda>h. Loop_enqueue (Some h)) (wp_waiters (ts_onEmpty ts)) l else l)"
  using ts_last_iff [OF assms(1,2)] unfolding s'_def
  by (cases r; auto simp: TaskSet_wrap_end_def ts_drop_done_spec releaseAll_spec split: prod.splits)+

lemma wrap_end_errors:
  "ts_errors (fst (TaskSet_wrap_end k r (ts, l))) =
     ts_errors ts @ (case r of Inl u \<Rightarrow> [] | Inr e \<Rightarrow> [(ts_callback ts, k, e)])"
  "ts_callback (fst (TaskSet_wrap_end k r (ts, l))) = ts_callback ts"
  by (cases r; auto simp: TaskSet_wrap_end_def Let_def split: prod.split)+

lemma fresh_id:
  assumes "ts_wf n ts" "n < 2 ^ 64"
  shows "word_of_nat n \<notin> set (ts_tasks ts)" "unat (word_of_nat n :: u64) = n"
proof -
  show u: "unat (word_of_nat n :: u64) = n" using assms(2) by (simp add: unat_of_nat take_bit_nat_eq_self)
  then show "word_of_nat n \<notin> set (ts_tasks ts)" using assms(1) by (auto simp: ts_wf_def list_all_iff)
qed

lemma TaskSet_add_pending:
  fixes l
  assumes ok: "ts_ok n ts" and n: "n < 2 ^ 64"
  defines "t \<equiv> fst (fst (TaskSet_add None (ts, l)))"
  shows "ts_ok (Suc n) t" "ts_active t = insert (word_of_nat n) (ts_active ts)"
proof -
  have wf: "ts_wf n ts" using ok by (simp add: ts_ok_def)
  note f = fresh_id [OF wf n]
  have t: "t = ts\<lparr>ts_counter := word_of_nat n + 1, ts_tasks := ts_tasks ts @ [word_of_nat n]\<rparr>"
    using f(1) ok by (simp add: t_def TaskSet_add_def ts_insert_def Let_def ts_ok_def)
  show "ts_active t = insert (word_of_nat n) (ts_active ts)"
    using f(1) wf by (auto simp: ts_active_def t ts_wf_def)
  then show "ts_ok (Suc n) t"
    using f wf by (fastforce simp: ts_ok_def ts_wf_def t list_all_iff)
qed

lemma TaskSet_add_finished:
  fixes r l
  assumes ok: "ts_ok n ts" and n: "n < 2 ^ 64"
  defines "t \<equiv> fst (fst (TaskSet_add (Some r) (ts, l)))"
  shows "ts_ok (Suc n) t" "ts_active t = ts_active ts"
proof -
  have wf: "ts_wf n ts" using ok by (simp add: ts_ok_def)
  note f = fresh_id [OF wf n]
  define t1 where "t1 = ts\<lparr>ts_counter := word_of_nat n + 1\<rparr>"
  have t1: "ts_wf n t1" "ts_tasks t1 = ts_tasks ts" "ts_done t1 = ts_done ts" "ts_onEmpty t1 = ts_onEmpty ts"
    "ts_counter t1 = word_of_nat n + 1" "ts_active t1 = ts_active ts"
    using wf by (simp_all add: t1_def ts_wf_def ts_active_def)
  note e = wrap_end_spec [OF t1(1) n, of "word_of_nat n" r l, unfolded t1(2-6)]
  define u where "u = fst (TaskSet_wrap_end (word_of_nat n) r (t1, l))"
  note e = e [folded u_def]
  have "t = ts_insert (word_of_nat n) u"
    using ok by (simp add: t_def TaskSet_add_def Let_def ts_ok_def u_def t1_def split: prod.split)
  then have t: "t = u\<lparr>ts_tasks := ts_tasks u @ [word_of_nat n]\<rparr>"
    using f(1) by (simp add: ts_insert_def e(1))
  show act: "ts_active t = ts_active ts" using f(1) by (auto simp: ts_active_def e(1,2) t)
  have w: "ts_active ts = {} \<longrightarrow> wp_waiters (ts_onEmpty u) = []" using ok e(4) by (simp add: ts_ok_def)
  have "ts_wf (Suc n) t" using wf f by (fastforce simp: ts_wf_def t e(1,2) list_all_iff)
  then show "ts_ok (Suc n) t" using w unfolding ts_ok_def act by (simp add: t e(3))
qed

lemma TaskSet_finish_ok:
  assumes ok: "ts_ok n ts" and n: "n < 2 ^ 64" and k: "k \<in> ts_active ts"
  shows "ts_ok n (fst (TaskSet_wrap_end k r (ts, l)))"
    "ts_active (fst (TaskSet_wrap_end k r (ts, l))) = ts_active ts - {k}"
proof -
  have wf: "ts_wf n ts" using ok by (simp add: ts_ok_def)
  note e = wrap_end_spec [OF wf n, of k r l]
  show act: "ts_active (fst (TaskSet_wrap_end k r (ts, l))) = ts_active ts - {k}"
    using k by (auto simp: ts_active_def e(1,2))
  have "card (ts_active ts) = 1" if "ts_active ts - {k} = {}"
    using that k by (metis Diff_eq_empty_iff card_1_singleton_iff One_nat_def empty_iff subset_singletonD)
  then show "ts_ok n (fst (TaskSet_wrap_end k r (ts, l)))"
    using ok k unfolding ts_ok_def act by (auto simp: ts_wf_def e ts_active_def list_all_iff)
qed

lemma ts_step_ok:
  assumes "ts_ok n ts" "n < 2 ^ 64"
  shows "ts_ok (n + ts_adds op) (fst (ts_step op (ts, l)))"
proof (cases op)
  case (TSOnEmpty d)
  with assms TaskSet_empty_iff [of n ts] show ?thesis
    by (auto simp: ts_ok_def ts_adds_def TaskSet_onEmpty_def ts_wf_def ts_active_def WaitPoint_enqueue_def)
next
  case (TSSetOnError ecb)
  with assms show ?thesis by (simp add: ts_ok_def ts_adds_def TaskSet_setOnError_def ts_wf_def ts_active_def)
qed (use assms TaskSet_add_pending [OF assms] TaskSet_add_finished [OF assms] TaskSet_finish_ok [OF assms] in \<open>auto simp: ts_adds_def\<close>)

lemma ts_run_ok:
  assumes "ts_ok n (fst s)" "n + length ops < 2 ^ 64"
  shows "ts_ok (n + sum_list (map ts_adds ops)) (fst (fold ts_step ops s))"
  using assms
proof (induction ops arbitrary: n s)
  case (Cons op ops)
  have "ts_adds op \<le> 1" by (simp add: ts_adds_def split: ts_op.split)
  with Cons.IH [of "n + ts_adds op" "ts_step op s"] Cons.prems ts_step_ok [of n "fst s" op "snd s"]
  show ?case by (simp add: add.assoc)
qed simp

declare yield_from.simps [simp del]

lemma yield_from_yields:
  "yields (yield_from i count) = map word_of_nat [unat i..<unat count] \<and> gend (yield_from i count) = Ok None"
proof (induction i count rule: yield_from.induct)
  case (1 i count)
  show ?case
  proof (cases "i < count")
    case True
    then have lt: "unat i < unat count" by (simp add: word_less_nat_alt)
    then have "unat (i + 1) = Suc (unat i)"
      using unsigned_less [of count, where 'a = nat] unat_plus_one_u32 [of i "unat count"] by simp
    with 1 True lt show ?thesis by (subst (1 2) yield_from.simps) (simp add: upt_conv_Cons)
  next
    case False
    then have "unat count \<le> unat i" by (simp add: word_less_nat_alt)
    with False show ?thesis by (subst (1 2) yield_from.simps) simp
  qed
qed

lemma waitAll_collect_ok:
  "list_all (\<lambda>i. \<exists>v. rs ! i = Ok v) order \<Longrightarrow>
     \<exists>got'. waitAll_collect order rs got = Ok got' \<and>
       (\<forall>i. got' i = (if i \<in> set order then (case rs ! i of Ok v \<Rightarrow> Some v | _ \<Rightarrow> None) else got i))"
  by (induction order arbitrary: got) (auto, fastforce)

section \<open>The properties of the combinators\<close>

text \<open>
  \<open>yield(count)\<close> is the generator of 0, 1, ..., \<open>count - 1\<close>: whatever the
  interleaving, its consumer sees these numbers in order and then the end.
\<close>

theorem yield_count_stream:
  "\<exists>s. gs_run as (gs_start (yield_count count)) = (s, Ok ()) \<and>
     gs_got s = map (\<lambda>i. if i < unat count then Ok (Some (word_of_nat i)) else Ok None) [0..<length (gs_got s)]"
proof -
  obtain s where s: "gs_run as (gs_start (yield_count count)) = (s, Ok ())" "gs_inv (yield_count count) s"
    using gs_run_inv [OF gs_start_inv [of "yield_count count"]] by blast
  have "expected (yield_count count) = (\<lambda>i. if i < unat count then Ok (Some (word_of_nat i)) else Ok None)"
    using yield_from_yields [of 0 count] by (auto simp: expected_def yield_count_def fun_eq_iff)
  with gs_got_expected [OF s(2)] s(1) show ?thesis by simp
qed

text \<open>
  \<open>waitAll\<close> returns the results of all promises in the order of its arguments, whatever
  order the compiler chooses to await them in.
\<close>

theorem waitAll_in_order:
  assumes "set order = {..<length vs}"
  shows "waitAll order (map Ok vs) = Ok vs"
proof -
  have "list_all (\<lambda>i. \<exists>v. map Ok vs ! i = Ok v) order" using assms by (auto simp: list_all_iff)
  from waitAll_collect_ok [OF this, of "\<lambda>i. None"] obtain got where
    g: "waitAll_collect order (map Ok vs) (\<lambda>i. None) = Ok got"
    "\<And>i. got i = (if i \<in> set order then (case map Ok vs ! i of Ok v \<Rightarrow> Some v | _ \<Rightarrow> None) else None)"
    by blast
  have "map (\<lambda>i. the (got i)) [0..<length vs] = vs"
    using assms by (intro nth_equalityI) (auto simp: g(2))
  with g(1) show ?thesis by (simp add: waitAll_def)
qed

theorem waitAll_in_order_witness: "waitAll [2, 0, 1] (map Ok [5, 6, 7::nat]) = Ok [5, 6, 7]"
  by (rule waitAll_in_order) auto



text \<open>
  When a task of a task set finishes, exactly that task leaves the set of active tasks. If
  it was the last one, every coroutine waiting in \<open>onEmpty()\<close> is scheduled, in order;
  otherwise none is.
\<close>

theorem taskset_finish:
  assumes "ts_ok n ts" "n < 2 ^ 64" "k \<in> ts_active ts"
  shows "ts_active (fst (TaskSet_wrap_end k r (ts, l))) = ts_active ts - {k} \<and>
    (if ts_active ts = {k}
     then wp_waiters (ts_onEmpty (fst (TaskSet_wrap_end k r (ts, l)))) = [] \<and>
       snd (TaskSet_wrap_end k r (ts, l)) = fold (\<lambda>h. Loop_enqueue (Some h)) (wp_waiters (ts_onEmpty ts)) l
     else wp_waiters (ts_onEmpty (fst (TaskSet_wrap_end k r (ts, l)))) = wp_waiters (ts_onEmpty ts) \<and>
       snd (TaskSet_wrap_end k r (ts, l)) = l)"
proof -
  have wf: "ts_wf n ts" using assms(1) by (simp add: ts_ok_def)
  have "card (ts_active ts) = 1 \<longleftrightarrow> ts_active ts = {k}" using assms(3) by (auto simp: card_1_singleton_iff)
  with wrap_end_spec [OF wf assms(2), of k r l] TaskSet_finish_ok(2) [OF assms] show ?thesis by simp
qed

theorem taskset_finish_witness:
  "ts_active (fst (TaskSet_wrap_end 0 (Inl ())
      (\<lparr>ts_counter = 1, ts_tasks = [0], ts_done = [], ts_onEmpty = \<lparr>wp_waiters = [5]\<rparr>, ts_callback = None, ts_errors = []\<rparr>, Loop_init))) = {}"
  using taskset_finish [of 1 "\<lparr>ts_counter = 1, ts_tasks = [0], ts_done = [], ts_onEmpty = \<lparr>wp_waiters = [5]\<rparr>, ts_callback = None, ts_errors = []\<rparr>" 0 "Inl ()" Loop_init]
  by (simp add: ts_ok_def ts_wf_def ts_active_def)

text \<open>
  A task that fails is reported once, to the callback that is set when it ends; a task that
  succeeds and every other call reports nothing.
\<close>

lemma taskset_reports:
  "ts_errors (fst (ts_step op s)) = ts_errors (fst s) @ (case op of
     TSFinish k (Inr e) \<Rightarrow> if k \<in> ts_active (fst s) then [(ts_callback (fst s), k, e)] else []
   | TSAddFinished (Inr e) \<Rightarrow> [(ts_callback (fst s), ts_counter (fst s), e)]
   | _ \<Rightarrow> [])"
proof -
  obtain ts l where s: "s = (ts, l)" by (cases s)
  note w = wrap_end_errors(1)
  have i: "ts_errors (ts_insert k t) = ts_errors t" for k t by (simp add: ts_insert_def)
  show ?thesis
  proof (cases op)
    case (TSAddFinished r)
    let ?t = "TaskSet_wrap_end (ts_counter ts) r (ts\<lparr>ts_counter := ts_counter ts + 1\<rparr>, l)"
    have "fst (ts_step op s) = ts_insert (ts_counter ts) (fst ?t)"
      by (simp add: TSAddFinished s TaskSet_add_def Let_def split: prod.split)
    then show ?thesis by (simp add: TSAddFinished s i w split: sum.split)
  qed (auto simp: s w i TaskSet_add_def TaskSet_onEmpty_def TaskSet_setOnError_def Let_def split: sum.splits)
qed

text \<open>
  Adding a task that has already finished to a task set with exactly one active task wakes
  the coroutines waiting in \<open>onEmpty()\<close> although that task is still active: \<open>wrap()\<close> runs to
  its end before the new task is in the map, and the count is off by one.
\<close>

theorem taskset_premature_release:
  "(let (ts, l) = fold ts_step [TSAdd, TSOnEmpty 7, TSAddFinished (Inl ())] (TaskSet_create, Loop_init)
    in 0 \<in> ts_active ts \<and> \<not> TaskSet_empty ts \<and> resumable (loop_scheduler l) = [Some 7])"
  by (simp add: TaskSet_add_def TaskSet_wrap_end_def TaskSet_create_def WaitPoint_init_def ts_size_def
      TaskSet_onEmpty_def TaskSet_empty_def WaitPoint_enqueue_def releaseAll_spec ts_insert_def ts_active_def
      Scheduler_enqueue_def Loop_init_def Let_def)

end
