(* ===== verification/Uv_Handles.thy ===== *)
theory Uv_Handles
  imports Event_Loop
begin

text \<open>
  The helpers around libuv handles: \<open>src/uvco/internal/internal_utils.h\<close> and \<open>.cc\<close>,
  \<open>close.h\<close> and \<open>close.cc\<close>.

  libuv itself is not modelled. A handle is what these helpers see of it: its dynamic type, its
  user data pointer and whether \<open>uv_close()\<close> was called. The store maps addresses to the
  live handles; freeing a handle removes it, so that a use after free is an \<open>Abort\<close>.
\<close>

section \<open>Handles\<close>

datatype uv_handle_type =
    UV_ASYNC | UV_CHECK | UV_FS_EVENT | UV_FS_POLL | UV_HANDLE | UV_IDLE | UV_POLL | UV_PREPARE
  | UV_PROCESS | UV_STREAM | UV_TCP | UV_UDP | UV_NAMED_PIPE | UV_TTY | UV_TIMER | UV_SIGNAL | UV_FILE
  | UV_UNKNOWN_HANDLE

record uv_handle =
  uh_type :: uv_handle_type
  uh_data :: "nat option"
  uh_closing :: bool

type_synonym uv_store = "nat \<Rightarrow> uv_handle option"

definition with_handle ::
  "nat option \<Rightarrow> (nat \<Rightarrow> uv_handle \<Rightarrow> uv_store \<times> 'a res) \<Rightarrow> uv_store \<Rightarrow> uv_store \<times> 'a res" where
  "with_handle p f st = (case p of
     None \<Rightarrow> (st, Abort ''handle != nullptr'')
   | Some a \<Rightarrow> (case st a of None \<Rightarrow> (st, Abort ''use of a freed handle'') | Some h \<Rightarrow> f a h))"

definition getDataOrNull :: "nat option \<Rightarrow> uv_store \<Rightarrow> uv_store \<times> nat option res" where
  "getDataOrNull p st = with_handle p (\<lambda>a h. (st, Ok (uh_data h))) st"

definition getData :: "nat option \<Rightarrow> uv_store \<Rightarrow> uv_store \<times> nat res" where
  "getData p st = with_handle p (\<lambda>a h. (case uh_data h of
     None \<Rightarrow> (st, Abort ''nullptr != data'') | Some d \<Rightarrow> (st, Ok d))) st"

definition setData :: "nat option \<Rightarrow> nat option \<Rightarrow> uv_store \<Rightarrow> uv_store \<times> unit res" where
  "setData p d st = with_handle p (\<lambda>a h. (st(a \<mapsto> h\<lparr>uh_data := d\<rparr>), Ok ())) st"

definition resetData :: "nat option \<Rightarrow> uv_store \<Rightarrow> uv_store \<times> unit res" where
  "resetData p st = with_handle p (\<lambda>a h. (st(a \<mapsto> h\<lparr>uh_data := None\<rparr>), Ok ())) st"

definition dataIsNull :: "nat option \<Rightarrow> uv_store \<Rightarrow> uv_store \<times> bool res" where
  "dataIsNull p st = with_handle p (\<lambda>a h. (st, Ok (uh_data h = None))) st"

text \<open>
  Requests, \<open>uv_req_t\<close>, carry a user data pointer too. A store maps the addresses of the live
  requests to their pointers.
\<close>

type_synonym req_store = "nat \<Rightarrow> nat option option"

definition with_request ::
  "nat option \<Rightarrow> (nat \<Rightarrow> nat option \<Rightarrow> req_store \<times> 'a res) \<Rightarrow> req_store \<Rightarrow> req_store \<times> 'a res" where
  "with_request p f st = (case p of
     None \<Rightarrow> (st, Abort ''req != nullptr'')
   | Some a \<Rightarrow> (case st a of None \<Rightarrow> (st, Abort ''use of a freed request'') | Some d \<Rightarrow> f a d))"

definition getRequestDataOrNull :: "nat option \<Rightarrow> req_store \<Rightarrow> req_store \<times> nat option res" where
  "getRequestDataOrNull p st = with_request p (\<lambda>a d. (st, Ok d)) st"

definition getRequestData :: "nat option \<Rightarrow> req_store \<Rightarrow> req_store \<times> nat res" where
  "getRequestData p st = with_request p (\<lambda>a d. (case d of
     None \<Rightarrow> (st, Abort ''nullptr != data'') | Some x \<Rightarrow> (st, Ok x))) st"

definition setRequestData :: "nat option \<Rightarrow> nat option \<Rightarrow> req_store \<Rightarrow> req_store \<times> unit res" where
  "setRequestData p x st = with_request p (\<lambda>a d. (st(a \<mapsto> x), Ok ())) st"

definition resetRequestData :: "nat option \<Rightarrow> req_store \<Rightarrow> req_store \<times> unit res" where
  "resetRequestData p st = with_request p (\<lambda>a d. (st(a \<mapsto> None), Ok ())) st"

text \<open>\<open>requestDataIsNull\<close> has no assertion; a null pointer crashes in libuv.\<close>

definition requestDataIsNull :: "nat option \<Rightarrow> req_store \<Rightarrow> req_store \<times> bool res" where
  "requestDataIsNull p st = with_request p (\<lambda>a d. (st, Ok (d = None))) st"

text \<open>
  \<open>UvHandleDeleter::del\<close> deletes a handle as an object of its dynamic type. The second
  component is the type whose destructor runs.
\<close>

definition UvHandleDeleter_del :: "nat option \<Rightarrow> uv_store \<Rightarrow> uv_store \<times> uv_handle_type res" where
  "UvHandleDeleter_del p st = with_handle p (\<lambda>a h.
     (case uh_type h of
        UV_ASYNC \<Rightarrow> (st(a := None), Ok UV_ASYNC)
      | UV_CHECK \<Rightarrow> (st(a := None), Ok UV_CHECK)
      | UV_FS_EVENT \<Rightarrow> (st(a := None), Ok UV_FS_EVENT)
      | UV_FS_POLL \<Rightarrow> (st(a := None), Ok UV_FS_POLL)
      | UV_HANDLE \<Rightarrow> (st(a := None), Ok UV_HANDLE)
      | UV_IDLE \<Rightarrow> (st(a := None), Ok UV_IDLE)
      | UV_POLL \<Rightarrow> (st(a := None), Ok UV_POLL)
      | UV_PREPARE \<Rightarrow> (st(a := None), Ok UV_PREPARE)
      | UV_PROCESS \<Rightarrow> (st(a := None), Ok UV_PROCESS)
      | UV_STREAM \<Rightarrow> (st(a := None), Ok UV_STREAM)
      | UV_TCP \<Rightarrow> (st(a := None), Ok UV_TCP)
      | UV_UDP \<Rightarrow> (st(a := None), Ok UV_UDP)
      | UV_NAMED_PIPE \<Rightarrow> (st(a := None), Ok UV_NAMED_PIPE)
      | UV_TTY \<Rightarrow> (st(a := None), Ok UV_TTY)
      | UV_TIMER \<Rightarrow> (st(a := None), Ok UV_TIMER)
      | _ \<Rightarrow> (st, Abort ''unhandled handle type''))) st"

section \<open>Closing (close.h, close.cc)\<close>

definition isClosed :: "nat option \<Rightarrow> uv_store \<Rightarrow> uv_store \<times> bool res" where
  "isClosed p st = with_handle p (\<lambda>a h. (st, Ok (uh_closing h))) st"

text \<open>
  \<open>closeHandle(handle, closer)\<close>; the closer is a function of libuv, \<open>uv_close\<close> or
  \<open>uv_tcp_close_reset\<close>.
\<close>

definition closeHandle ::
  "(nat \<Rightarrow> uv_store \<Rightarrow> uv_store \<times> unit res) \<Rightarrow> nat option \<Rightarrow> uv_store \<Rightarrow> uv_store \<times> unit res" where
  "closeHandle closer p st = (case p of
     None \<Rightarrow> (st, Abort ''handle != nullptr'')
   | Some a \<Rightarrow> rbind (resetData p st) (\<lambda>st1 u. closer a st1))"

text \<open>
  What libuv documents of a closer: it marks a live handle as closing and leaves everything else
  alone; closing a handle that is closing already is an error.
\<close>

definition uv_closes :: "(nat \<Rightarrow> uv_store \<Rightarrow> uv_store \<times> unit res) \<Rightarrow> bool" where
  "uv_closes closer \<longleftrightarrow> (\<forall>a st h. st a = Some h \<longrightarrow>
     (if uh_closing h then \<exists>m. closer a st = (st, Abort m)
      else closer a st = (st(a \<mapsto> h\<lparr>uh_closing := True\<rparr>), Ok ())))"

definition onCloseCallback :: "nat option \<Rightarrow> uv_store \<Rightarrow> uv_store \<times> uv_handle_type res" where
  "onCloseCallback p st =
     rbind (dataIsNull p st) (\<lambda>st1 null.
       if null then UvHandleDeleter_del p st1 else (st1, Abort ''dataIsNull(handle)''))"

section \<open>Buffers, strings and flags (internal\_utils)\<close>

text \<open>\<open>allocator(handle, sugg, buf)\<close>: the size of the buffer.\<close>

definition allocator :: "u64 \<Rightarrow> u64" where
  "allocator sugg = min 4080 sugg"

text \<open>\<open>freeUvBuf(buf)\<close> on the live buffers, by address.\<close>

definition freeUvBuf :: "nat option \<Rightarrow> nat set \<Rightarrow> nat set" where
  "freeUvBuf buf live = (case buf of None \<Rightarrow> live | Some a \<Rightarrow> live - {a})"

text \<open>\<open>OnExit\<close> (\<open>util.h\<close>): the destructor calls the function, if there is one.\<close>

definition OnExit_exit :: "('s \<Rightarrow> 's) option \<Rightarrow> 's \<Rightarrow> 's" where
  "OnExit_exit func s = (case func of None \<Rightarrow> s | Some f \<Rightarrow> f s)"

text \<open>
  \<open>callWithNullTerminated(view, f)\<close>: \<open>memory\<close> is what follows the view in memory, so that its
  first byte is the one the function inspects. The result is the C string that \<open>f\<close> receives:
  the bytes up to the first NUL.
\<close>

definition c_string :: "string \<Rightarrow> string" where
  "c_string bytes = takeWhile (\<lambda>c. c \<noteq> CHR 0x00) bytes"

definition callWithNullTerminated :: "string \<Rightarrow> string \<Rightarrow> (string \<Rightarrow> 'r) \<Rightarrow> 'r" where
  "callWithNullTerminated view memory f =
     (if memory \<noteq> [] \<and> hd memory = CHR 0x00 then f (c_string (view @ memory))
      else f (c_string (view @ [CHR 0x00])))"

definition FlagGuard_enter :: "bool \<Rightarrow> bool \<times> unit res" where
  "FlagGuard_enter flag = (if flag then (flag, Abort ''!flag_'') else (True, Ok ()))"

definition FlagGuard_exit :: "bool \<Rightarrow> bool" where
  "FlagGuard_exit flag = False"

definition ZeroAtExit_exit :: "nat option \<Rightarrow> (nat \<Rightarrow> 'p option) \<Rightarrow> (nat \<Rightarrow> 'p option)" where
  "ZeroAtExit_exit p mem = (case p of None \<Rightarrow> mem | Some a \<Rightarrow> mem(a := None))"

text \<open>The types that \<open>UvHandleDeleter::del\<close> knows.\<close>

definition deletable :: "uv_handle_type \<Rightarrow> bool" where
  "deletable t \<longleftrightarrow> t \<noteq> UV_SIGNAL \<and> t \<noteq> UV_FILE \<and> t \<noteq> UV_UNKNOWN_HANDLE"

section \<open>User data pointers\<close>

text \<open>
  What the accessors of handles and requests promise: the pointer that was set last is the one a
  callback reads, and a cancelled operation is recognised by its null pointer.
\<close>

locale user_data =
  fixes live :: "'s \<Rightarrow> nat \<Rightarrow> bool"
    and get :: "nat option \<Rightarrow> 's \<Rightarrow> 's \<times> nat res"
    and get_or_null :: "nat option \<Rightarrow> 's \<Rightarrow> 's \<times> nat option res"
    and put :: "nat option \<Rightarrow> nat option \<Rightarrow> 's \<Rightarrow> 's \<times> unit res"
    and reset :: "nat option \<Rightarrow> 's \<Rightarrow> 's \<times> unit res"
    and is_null :: "nat option \<Rightarrow> 's \<Rightarrow> 's \<times> bool res"
  assumes put_ok: "live s a \<Longrightarrow> \<exists>s'. put (Some a) d s = (s', Ok ()) \<and> live s' = live s"
    and put_get: "put (Some a) d s = (s', Ok ()) \<Longrightarrow> get_or_null (Some a) s' = (s', Ok d)"
    and put_other: "put (Some a) d s = (s', Ok ()) \<Longrightarrow> b \<noteq> a \<Longrightarrow> snd (get_or_null (Some b) s') = snd (get_or_null (Some b) s)"
    and reset_put: "reset p s = put p None s"
    and get_spec: "get_or_null p s = (s, Ok d) \<Longrightarrow> get p s = (s, case d of None \<Rightarrow> Abort ''nullptr != data'' | Some x \<Rightarrow> Ok x)"
    and is_null_spec: "get_or_null p s = (s, Ok d) \<Longrightarrow> is_null p s = (s, Ok (d = None))"
begin

lemma callback_reads:
  "live s a \<Longrightarrow> \<exists>s'. put (Some a) (Some x) s = (s', Ok ()) \<and> get (Some a) s' = (s', Ok x) \<and> is_null (Some a) s' = (s', Ok False)"
  using put_ok [of s a "Some x"] put_get [of a "Some x" s] get_spec [of "Some a" _ "Some x"] is_null_spec [of "Some a" _ "Some x"]
  by fastforce

lemma cancelled_is_null:
  "live s a \<Longrightarrow> \<exists>s'. reset (Some a) s = (s', Ok ()) \<and> is_null (Some a) s' = (s', Ok True) \<and>
     get (Some a) s' = (s', Abort ''nullptr != data'')"
  using put_ok [of s a None] put_get [of a None s] get_spec [of "Some a" _ None] is_null_spec [of "Some a" _ None]
  by (fastforce simp: reset_put)

end

interpretation handle_data: user_data "\<lambda>st a. st a \<noteq> None" getData getDataOrNull setData resetData dataIsNull
  by unfold_locales
     (auto simp: getData_def getDataOrNull_def setData_def resetData_def dataIsNull_def with_handle_def split: option.splits)

interpretation request_data: user_data "\<lambda>st a. st a \<noteq> None" getRequestData getRequestDataOrNull setRequestData resetRequestData requestDataIsNull
  by unfold_locales
     (auto simp: getRequestData_def getRequestDataOrNull_def setRequestData_def resetRequestData_def requestDataIsNull_def
       with_request_def split: option.splits)

section \<open>LifetimeTracker\<close>

text \<open>
  A base class that logs what happens to objects of a type named \<open>T\<close>. Each operation gives the tracker's
  identifier after it and the line it prints. The two assignments have no \<open>return\<close> statement at the end; reaching that end
  is undefined, an \<open>Abort\<close>.
\<close>

definition TRACK_LIFETIMES :: bool where
  "TRACK_LIFETIMES = True"

definition tracked :: "string \<Rightarrow> string list" where
  "tracked line = (if TRACK_LIFETIMES then [line] else [])"

definition LifetimeTracker_new :: "string \<Rightarrow> string \<Rightarrow> string \<times> string list" where
  "LifetimeTracker_new T name = (name, tracked (''ctor '' @ T @ ''()#'' @ name))"

definition LifetimeTracker_move :: "string \<Rightarrow> string \<times> string list" where
  "LifetimeTracker_move T = ([], tracked (''ctor '' @ T @ ''()#''))"

definition LifetimeTracker_copy :: "string \<Rightarrow> string \<Rightarrow> string \<times> string list" where
  "LifetimeTracker_copy T other = (let this = other @ ''/copy'' in
     (this, tracked (''operator='' @ T @ ''('' @ other @ '')#'' @ this)))"

definition falls_off :: "'a res" where
  "falls_off = Abort ''end of a function that returns a value''"

definition LifetimeTracker_move_assign :: "string \<Rightarrow> string \<Rightarrow> (string \<times> string list) \<times> unit res" where
  "LifetimeTracker_move_assign T this = ((this, tracked (''operator='' @ T @ ''()#'' @ this)), falls_off)"

definition LifetimeTracker_copy_assign :: "string \<Rightarrow> bool \<Rightarrow> string \<Rightarrow> string \<Rightarrow> (string \<times> string list) \<times> unit res" where
  "LifetimeTracker_copy_assign T self this other =
     (if self then ((this, []), Ok ())
      else ((other @ ''/copy'', tracked (''operator='' @ T @ ''('' @ other @ '')#'' @ this)), falls_off))"

definition LifetimeTracker_destroy :: "string \<Rightarrow> string list" where
  "LifetimeTracker_destroy T = tracked (''dtor ~'' @ T @ ''()'')"

text \<open>Copies of copies are told apart by their names, and every tracked object prints a line at both ends of its life.\<close>

lemma tracker_copies:
  "((\<lambda>i. fst (LifetimeTracker_copy T i)) ^^ n) name = name @ concat (replicate n ''/copy'')"
proof (induction n)
  case (Suc n)
  have "concat (replicate n ''/copy'') @ ''/copy'' = ''/copy'' @ concat (replicate n ''/copy'')" by (induction n) auto
  with Suc show ?case by (simp add: LifetimeTracker_copy_def Let_def)
qed simp

lemma tracker_lines:
  "length (snd (LifetimeTracker_new T name)) = 1 \<and> length (snd (LifetimeTracker_copy T name)) = 1 \<and>
   length (snd (LifetimeTracker_move T)) = 1 \<and> length (LifetimeTracker_destroy T) = 1"
  by (simp add: LifetimeTracker_new_def LifetimeTracker_copy_def LifetimeTracker_move_def LifetimeTracker_destroy_def tracked_def
      TRACK_LIFETIMES_def Let_def)

lemma tracker_assignment_undefined:
  "snd (LifetimeTracker_move_assign T this) = falls_off" "snd (LifetimeTracker_copy_assign T False this other) = falls_off"
  by (simp_all add: LifetimeTracker_move_assign_def LifetimeTracker_copy_assign_def)

section \<open>Properties\<close>

lemma setData_getData: "st a = Some h \<Longrightarrow> getData (Some a) (fst (setData (Some a) (Some d) st)) =
    (fst (setData (Some a) (Some d) st), Ok d)"
  by (simp add: setData_def getData_def with_handle_def)

lemma del_known:
  "st a = Some h \<Longrightarrow> deletable (uh_type h) \<Longrightarrow>
     UvHandleDeleter_del (Some a) st = (st(a := None), Ok (uh_type h))"
  by (cases "uh_type h") (simp_all add: UvHandleDeleter_del_def with_handle_def deletable_def)


text \<open>A closer with that behaviour.\<close>

definition example_closer :: "nat \<Rightarrow> uv_store \<Rightarrow> uv_store \<times> unit res" where
  "example_closer a st = (case st a of
     None \<Rightarrow> (st, Abort ''closed'')
   | Some h \<Rightarrow> (if uh_closing h then (st, Abort ''closing'') else (st(a \<mapsto> h\<lparr>uh_closing := True\<rparr>), Ok ())))"


text \<open>
  \<open>callWithNullTerminated\<close> hands the called function exactly the characters of the view,
  whether or not it has to copy them, provided the view itself contains no NUL.
\<close>

theorem callWithNullTerminated_exact:
  assumes "CHR 0x00 \<notin> set view"
  shows "callWithNullTerminated view memory f = f view"
proof -
  have "c_string (view @ CHR 0x00 # rest) = view" for rest
    using assms by (induction view) (auto simp: c_string_def)
  then show ?thesis by (cases memory) (auto simp: callWithNullTerminated_def)
qed

theorem callWithNullTerminated_exact_witness:
  "callWithNullTerminated ''abc'' ''def'' length = length ''abc''"
  by (rule callWithNullTerminated_exact) simp

end
