(* ===== verification/Timer.thy ===== *)
theory Timer
  imports Uv_Handles
begin

text \<open>
  \<open>src/uvco/timer.cc\<close>: \<open>TimerAwaiter\<close>, \<open>sleep()\<close>, and the ticker.

  The libuv timer is not modelled: \<open>due\<close> stands for the value \<open>uv_timer_get_due_in()\<close>
  returns at a call, \<open>closing\<close> for \<open>uv_is_closing()\<close>, and the calls made on the timer
  are recorded in order in \<open>ta_uv\<close>. A call on the released (null) timer is an \<open>Abort\<close>.
\<close>

section \<open>TimerAwaiter\<close>

datatype uv_timer_call = UvTimerStartOnce u64 | UvTimerStartRepeat u64 u64 | UvTimerStop | UvTimerClose

record timer_awaiter =
  ta_timer :: bool
  ta_handle :: handle
  ta_closed :: bool
  ta_stopped :: bool
  ta_uv :: "uv_timer_call list"

definition TimerAwaiter_new :: "u64 \<Rightarrow> bool \<Rightarrow> timer_awaiter" where
  "TimerAwaiter_new millis repeating = \<lparr>ta_timer = True, ta_handle = None, ta_closed = False,
     ta_stopped = False,
     ta_uv = [if repeating then UvTimerStartRepeat millis millis else UvTimerStartOnce millis]\<rparr>"

definition TimerAwaiter_stop :: "timer_awaiter \<Rightarrow> timer_awaiter \<times> unit res" where
  "TimerAwaiter_stop t =
     (if \<not> ta_stopped t
      then (if ta_timer t then (t\<lparr>ta_uv := ta_uv t @ [UvTimerStop], ta_stopped := True\<rparr>, Ok ())
            else (t, Abort ''uv_timer_stop(nullptr)''))
      else (t, Ok ()))"

definition TimerAwaiter_close :: "bool \<Rightarrow> timer_awaiter \<Rightarrow> timer_awaiter \<times> unit res" where
  "TimerAwaiter_close closing t =
     (if \<not> ta_timer t \<or> ta_closed t then (t, Ok ())
      else let t1 = t\<lparr>ta_closed := True\<rparr>
           in if closing then (t1, Ok ())
              else rbind (TimerAwaiter_stop t1) (\<lambda>t2 u.
                     (t2\<lparr>ta_timer := False, ta_uv := ta_uv t2 @ [UvTimerClose]\<rparr>, Ok ())))"

definition TimerAwaiter_destroy :: "bool \<Rightarrow> timer_awaiter \<Rightarrow> timer_awaiter \<times> unit res" where
  "TimerAwaiter_destroy closing t =
     rbind (TimerAwaiter_stop t) (\<lambda>t1 u. TimerAwaiter_close closing t1)"

definition TimerAwaiter_isReady :: "u64 \<Rightarrow> timer_awaiter \<Rightarrow> bool res" where
  "TimerAwaiter_isReady due t =
     (if ta_timer t then Ok (due = 0) else Abort ''uv_timer_get_due_in(nullptr)'')"

definition TimerAwaiter_await_suspend ::
  "(coro \<Rightarrow> bool) \<Rightarrow> handle \<Rightarrow> timer_awaiter \<times> loop \<Rightarrow> (timer_awaiter \<times> loop) \<times> transfer" where
  "TimerAwaiter_await_suspend fin h s = (case s of (t, l) \<Rightarrow>
     (case Loop_getNext fin l of (l1, n) \<Rightarrow> ((t\<lparr>ta_handle := h\<rparr>, l1), n)))"

definition TimerAwaiter_await_resume :: "timer_awaiter \<Rightarrow> timer_awaiter \<times> bool" where
  "TimerAwaiter_await_resume t = (t\<lparr>ta_handle := None\<rparr>, \<not> ta_stopped t)"

definition TimerAwaiter_resume :: "timer_awaiter \<times> loop \<Rightarrow> timer_awaiter \<times> loop" where
  "TimerAwaiter_resume s = (case s of (t, l) \<Rightarrow>
     (case ta_handle t of
        Some h \<Rightarrow> (t\<lparr>ta_handle := None\<rparr>, Loop_enqueue (Some h) l)
      | None \<Rightarrow> (t, l)))"

definition onSingleTimerDone :: "timer_awaiter \<times> loop \<Rightarrow> (timer_awaiter \<times> loop) \<times> unit res" where
  "onSingleTimerDone s = (case s of (t, l) \<Rightarrow>
     (case TimerAwaiter_stop t of (t1, r) \<Rightarrow>
        rbind ((t1, l), r) (\<lambda>s1 u. (TimerAwaiter_resume s1, Ok ()))))"

definition onMultiTimerFired :: "timer_awaiter \<times> loop \<Rightarrow> timer_awaiter \<times> loop" where
  "onMultiTimerFired s = TimerAwaiter_resume s"

section \<open>sleep\<close>

text \<open>\<open>sleep(loop, millis)\<close> up to its suspension, and from its resumption.\<close>

definition sleep_resume :: "bool \<Rightarrow> timer_awaiter \<Rightarrow> timer_awaiter \<times> unit res" where
  "sleep_resume closing t = (case TimerAwaiter_await_resume t of (t1, b) \<Rightarrow>
     (if b then (t1, Abort ''!co_await awaiter'') else TimerAwaiter_destroy closing t1))"

definition sleep_start ::
  "(coro \<Rightarrow> bool) \<Rightarrow> handle \<Rightarrow> u64 \<Rightarrow> u64 \<Rightarrow> loop \<Rightarrow> (timer_awaiter \<times> loop) \<times> transfer option res" where
  "sleep_start fin self millis due l =
     (let t = TimerAwaiter_new millis False
      in case TimerAwaiter_isReady due t of
           Ok True \<Rightarrow> (case sleep_resume False t of (t1, r) \<Rightarrow> ((t1, l), map_res (\<lambda>u. None) r))
         | Ok False \<Rightarrow> (case TimerAwaiter_await_suspend fin self (t, l) of (s, n) \<Rightarrow> (s, Ok (Some n)))
         | Exn e \<Rightarrow> ((t, l), Exn e)
         | Abort m \<Rightarrow> ((t, l), Abort m))"

section \<open>The ticker\<close>

text \<open>
  The generator \<open>ticker()\<close> has a program counter: at the head of its loop, suspended in
  \<open>co_await *awaiter_\<close>, resumed from it, suspended in \<open>co_yield\<close>, or done.
\<close>

datatype tick_point = TickLoop u64 | TickAwaiting u64 | TickScheduled u64 | TickResumed u64 | TickYielded u64 | TickDone

record ticker =
  tk_awaiter :: timer_awaiter
  tk_max :: u64
  tk_stopped :: bool
  tk_running :: bool
  tk_point :: tick_point
  tk_loop :: loop
  tk_out :: "u64 list"

definition tick_handle :: coro where
  "tick_handle = 0"

text \<open>\<open>tick(loop, millis, count)\<close>, and the call of \<open>ticker()\<close> up to its loop.\<close>

definition tick_new :: "u64 \<Rightarrow> u64 \<Rightarrow> ticker" where
  "tick_new millis count = \<lparr>tk_awaiter = TimerAwaiter_new millis True, tk_max = count,
     tk_stopped = False, tk_running = fst (FlagGuard_enter False), tk_point = TickLoop 0, tk_loop = Loop_init, tk_out = []\<rparr>"

definition TickerImpl_close :: "bool \<Rightarrow> ticker \<Rightarrow> ticker \<times> unit res" where
  "TickerImpl_close closing k =
     (case TimerAwaiter_resume (tk_awaiter k, tk_loop k) of (t, l) \<Rightarrow>
        (let k1 = k\<lparr>tk_stopped := True, tk_awaiter := t, tk_loop := l,
                    tk_point := (case tk_point k of TickAwaiting c \<Rightarrow> TickScheduled c | p \<Rightarrow> p)\<rparr>
         in case TimerAwaiter_stop t of (t1, r) \<Rightarrow>
              rbind (k1\<lparr>tk_awaiter := t1\<rparr>, r) (\<lambda>k2 u.
                case TimerAwaiter_close closing t1 of (t2, r2) \<Rightarrow> (k2\<lparr>tk_awaiter := t2\<rparr>, r2))))"

text \<open>The end of \<open>ticker()\<close>, with the flag guard's destructor.\<close>

definition TickerImpl_exit :: "bool \<Rightarrow> ticker \<Rightarrow> ticker \<times> unit res" where
  "TickerImpl_exit closing k =
     rbind (if \<not> tk_stopped k then TickerImpl_close closing k else (k, Ok ()))
       (\<lambda>k1 u. (k1\<lparr>tk_running := FlagGuard_exit (tk_running k1), tk_point := TickDone\<rparr>, Ok ()))"

text \<open>One statement of \<open>ticker()\<close>.\<close>

definition TickerImpl_step :: "u64 \<Rightarrow> bool \<Rightarrow> ticker \<Rightarrow> ticker \<times> unit res" where
  "TickerImpl_step due closing k = (case tk_point k of
     TickLoop c \<Rightarrow>
       (if \<not> tk_stopped k \<and> (tk_max k = 0 \<or> c < tk_max k)
        then (case TimerAwaiter_isReady due (tk_awaiter k) of
                Ok True \<Rightarrow> (k\<lparr>tk_point := TickResumed c\<rparr>, Ok ())
              | Ok False \<Rightarrow>
                  (case TimerAwaiter_await_suspend (\<lambda>c. False) (Some tick_handle) (tk_awaiter k, tk_loop k) of
                     ((t, l), n) \<Rightarrow>
                       (k\<lparr>tk_awaiter := t, tk_loop := l, tk_point := TickAwaiting c\<rparr>, Ok ()))
              | Exn e \<Rightarrow> (k, Exn e)
              | Abort m \<Rightarrow> (k, Abort m))
        else TickerImpl_exit closing k)
   | TickResumed c \<Rightarrow>
       (case TimerAwaiter_await_resume (tk_awaiter k) of (t, b) \<Rightarrow>
          (let k1 = k\<lparr>tk_awaiter := t\<rparr>
           in if b then (if tk_stopped k then TickerImpl_exit closing k1
                         else (k1\<lparr>tk_point := TickYielded c, tk_out := tk_out k1 @ [c]\<rparr>, Ok ()))
              else (k1\<lparr>tk_point := TickLoop c\<rparr>, Ok ())))
   | _ \<Rightarrow> (k, Ok ()))"

text \<open>What happens around it: the timer fires, the event loop resumes the generator, the
  consumer asks for the next tick, the ticker is closed.\<close>

datatype tick_act = TickStep u64 bool | TickFires | TickTurn | TickNext | TickClose bool

definition tick_event :: "tick_act \<Rightarrow> ticker \<Rightarrow> ticker \<times> unit res" where
  "tick_event ev k = (case ev of
     TickStep due closing \<Rightarrow> TickerImpl_step due closing k
   | TickFires \<Rightarrow>
       (if ta_stopped (tk_awaiter k) then (k, Ok ())
        else case onMultiTimerFired (tk_awaiter k, tk_loop k) of (t, l) \<Rightarrow>
          (k\<lparr>tk_awaiter := t, tk_loop := l,
             tk_point := (case tk_point k of TickAwaiting c \<Rightarrow> TickScheduled c | p \<Rightarrow> p)\<rparr>, Ok ()))
   | TickTurn \<Rightarrow>
       (case Loop_getNext (\<lambda>c. False) (tk_loop k) of (l, t) \<Rightarrow>
          (case t of
             noop_coroutine \<Rightarrow> (k\<lparr>tk_loop := l\<rparr>, Ok ())
           | Coro c \<Rightarrow> (case tk_point k of
               TickScheduled i \<Rightarrow> (k\<lparr>tk_loop := l, tk_point := TickResumed i\<rparr>, Ok ())
             | _ \<Rightarrow> (k, Abort ''resume of a generator that is not suspended''))))
   | TickNext \<Rightarrow>
       (case tk_point k of TickYielded c \<Rightarrow> (k\<lparr>tk_point := TickLoop (c + 1)\<rparr>, Ok ()) | _ \<Rightarrow> (k, Ok ()))
   | TickClose closing \<Rightarrow> TickerImpl_close closing k)"

fun tick_run :: "tick_act list \<Rightarrow> ticker \<Rightarrow> ticker \<times> unit res" where
  "tick_run [] k = (k, Ok ())"
| "tick_run (e # es) k = rbind (tick_event e k) (\<lambda>k1 u. tick_run es k1)"

section \<open>Invariants\<close>

text \<open>The timer is closed at most once, after it was stopped, and not used afterwards.\<close>

definition ta_inv :: "timer_awaiter \<Rightarrow> bool" where
  "ta_inv t \<longleftrightarrow> (\<not> ta_timer t \<longrightarrow> ta_closed t \<and> ta_stopped t) \<and>
     (if ta_timer t then UvTimerClose \<notin> set (ta_uv t)
      else \<exists>cs. ta_uv t = cs @ [UvTimerClose] \<and> UvTimerClose \<notin> set cs \<and> UvTimerStop \<in> set cs) \<and>
     (ta_stopped t \<longleftrightarrow> UvTimerStop \<in> set (ta_uv t))"

text \<open>The loop variable at each point of the generator, after \<open>n\<close> ticks.\<close>

fun tick_at :: "u64 \<Rightarrow> nat \<Rightarrow> tick_point \<Rightarrow> bool" where
  "tick_at m n (TickLoop c) = (c = word_of_nat n)"
| "tick_at m n (TickAwaiting c) = (c = word_of_nat n \<and> (m \<noteq> 0 \<longrightarrow> n < unat m))"
| "tick_at m n (TickScheduled c) = (c = word_of_nat n \<and> (m \<noteq> 0 \<longrightarrow> n < unat m))"
| "tick_at m n (TickResumed c) = (c = word_of_nat n \<and> (m \<noteq> 0 \<longrightarrow> n < unat m))"
| "tick_at m n (TickYielded c) = (c + 1 = word_of_nat n)"
| "tick_at m n TickDone = True"

text \<open>Where the generator is, what it has yielded, and where its handle is.\<close>

definition tick_inv :: "ticker \<Rightarrow> bool" where
  "tick_inv k \<longleftrightarrow> ta_inv (tk_awaiter k) \<and>
     (tk_stopped k \<longleftrightarrow> ta_stopped (tk_awaiter k)) \<and>
     (\<not> tk_stopped k \<longrightarrow> ta_timer (tk_awaiter k)) \<and>
     (ta_handle (tk_awaiter k) \<noteq> None \<longleftrightarrow> (\<exists>c. tk_point k = TickAwaiting c)) \<and>
     resumable (loop_scheduler (tk_loop k)) =
       (case tk_point k of TickScheduled c \<Rightarrow> [Some tick_handle] | _ \<Rightarrow> []) \<and>
     (ta_handle (tk_awaiter k) = None \<or> ta_handle (tk_awaiter k) = Some tick_handle) \<and>
     tk_out k = map word_of_nat [0..<length (tk_out k)] \<and>
     (tk_max k \<noteq> 0 \<longrightarrow> length (tk_out k) \<le> unat (tk_max k)) \<and>
     tick_at (tk_max k) (length (tk_out k)) (tk_point k) \<and>
     (tk_point k = TickDone \<longrightarrow> tk_stopped k)"

section \<open>Lemmas\<close>

lemma ta_new_inv: "ta_inv (TimerAwaiter_new millis repeating)"
  by (simp add: ta_inv_def TimerAwaiter_new_def)

lemma ta_stop:
  assumes "ta_inv t"
  obtains t' where "TimerAwaiter_stop t = (t', Ok ())" "ta_inv t'" "ta_stopped t'"
    "ta_timer t' = ta_timer t" "ta_handle t' = ta_handle t" "ta_closed t' = ta_closed t"
  using assms that by (auto simp: TimerAwaiter_stop_def ta_inv_def split: if_splits)

lemma ta_close:
  assumes "ta_inv t" "ta_stopped t"
  shows "\<exists>t'. TimerAwaiter_close closing t = (t', Ok ()) \<and> ta_inv t' \<and> ta_stopped t' \<and>
    ta_handle t' = ta_handle t \<and> (\<not> closing \<and> \<not> ta_closed t \<longrightarrow> \<not> ta_timer t')"
  using assms
  by (cases "\<not> ta_timer t \<or> ta_closed t"; cases closing)
     (auto simp: TimerAwaiter_close_def TimerAwaiter_stop_def ta_inv_def Let_def split: if_splits)

lemma ta_resume:
  "TimerAwaiter_resume (t, l) = (t\<lparr>ta_handle := None\<rparr>,
     case ta_handle t of Some h \<Rightarrow> Loop_enqueue (Some h) l | None \<Rightarrow> l)"
  by (cases t) (simp add: TimerAwaiter_resume_def split: option.split)

lemma ta_inv_handle [simp]: "ta_inv (t\<lparr>ta_handle := h\<rparr>) = ta_inv t"
  by (simp add: ta_inv_def)

lemma tick_close_inv:
  assumes "tick_inv k"
  shows "\<exists>k'. TickerImpl_close closing k = (k', Ok ()) \<and> tick_inv k' \<and> tk_stopped k' \<and> tk_out k' = tk_out k \<and>
    tk_max k' = tk_max k"
proof -
  let ?t = "(tk_awaiter k)\<lparr>ta_handle := None\<rparr>"
  have "ta_inv ?t" using assms by (simp add: tick_inv_def)
  from ta_stop [OF this] obtain t1 where t1: "TimerAwaiter_stop ?t = (t1, Ok ())" "ta_inv t1" "ta_stopped t1"
    "ta_handle t1 = None" by auto
  from ta_close [OF t1(2,3), of closing] obtain t2 where t2: "TimerAwaiter_close closing t1 = (t2, Ok ())"
    "ta_inv t2" "ta_stopped t2" "ta_handle t2 = None" using t1(4) by auto
  show ?thesis using assms t1 t2
    by (cases "tk_point k")
       (auto simp: TickerImpl_close_def ta_resume tick_inv_def Scheduler_enqueue_def)
qed

lemma tick_exit_inv:
  assumes "tick_inv k" "\<And>c. tk_point k \<noteq> TickScheduled c" "\<And>c. tk_point k \<noteq> TickAwaiting c"
  shows "\<exists>k'. TickerImpl_exit closing k = (k', Ok ()) \<and> tick_inv k' \<and> tk_stopped k' \<and> tk_out k' = tk_out k \<and>
    tk_max k' = tk_max k"
proof -
  have d: "tick_inv (j\<lparr>tk_running := b, tk_point := TickDone\<rparr>)"
    if "tick_inv j" "tk_stopped j" "\<And>c. tk_point j \<noteq> TickScheduled c" "\<And>c. tk_point j \<noteq> TickAwaiting c" for j b
    using that by (cases "tk_point j") (auto simp: tick_inv_def)
  show ?thesis
  proof (cases "tk_stopped k")
    case True
    with d [OF assms(1)] assms show ?thesis by (simp add: TickerImpl_exit_def)
  next
    case False
    obtain k' where k': "TickerImpl_close closing k = (k', Ok ())" "tick_inv k'" "tk_stopped k'" "tk_out k' = tk_out k"
      "tk_max k' = tk_max k"
      using tick_close_inv [OF assms(1)] by blast
    have "tk_point k' = tk_point k"
      using k'(1) assms(2,3)
      by (cases "tk_point k") (auto simp: TickerImpl_close_def ta_resume rbind_def split: prod.splits res.splits)
    with d [OF k'(2,3)] assms k' False show ?thesis by (simp add: TickerImpl_exit_def)
  qed
qed

lemma word_less_count:
  fixes m :: u64
  assumes "n \<le> unat m" "word_of_nat n < m"
  shows "n < unat m"
proof -
  have "n < 2 ^ 64" using assms(1) unsigned_less [of m, where 'a = nat] by simp
  then have "unat (word_of_nat n :: u64) = n" by (simp add: unat_of_nat take_bit_nat_eq_self)
  with assms(2) show ?thesis by (simp add: word_less_nat_alt)
qed

lemma tick_step_inv:
  assumes inv: "tick_inv k"
  shows "\<exists>k'. TickerImpl_step due closing k = (k', Ok ()) \<and> tick_inv k' \<and> tk_max k' = tk_max k \<and>
    (tk_stopped k \<longrightarrow> tk_stopped k' \<and> tk_out k' = tk_out k)"
proof (cases "tk_point k")
  case (TickLoop c)
  show ?thesis
  proof (cases "\<not> tk_stopped k \<and> (tk_max k = 0 \<or> c < tk_max k)")
    case True
    then have "tk_max k \<noteq> 0 \<longrightarrow> length (tk_out k) < unat (tk_max k)"
      using inv TickLoop word_less_count [of "length (tk_out k)" "tk_max k"] by (auto simp: tick_inv_def)
    with True inv TickLoop loop_getNext_head(2) [of "tk_loop k" "\<lambda>c. False"] show ?thesis
      by (cases "due = 0")
         (auto simp: TickerImpl_step_def TimerAwaiter_isReady_def TimerAwaiter_await_suspend_def tick_inv_def)
  next
    case False
    with tick_exit_inv [OF inv, of closing] TickLoop show ?thesis by (auto simp: TickerImpl_step_def)
  qed
next
  case (TickResumed c)
  let ?k = "k\<lparr>tk_awaiter := (tk_awaiter k)\<lparr>ta_handle := None\<rparr>\<rparr>"
  have "tick_inv ?k" using inv TickResumed by (simp add: tick_inv_def)
  from tick_exit_inv [OF this, of closing] TickResumed inv show ?thesis
    by (cases "tk_stopped k")
       (auto simp: TickerImpl_step_def TimerAwaiter_await_resume_def tick_inv_def Let_def)
qed (use inv in \<open>simp_all add: TickerImpl_step_def\<close>)

lemma tick_event_inv:
  assumes inv: "tick_inv k"
  shows "\<exists>k'. tick_event ev k = (k', Ok ()) \<and> tick_inv k' \<and> tk_max k' = tk_max k \<and>
    (tk_stopped k \<longrightarrow> tk_stopped k' \<and> tk_out k' = tk_out k)"
proof (cases ev)
  case (TickStep due closing)
  with tick_step_inv [OF inv, of due closing] show ?thesis by (simp add: tick_event_def)
next
  case TickFires
  with inv show ?thesis
    by (cases "tk_point k")
       (auto simp: tick_event_def onMultiTimerFired_def ta_resume tick_inv_def Scheduler_enqueue_def)
next
  case TickTurn
  with inv show ?thesis
    by (cases "tk_point k")
       (auto simp: tick_event_def tick_inv_def loop_getNext_head)
next
  case TickNext
  with inv show ?thesis by (cases "tk_point k") (auto simp: tick_event_def tick_inv_def)
next
  case (TickClose closing)
  with tick_close_inv [OF inv, of closing] show ?thesis by (auto simp: tick_event_def)
qed

lemma tick_run_inv:
  "tick_inv k \<Longrightarrow> \<exists>k'. tick_run es k = (k', Ok ()) \<and> tick_inv k' \<and> tk_max k' = tk_max k \<and>
     (tk_stopped k \<longrightarrow> tk_out k' = tk_out k)"
proof (induction es arbitrary: k)
  case (Cons e es)
  from tick_event_inv [OF Cons.prems, of e] obtain k1 where
    "tick_event e k = (k1, Ok ())" "tick_inv k1" "tk_max k1 = tk_max k"
    "tk_stopped k \<longrightarrow> tk_stopped k1 \<and> tk_out k1 = tk_out k" by blast
  with Cons.IH [of k1] show ?case by auto
qed simp

lemma tick_new_inv: "tick_inv (tick_new millis count)"
  by (simp add: tick_inv_def tick_new_def ta_new_inv) (simp add: TimerAwaiter_new_def Loop_init_def)

section \<open>The properties of timers\<close>

text \<open>
  \<open>sleep()\<close> with a timer that is not due yet suspends; when the timer fires, the sleeping
  coroutine is scheduled exactly once, a further firing does nothing, its verification holds, and
  the timer is stopped and closed exactly once.
\<close>

theorem sleep_wakes_once:
  assumes "due \<noteq> 0" "resumable (loop_scheduler l) = []"
  shows "\<exists>t1 l1 t2. sleep_start fin (Some c) millis due l = ((t1, l1), Ok (Some noop_coroutine)) \<and>
    onSingleTimerDone (t1, l1) = ((t2, Loop_enqueue (Some c) l1), Ok ()) \<and>
    onSingleTimerDone (t2, l1) = ((t2, l1), Ok ()) \<and>
    (\<exists>t3. sleep_resume False t2 = (t3, Ok ()) \<and>
       ta_uv t3 = [UvTimerStartOnce millis, UvTimerStop, UvTimerClose])"
  using assms loop_getNext_head(2) [OF assms(2), of fin]
  by (simp add: sleep_start_def TimerAwaiter_new_def TimerAwaiter_isReady_def TimerAwaiter_await_suspend_def
      onSingleTimerDone_def TimerAwaiter_stop_def ta_resume sleep_resume_def TimerAwaiter_await_resume_def
      TimerAwaiter_destroy_def TimerAwaiter_close_def Let_def)

theorem sleep_wakes_once_witness:
  "\<exists>t1 l1 t2. sleep_start (\<lambda>c. False) (Some 3) 100 100 Loop_init = ((t1, l1), Ok (Some noop_coroutine)) \<and>
    onSingleTimerDone (t1, l1) = ((t2, Loop_enqueue (Some 3) l1), Ok ()) \<and>
    onSingleTimerDone (t2, l1) = ((t2, l1), Ok ()) \<and>
    (\<exists>t3. sleep_resume False t2 = (t3, Ok ()) \<and>
       ta_uv t3 = [UvTimerStartOnce 100, UvTimerStop, UvTimerClose])"
  by (rule sleep_wakes_once) (simp_all add: Loop_init_def)

text \<open>
  \<open>sleep(loop, 0)\<close>, or any sleep whose timer is due when it is awaited, does not suspend and
  then fails its own verification: the awaiter reports a timer that has not been stopped.
\<close>

theorem sleep_due_aborts:
  "snd (sleep_start fin self millis 0 l) = Abort ''!co_await awaiter''"
  by (simp add: sleep_start_def TimerAwaiter_new_def TimerAwaiter_isReady_def sleep_resume_def
      TimerAwaiter_await_resume_def Let_def)

text \<open>
  C33: A ticker yields 0, 1, 2, ... without gaps or repetitions, at most \<open>count\<close> of them when a
  count was given, in every interleaving of timer events, consumer requests and \<open>close()\<close>;
  nothing in it aborts, the timer is closed at most once, and it is stopped when the generator
  is done.
\<close>

theorem ticker_counts:
  "\<exists>k. tick_run es (tick_new millis count) = (k, Ok ()) \<and>
     tk_out k = map word_of_nat [0..<length (tk_out k)] \<and>
     (count \<noteq> 0 \<longrightarrow> length (tk_out k) \<le> unat count) \<and>
     (tk_point k = TickDone \<longrightarrow> UvTimerStop \<in> set (ta_uv (tk_awaiter k))) \<and>
     count_list (ta_uv (tk_awaiter k)) UvTimerClose \<le> 1"
proof -
  obtain k where k: "tick_run es (tick_new millis count) = (k, Ok ())" "tick_inv k"
    "tk_max k = tk_max (tick_new millis count)"
    using tick_run_inv [OF tick_new_inv] by blast
  have t: "ta_inv (tk_awaiter k)" using k(2) by (simp add: tick_inv_def)
  have "count_list (ta_uv (tk_awaiter k)) UvTimerClose \<le> 1"
  proof (cases "ta_timer (tk_awaiter k)")
    case True
    with t have "UvTimerClose \<notin> set (ta_uv (tk_awaiter k))" by (simp add: ta_inv_def)
    then show ?thesis by (simp add: count_list_0_iff)
  next
    case False
    with t obtain cs where "ta_uv (tk_awaiter k) = cs @ [UvTimerClose]" "UvTimerClose \<notin> set cs"
      by (auto simp: ta_inv_def)
    then show ?thesis by (simp add: count_list_append count_list_0_iff)
  qed
  moreover have "tk_max (tick_new millis count) = count" by (simp add: tick_new_def)
  ultimately show ?thesis using k by (auto simp: tick_inv_def ta_inv_def)
qed

theorem ticker_counts_witness:
  "\<exists>k. tick_run [TickStep 5 False, TickFires, TickTurn, TickStep 5 False, TickNext, TickStep 5 False] (tick_new 5 2) = (k, Ok ()) \<and>
     tk_out k = map word_of_nat [0..<length (tk_out k)] \<and> length (tk_out k) \<le> 2"
  using ticker_counts [of "[TickStep 5 False, TickFires, TickTurn, TickStep 5 False, TickNext, TickStep 5 False]" 5 2] by auto

text \<open>
  After \<open>close()\<close> a ticker yields nothing more.
\<close>

theorem ticker_closed_is_silent:
  assumes "tick_run es (tick_new millis count) = (k, Ok ())"
  shows "\<exists>k1 k2. TickerImpl_close closing k = (k1, Ok ()) \<and> tick_run fs k1 = (k2, Ok ()) \<and> tk_out k2 = tk_out k"
proof -
  have "tick_inv k" using tick_run_inv [OF tick_new_inv [of millis count], of es] assms by auto
  from tick_close_inv [OF this, of closing] obtain k1 where
    "TickerImpl_close closing k = (k1, Ok ())" "tick_inv k1" "tk_stopped k1" "tk_out k1 = tk_out k" by blast
  with tick_run_inv [of k1 fs] show ?thesis by auto
qed

theorem ticker_closed_is_silent_witness:
  "\<exists>k1 k2. TickerImpl_close False (fst (tick_run [TickStep 5 False, TickFires] (tick_new 10 0))) = (k1, Ok ()) \<and>
     tick_run [TickTurn, TickStep 5 False, TickStep 5 False] k1 = (k2, Ok ()) \<and>
     tk_out k2 = tk_out (fst (tick_run [TickStep 5 False, TickFires] (tick_new 10 0)))"
proof (rule ticker_closed_is_silent)
  let ?r = "tick_run [TickStep 5 False, TickFires] (tick_new 10 0)"
  have "snd ?r = Ok ()" by code_simp
  then show "?r = (fst ?r, Ok ())" by (metis prod.collapse)
qed

end
