(* ===== verification/Request_Pool.thy ===== *)
theory Request_Pool
  imports Uv_Handles
begin

text \<open>
  Requests to libuv. File operations, thread-pool work, name lookups and connection attempts have
  a shape in common: a coroutine submits a request to libuv and suspends; the callback completes it
  and wakes the coroutine, which takes the result and cleans up; or the coroutine is destroyed
  first and the callback, which still comes, finds nobody and cleans up.

  The components model one request each. This theory puts any number of them on one event loop,
  in any interleaving, and states as the locale \<open>uv_request\<close> what a component has to promise of one
  request for all of them to be answered correctly. Each component interprets it on its own
  operations.
\<close>

section \<open>Any number of requests on one loop\<close>

text \<open>
  The operations of one request. \<open>ro_start\<close> submits it for a coroutine and suspends that,
  \<open>ro_callback\<close> is libuv's callback, \<open>ro_finish\<close> the resumed coroutine up to its end, \<open>ro_cancel\<close>
  what the destruction of the suspended coroutine does to the request. The parameter of
  \<open>ro_finish\<close> says which operation it is, of those that share an awaiter. \<open>ro_in_frame\<close> tells
  the operations whose worker uses memory of the coroutine's frame.
\<close>

record ('s, 'j, 'a, 'r) request_ops =
  ro_start :: "coro \<Rightarrow> loop \<Rightarrow> 's"
  ro_callback :: "'a \<Rightarrow> 's \<Rightarrow> 's \<times> unit res"
  ro_finish :: "'j \<Rightarrow> 's \<Rightarrow> 's \<times> 'r res"
  ro_cancel :: "'s \<Rightarrow> 's"
  ro_loop :: "'s \<Rightarrow> loop"
  ro_set_loop :: "loop \<Rightarrow> 's \<Rightarrow> 's"
  ro_in_frame :: "'j \<Rightarrow> bool"

datatype frame_phase = FrameSuspended | FrameAtEnd

text \<open>
  Each request has a coroutine of its own, and its number. \<open>rp_frame\<close> is \<open>None\<close> for a frame that
  does not exist. \<open>rp_running\<close> are the requests a worker of libuv has taken, \<open>rp_log\<close> the callbacks
  that have come, in order; \<open>rp_early\<close> and \<open>rp_late\<close> the coroutines destroyed before their callback,
  and between the callback and the resumption; \<open>rp_results\<close> what the others returned or threw.
\<close>

record ('s, 'j, 'a, 'r) rpool =
  rp_req :: "coro \<Rightarrow> ('j \<times> 's) option"
  rp_frame :: "coro \<Rightarrow> frame_phase option"
  rp_loop :: loop
  rp_next :: coro
  rp_running :: "coro list"
  rp_log :: "(coro \<times> 'a) list"
  rp_early :: "coro list"
  rp_late :: "coro list"
  rp_results :: "(coro \<times> 'r res) list"

definition rp_start :: "('s, 'j, 'a, 'r) rpool" where
  "rp_start = \<lparr>rp_req = (\<lambda>c. None), rp_frame = (\<lambda>c. None), rp_loop = Loop_init, rp_next = 0, rp_running = [],
     rp_log = [], rp_early = [], rp_late = [], rp_results = []\<rparr>"

definition rp_queue :: "('s, 'j, 'a, 'r) rpool \<Rightarrow> coro list" where
  "rp_queue p = loop_pending (\<lambda>d. False) (rp_loop p)"

definition rp_logged :: "('s, 'j, 'a, 'r) rpool \<Rightarrow> coro \<Rightarrow> bool" where
  "rp_logged p c \<longleftrightarrow> c \<in> set (map fst (rp_log p))"

definition rp_fin :: "('s, 'j, 'a, 'r) rpool \<Rightarrow> coro \<Rightarrow> bool" where
  "rp_fin p c \<longleftrightarrow> rp_frame p c = Some FrameAtEnd"

datatype ('j, 'a) req_event = ReqSubmit 'j | ReqTake coro | ReqWork coro | ReqCallback coro 'a | ReqTurn | ReqDrop coro

definition rp_submit :: "('s, 'j, 'a, 'r) request_ops \<Rightarrow> 'j \<Rightarrow> ('s, 'j, 'a, 'r) rpool \<Rightarrow> ('s, 'j, 'a, 'r) rpool \<times> unit res" where
  "rp_submit ops j p = (let c = rp_next p; s = ro_start ops c (rp_loop p) in
     (p\<lparr>rp_req := (rp_req p)(c \<mapsto> (j, s)), rp_frame := (rp_frame p)(c \<mapsto> FrameSuspended), rp_loop := ro_loop ops s,
        rp_next := Suc c\<rparr>, Ok ()))"

definition rp_work :: "('s, 'j, 'a, 'r) request_ops \<Rightarrow> coro \<Rightarrow> ('s, 'j, 'a, 'r) rpool \<Rightarrow> ('s, 'j, 'a, 'r) rpool \<times> unit res" where
  "rp_work ops c p = (case rp_req p c of
     None \<Rightarrow> (p, Abort ''no such request'')
   | Some (j, s) \<Rightarrow> (if ro_in_frame ops j \<and> rp_frame p c = None then (p, Abort ''use of a destroyed frame'') else (p, Ok ())))"

definition rp_callback ::
  "('s, 'j, 'a, 'r) request_ops \<Rightarrow> coro \<Rightarrow> 'a \<Rightarrow> ('s, 'j, 'a, 'r) rpool \<Rightarrow> ('s, 'j, 'a, 'r) rpool \<times> unit res" where
  "rp_callback ops c a p = (case rp_req p c of
     None \<Rightarrow> (p, Abort ''no such request'')
   | Some (j, s) \<Rightarrow> (case ro_callback ops a (ro_set_loop ops (rp_loop p) s) of (s1, r) \<Rightarrow>
       (p\<lparr>rp_req := (rp_req p)(c \<mapsto> (j, s1)), rp_loop := ro_loop ops s1, rp_running := filter (\<lambda>d. d \<noteq> c) (rp_running p),
          rp_log := rp_log p @ [(c, a)]\<rparr>, r)))"

definition rp_resume :: "('s, 'j, 'a, 'r) request_ops \<Rightarrow> coro \<Rightarrow> ('s, 'j, 'a, 'r) rpool \<Rightarrow> ('s, 'j, 'a, 'r) rpool \<times> unit res" where
  "rp_resume ops c p = (case (rp_frame p c, rp_req p c) of
     (Some FrameSuspended, Some (j, s)) \<Rightarrow>
       (case ro_finish ops j (ro_set_loop ops (rp_loop p) s) of
          (s1, Abort m) \<Rightarrow> (p, Abort m)
        | (s1, v) \<Rightarrow>
            (p\<lparr>rp_req := (rp_req p)(c \<mapsto> (j, s1)), rp_frame := (rp_frame p)(c \<mapsto> FrameAtEnd), rp_loop := ro_loop ops s1,
               rp_results := rp_results p @ [(c, v)]\<rparr>, Ok ()))
   | _ \<Rightarrow> (p, Abort ''resume of a coroutine that is not suspended''))"

definition rp_turn :: "('s, 'j, 'a, 'r) request_ops \<Rightarrow> ('s, 'j, 'a, 'r) rpool \<Rightarrow> ('s, 'j, 'a, 'r) rpool \<times> unit res" where
  "rp_turn ops p = (case Loop_getNext (rp_fin p) (rp_loop p) of (l, t) \<Rightarrow>
     (case t of noop_coroutine \<Rightarrow> (p\<lparr>rp_loop := l\<rparr>, Ok ()) | Coro c \<Rightarrow> rp_resume ops c (p\<lparr>rp_loop := l\<rparr>)))"

text \<open>The promise is destroyed: the coroutine leaves the ready queue, then its frame goes.\<close>

definition rp_drop :: "('s, 'j, 'a, 'r) request_ops \<Rightarrow> coro \<Rightarrow> ('s, 'j, 'a, 'r) rpool \<Rightarrow> ('s, 'j, 'a, 'r) rpool \<times> unit res" where
  "rp_drop ops c p = (case (rp_frame p c, rp_req p c) of
     (Some FrameAtEnd, _) \<Rightarrow> (p\<lparr>rp_frame := (rp_frame p)(c := None), rp_loop := Loop_cancel c (rp_loop p)\<rparr>, Ok ())
   | (Some FrameSuspended, Some (j, s)) \<Rightarrow>
       (let s1 = ro_cancel ops (ro_set_loop ops (Loop_cancel c (rp_loop p)) s);
            p1 = p\<lparr>rp_req := (rp_req p)(c \<mapsto> (j, s1)), rp_frame := (rp_frame p)(c := None), rp_loop := ro_loop ops s1\<rparr>
        in (if rp_logged p c then p1\<lparr>rp_late := rp_late p @ [c]\<rparr> else p1\<lparr>rp_early := rp_early p @ [c]\<rparr>, Ok ()))
   | _ \<Rightarrow> (p, Abort ''destruction of a destroyed coroutine''))"

definition rp_step :: "('s, 'j, 'a, 'r) request_ops \<Rightarrow> ('j, 'a) req_event \<Rightarrow> ('s, 'j, 'a, 'r) rpool \<Rightarrow>
    ('s, 'j, 'a, 'r) rpool \<times> unit res" where
  "rp_step ops ev p = (case ev of
     ReqSubmit j \<Rightarrow> rp_submit ops j p
   | ReqTake c \<Rightarrow> (p\<lparr>rp_running := rp_running p @ [c]\<rparr>, Ok ())
   | ReqWork c \<Rightarrow> rp_work ops c p
   | ReqCallback c a \<Rightarrow> rp_callback ops c a p
   | ReqTurn \<Rightarrow> rp_turn ops p
   | ReqDrop c \<Rightarrow> rp_drop ops c p)"

text \<open>
  What libuv promises: a worker takes a request that was not cancelled before and works only
  then; every request is called back at most once, with arguments that report a completion
  unless it was cancelled. What the program promises: a promise is destroyed once, and not while
  a worker uses memory of its coroutine's frame.
\<close>

definition rp_guard :: "('s, 'j, 'a, 'r) request_ops \<Rightarrow> ('a \<Rightarrow> bool) \<Rightarrow> ('j, 'a) req_event \<Rightarrow> ('s, 'j, 'a, 'r) rpool \<Rightarrow> bool" where
  "rp_guard ops completion ev p = (case ev of
     ReqSubmit j \<Rightarrow> True
   | ReqTake c \<Rightarrow> c < rp_next p \<and> \<not> rp_logged p c \<and> c \<notin> set (rp_early p) \<and> c \<notin> set (rp_running p)
   | ReqWork c \<Rightarrow> c \<in> set (rp_running p)
   | ReqCallback c a \<Rightarrow> c < rp_next p \<and> \<not> rp_logged p c \<and> (completion a \<or> c \<in> set (rp_early p))
   | ReqTurn \<Rightarrow> True
   | ReqDrop c \<Rightarrow> rp_frame p c \<noteq> None \<and>
       (case rp_req p c of None \<Rightarrow> False | Some (j, s) \<Rightarrow> ro_in_frame ops j \<longrightarrow> c \<notin> set (rp_running p)))"

text \<open>The answers that are due: the outcome of each callback whose coroutine was not destroyed, in order.\<close>

definition rp_answers :: "('j \<Rightarrow> 'a \<Rightarrow> 'r res) \<Rightarrow> ('s, 'j, 'a, 'r) rpool \<Rightarrow> (coro \<times> 'r res) list" where
  "rp_answers outcome p =
     map (\<lambda>(c, a). (c, outcome (fst (the (rp_req p c))) a))
       (filter (\<lambda>(c, a). c \<notin> set (rp_early p @ rp_late p)) (rp_log p))"

text \<open>The state of a request that has had its result, or was abandoned and called back.\<close>

definition rp_ended :: "('s, 'j, 'a, 'r) rpool \<Rightarrow> coro \<Rightarrow> bool" where
  "rp_ended p c \<longleftrightarrow> c \<in> set (map fst (rp_results p)) \<or> (c \<in> set (rp_early p) \<and> rp_logged p c)"

section \<open>The interface\<close>

text \<open>
  What a component promises of one request, phase by phase: \<open>awaiting\<close> is a submitted request whose
  coroutine is suspended, \<open>answered\<close> one that was called back and whose coroutine is scheduled,
  \<open>abandoned\<close> one whose coroutine was destroyed before the callback; \<open>settled\<close> says that everything
  was released exactly once, after the callback whose outcome the coroutine got or, with \<open>None\<close>,
  after it was abandoned, and \<open>late\<close> what is left of a request whose coroutine was destroyed between
  the callback and its resumption. \<open>completion\<close> says which arguments of the callback report a
  completion, and \<open>outcome\<close> what the coroutine makes of them.
\<close>

locale uv_request =
  fixes ops :: "('s, 'j, 'a, 'r) request_ops"
    and awaiting :: "coro \<Rightarrow> 's \<Rightarrow> bool"
    and answered :: "'a \<Rightarrow> 's \<Rightarrow> bool"
    and abandoned :: "'s \<Rightarrow> bool"
    and settled :: "'a option \<Rightarrow> 's \<Rightarrow> bool"
    and late :: "'s \<Rightarrow> bool"
    and completion :: "'a \<Rightarrow> bool"
    and outcome :: "'j \<Rightarrow> 'a \<Rightarrow> 'r res"
  assumes set_loop: "ro_loop ops (ro_set_loop ops l s) = l" "awaiting h (ro_set_loop ops l s) = awaiting h s"
      "answered a (ro_set_loop ops l s) = answered a s" "abandoned (ro_set_loop ops l s) = abandoned s"
    and start_awaits: "awaiting h (ro_start ops h l)" "ro_loop ops (ro_start ops h l) = l"
    and callback_answers: "awaiting h s \<Longrightarrow> completion a \<Longrightarrow>
      \<exists>s'. ro_callback ops a s = (s', Ok ()) \<and> answered a s' \<and> ro_loop ops s' = Loop_enqueue (Some h) (ro_loop ops s)"
    and finish_settles: "answered a s \<Longrightarrow> completion a \<Longrightarrow>
      \<exists>s'. ro_finish ops j s = (s', outcome j a) \<and> settled (Some a) s' \<and> ro_loop ops s' = ro_loop ops s"
    and outcome_defined: "completion a \<Longrightarrow> outcome j a \<noteq> Abort m"
    and cancel_abandons: "awaiting h s \<Longrightarrow> abandoned (ro_cancel ops s) \<and> ro_loop ops (ro_cancel ops s) = ro_loop ops s"
    and callback_settles: "abandoned s \<Longrightarrow>
      \<exists>s'. ro_callback ops a s = (s', Ok ()) \<and> settled None s' \<and> ro_loop ops s' = ro_loop ops s"
    and cancel_late: "answered a s \<Longrightarrow> late (ro_cancel ops s) \<and> ro_loop ops (ro_cancel ops s) = ro_loop ops s"
begin

text \<open>One request alone: completed, or cancelled.\<close>

lemma completes:
  assumes "completion a"
  shows "\<exists>s1 s2. ro_callback ops a (ro_start ops h l) = (s1, Ok ()) \<and> ro_loop ops s1 = Loop_enqueue (Some h) l \<and>
    ro_finish ops j s1 = (s2, outcome j a) \<and> settled (Some a) s2"
  using callback_answers [OF start_awaits(1) assms] finish_settles [OF _ assms] start_awaits(2) by metis

lemma cancelled: "\<exists>s2. ro_callback ops a (ro_cancel ops (ro_start ops h l)) = (s2, Ok ()) \<and> settled None s2 \<and> ro_loop ops s2 = l"
  using callback_settles cancel_abandons [OF start_awaits(1)] start_awaits(2) by metis

lemma lifecycle:
  assumes "completion a"
  shows "(\<exists>s1 s2. ro_callback ops a (ro_start ops h l) = (s1, Ok ()) \<and> ro_loop ops s1 = Loop_enqueue (Some h) l \<and>
      ro_finish ops j s1 = (s2, outcome j a) \<and> settled (Some a) s2) \<and>
    (\<exists>s2. ro_callback ops b (ro_cancel ops (ro_start ops h l)) = (s2, Ok ()) \<and> settled None s2 \<and> ro_loop ops s2 = l)"
  using completes [OF assms] cancelled by blast

text \<open>
  The invariant of request \<open>c\<close>: its state \<open>q\<close>, its frame \<open>f\<close>, whether its coroutine was destroyed early
  (\<open>e\<close>) or late (\<open>x\<close>), the callback \<open>g\<close> that has come, whether it is in the ready queue (\<open>i\<close>) and
  whether a worker has it (\<open>w\<close>), with \<open>n\<close> requests in all.
\<close>

definition one_inv :: "coro \<Rightarrow> ('j \<times> 's) option \<Rightarrow> frame_phase option \<Rightarrow> bool \<Rightarrow> bool \<Rightarrow> 'a option \<Rightarrow> bool \<Rightarrow> bool \<Rightarrow> coro \<Rightarrow> bool" where
  "one_inv c q f e x g i w n \<longleftrightarrow> (case q of
     None \<Rightarrow> n \<le> c \<and> f = None \<and> \<not> e \<and> \<not> x \<and> g = None \<and> \<not> i \<and> \<not> w
   | Some (j, s) \<Rightarrow> c < n \<and>
       (case g of
          None \<Rightarrow> \<not> i \<and> \<not> x \<and>
            (if e then f = None \<and> abandoned s \<and> \<not> (w \<and> ro_in_frame ops j) else f = Some FrameSuspended \<and> awaiting c s)
        | Some a \<Rightarrow> \<not> w \<and>
            (if e then f = None \<and> settled None s \<and> \<not> i \<and> \<not> x
             else completion a \<and>
               (if x then f = None \<and> late s \<and> \<not> i
                else if i then f = Some FrameSuspended \<and> answered a s
                else f \<noteq> Some FrameSuspended \<and> settled (Some a) s))))"

abbreviation req_inv :: "('s, 'j, 'a, 'r) rpool \<Rightarrow> coro \<Rightarrow> bool" where
  "req_inv p c \<equiv> one_inv c (rp_req p c) (rp_frame p c) (c \<in> set (rp_early p)) (c \<in> set (rp_late p)) (map_of (rp_log p) c)
     (c \<in> set (rp_queue p)) (c \<in> set (rp_running p)) (rp_next p)"

definition in_order :: "('s, 'j, 'a, 'r) rpool \<Rightarrow> bool" where
  "in_order p \<longleftrightarrow> (\<exists>rest. rp_answers outcome p = rp_results p @ rest \<and> map fst rest = rp_queue p)"

definition pool_inv :: "('s, 'j, 'a, 'r) rpool \<Rightarrow> bool" where
  "pool_inv p \<longleftrightarrow> (\<forall>c. req_inv p c) \<and> distinct (map fst (rp_log p)) \<and> in_order p"

lemma pool_invD:
  assumes "pool_inv p"
  shows "req_inv p c" "distinct (map fst (rp_log p))" "in_order p"
  using assms by (auto simp: pool_inv_def)

lemma req_invE:
  assumes "pool_inv p" "c < rp_next p"
  obtains j s where "rp_req p c = Some (j, s)"
  using pool_invD(1) [OF assms(1), of c] assms(2) by (cases "rp_req p c") (auto simp: one_inv_def)

lemma logged_map_of: "rp_logged p c \<longleftrightarrow> map_of (rp_log p) c \<noteq> None"
  by (simp add: rp_logged_def map_of_eq_None_iff)

lemma answers_cong:
  assumes "rp_log p' = rp_log p" "set (rp_early p' @ rp_late p') \<inter> set (map fst (rp_log p)) = set (rp_early p @ rp_late p) \<inter> set (map fst (rp_log p))"
    and "\<And>c. c \<in> set (map fst (rp_log p)) \<Longrightarrow> map_option fst (rp_req p' c) = map_option fst (rp_req p c)"
    and "\<And>c. c \<in> set (map fst (rp_log p)) \<Longrightarrow> rp_req p c \<noteq> None"
  shows "rp_answers outcome p' = rp_answers outcome p"
proof -
  have f: "filter (\<lambda>(c, a). c \<notin> set (rp_early p' @ rp_late p')) (rp_log p) = filter (\<lambda>(c, a). c \<notin> set (rp_early p @ rp_late p)) (rp_log p)"
  proof (rule filter_cong)
    fix x assume "x \<in> set (rp_log p)"
    then have "fst x \<in> set (map fst (rp_log p))" by simp
    then have "fst x \<in> set (rp_early p' @ rp_late p') \<longleftrightarrow> fst x \<in> set (rp_early p @ rp_late p)" using assms(2) by blast
    then show "(case x of (c, a) \<Rightarrow> c \<notin> set (rp_early p' @ rp_late p')) = (case x of (c, a) \<Rightarrow> c \<notin> set (rp_early p @ rp_late p))"
      by (auto simp: case_prod_unfold)
  qed simp
  have j: "fst (the (rp_req p' c)) = fst (the (rp_req p c))" if "(c, a) \<in> set (rp_log p)" for c a
  proof -
    have c: "c \<in> set (map fst (rp_log p))" using that by force
    from assms(3) [OF c] assms(4) [OF c] show ?thesis by (cases "rp_req p c"; cases "rp_req p' c") auto
  qed
  show ?thesis unfolding rp_answers_def assms(1) f using j by (intro map_cong) auto
qed

lemma logged_known:
  assumes "pool_inv p" "c \<in> set (map fst (rp_log p))"
  shows "rp_req p c \<noteq> None"
proof -
  have "map_of (rp_log p) c \<noteq> None" using assms(2) by (simp add: map_of_eq_None_iff)
  with pool_invD(1) [OF assms(1), of c] show ?thesis by (cases "rp_req p c") (auto simp: one_inv_def)
qed

lemma queue_eqs [simp]:
  "rp_queue (p\<lparr>rp_loop := l\<rparr>) = loop_pending (\<lambda>d. False) l"
  "rp_queue (p\<lparr>rp_running := ws\<rparr>) = rp_queue p"
  by (simp_all add: rp_queue_def)

lemma submit_inv:
  assumes inv: "pool_inv p"
  shows "\<exists>p'. rp_step ops (ReqSubmit j) p = (p', Ok ()) \<and> pool_inv p'"
proof -
  let ?c = "rp_next p" and ?s = "ro_start ops (rp_next p) (rp_loop p)"
  let ?p = "p\<lparr>rp_req := (rp_req p)(?c \<mapsto> (j, ?s)), rp_frame := (rp_frame p)(?c \<mapsto> FrameSuspended), rp_loop := rp_loop p,
    rp_next := Suc ?c\<rparr>"
  have q: "rp_queue ?p = rp_queue p" by (simp add: rp_queue_def)
  have c: "rp_req p ?c = None" using pool_invD(1) [OF inv, of ?c] by (cases "rp_req p ?c") (auto simp: one_inv_def)
  have nl: "?c \<notin> set (map fst (rp_log p))" using logged_known [OF inv, of ?c] c by blast
  have "req_inv ?p d" for d
    using pool_invD(1) [OF inv, of d] pool_invD(1) [OF inv, of ?c] c start_awaits(1) unfolding q
    by (cases "rp_req p d") (auto simp: one_inv_def split: option.splits if_splits)
  moreover have "in_order ?p"
  proof -
    have "rp_answers outcome ?p = rp_answers outcome p"
      by (rule answers_cong) (use nl logged_known [OF inv] in \<open>auto simp: image_iff\<close>)
    then show ?thesis using pool_invD(3) [OF inv] unfolding in_order_def q by simp
  qed
  ultimately have "pool_inv ?p" using pool_invD(2) [OF inv] by (simp add: pool_inv_def)
  then show ?thesis by (simp add: rp_step_def rp_submit_def start_awaits Let_def)
qed

lemma worker_inv:
  assumes inv: "pool_inv p" and g: "rp_guard ops completion ev p" and ev: "ev = ReqTake c \<or> ev = ReqWork c"
  shows "\<exists>p'. rp_step ops ev p = (p', Ok ()) \<and> pool_inv p'"
  using ev
proof
  assume ev: "ev = ReqTake c"
  let ?p = "p\<lparr>rp_running := rp_running p @ [c]\<rparr>"
  have c: "c < rp_next p" "map_of (rp_log p) c = None" "c \<notin> set (rp_early p)"
    using g ev by (auto simp: rp_guard_def logged_map_of)
  have "req_inv ?p d" for d
    using pool_invD(1) [OF inv, of d] c by (cases "rp_req p d") (auto simp: one_inv_def split: option.splits if_splits)
  moreover have "rp_answers outcome ?p = rp_answers outcome p" by (simp add: rp_answers_def)
  ultimately have "pool_inv ?p" using pool_invD(2,3) [OF inv] by (simp add: pool_inv_def in_order_def)
  then show ?thesis using ev by (simp add: rp_step_def)
next
  assume ev: "ev = ReqWork c"
  have "c \<in> set (rp_running p)" using g ev by (simp add: rp_guard_def)
  with pool_invD(1) [OF inv, of c] have "rp_step ops ev p = (p, Ok ())"
    by (cases "rp_req p c") (auto simp: ev one_inv_def rp_step_def rp_work_def split: option.splits if_splits)
  with inv show ?thesis by blast
qed

lemma pool_callback_inv:
  assumes inv: "pool_inv p" and g: "rp_guard ops completion (ReqCallback c a) p"
  shows "\<exists>p'. rp_step ops (ReqCallback c a) p = (p', Ok ()) \<and> pool_inv p'"
proof -
  have c: "c < rp_next p" "map_of (rp_log p) c = None" "completion a \<or> c \<in> set (rp_early p)"
    using g by (auto simp: rp_guard_def logged_map_of)
  obtain j s where q: "rp_req p c = Some (j, s)" using req_invE [OF inv c(1)] .
  let ?s = "ro_set_loop ops (rp_loop p) s" and ?e = "c \<in> set (rp_early p)"
  have one: "c \<notin> set (rp_queue p)" "c \<notin> set (rp_late p)" "?e \<Longrightarrow> abandoned ?s \<and> rp_frame p c = None"
    "\<not> ?e \<Longrightarrow> awaiting c ?s \<and> rp_frame p c = Some FrameSuspended"
    using pool_invD(1) [OF inv, of c] q c(2) by (auto simp: one_inv_def set_loop)
  obtain s1 where s1: "ro_callback ops a ?s = (s1, Ok ())" "?e \<Longrightarrow> settled None s1" "\<not> ?e \<Longrightarrow> answered a s1"
    "ro_loop ops s1 = (if ?e then rp_loop p else Loop_enqueue (Some c) (rp_loop p))"
    using callback_settles [of ?s a] callback_answers [of c ?s a] one(3,4) c(3) set_loop(1) by (cases ?e) auto
  let ?p = "p\<lparr>rp_req := (rp_req p)(c \<mapsto> (j, s1)), rp_loop := ro_loop ops s1, rp_running := filter (\<lambda>d. d \<noteq> c) (rp_running p),
    rp_log := rp_log p @ [(c, a)]\<rparr>"
  have qu: "rp_queue ?p = rp_queue p @ (if ?e then [] else [c])" by (simp add: rp_queue_def s1(4) loop_pending_enqueue)
  have "req_inv ?p d" for d
  proof (cases "d = c")
    case True
    show ?thesis unfolding qu True using c q one s1(2,3) by (cases ?e) (simp_all add: one_inv_def map_add_def)
  next
    case False
    then have "req_inv ?p d = req_inv p d" unfolding qu by (cases "map_of (rp_log p) d") (simp_all add: map_add_def)
    with pool_invD(1) [OF inv, of d] show ?thesis by blast
  qed
  moreover have "distinct (map fst (rp_log ?p))" using pool_invD(2) [OF inv] c(2) by (simp add: map_of_eq_None_iff)
  moreover have "in_order ?p"
  proof -
    let ?u = "p\<lparr>rp_req := (rp_req p)(c \<mapsto> (j, s1))\<rparr>"
    have "rp_answers outcome ?u = rp_answers outcome p"
      by (rule answers_cong) (use q logged_known [OF inv] in auto)
    moreover have "rp_answers outcome ?p = rp_answers outcome ?u @ (if ?e then [] else [(c, outcome j a)])"
      using one(2) by (cases ?e) (auto simp: rp_answers_def)
    ultimately have "rp_answers outcome ?p = rp_answers outcome p @ (if ?e then [] else [(c, outcome j a)])" by simp
    with pool_invD(3) [OF inv] show ?thesis unfolding in_order_def qu by (cases ?e) auto
  qed
  ultimately have "pool_inv ?p" by (simp add: pool_inv_def)
  then show ?thesis using q s1(1) by (simp add: rp_step_def rp_callback_def)
qed

lemma answers_distinct:
  assumes "pool_inv p"
  shows "distinct (map fst (rp_answers outcome p))"
proof -
  have "map fst (rp_answers outcome p) = filter (\<lambda>c. c \<notin> set (rp_early p @ rp_late p)) (map fst (rp_log p))"
    by (simp add: rp_answers_def filter_map comp_def case_prod_unfold)
  then show ?thesis using pool_invD(2) [OF assms] by simp
qed

lemma answers_mem:
  assumes "pool_inv p" "(c, v) \<in> set (rp_answers outcome p)" "map_of (rp_log p) c = Some a"
  shows "v = outcome (fst (the (rp_req p c))) a"
proof -
  obtain b where "(c, b) \<in> set (rp_log p)" "v = outcome (fst (the (rp_req p c))) b" using assms(2) by (auto simp: rp_answers_def)
  then show ?thesis using map_of_is_SomeI [OF pool_invD(2) [OF assms(1)]] assms(3) by simp
qed

lemma queued:
  assumes "pool_inv p" "c \<in> set (rp_queue p)"
  obtains j s a where "rp_req p c = Some (j, s)" "rp_frame p c = Some FrameSuspended" "map_of (rp_log p) c = Some a"
    "completion a" "answered a s" "c \<notin> set (rp_early p)" "c \<notin> set (rp_late p)" "c \<notin> set (rp_running p)" "c < rp_next p"
  using pool_invD(1) [OF assms(1), of c] assms(2) by (auto simp: one_inv_def split: option.splits if_splits)

lemma pool_turn_inv:
  assumes inv: "pool_inv p"
  shows "\<exists>p'. rp_step ops ReqTurn p = (p', Ok ()) \<and> pool_inv p'"
proof -
  have "\<not> rp_fin p c" if "c \<in> set (rp_queue p)" for c
    using inv that by (rule queued) (simp add: rp_fin_def)
  then have "\<forall>c \<in> set (loop_pending (\<lambda>c. False) (rp_loop p)). \<not> rp_fin p c" by (simp add: rp_queue_def)
  then have live: "Loop_getNext (rp_fin p) (rp_loop p) = Loop_getNext (\<lambda>c. False) (rp_loop p)" by (rule loop_getNext_live)
  show ?thesis
  proof (cases "rp_queue p")
    case Nil
    then obtain l where l: "Loop_getNext (rp_fin p) (rp_loop p) = (l, noop_coroutine)" "loop_pending (\<lambda>c. False) l = []"
      using event_loop.nxt_none [of "\<lambda>c. False" "rp_loop p"] live by (auto simp: rp_queue_def)
    have "rp_queue (p\<lparr>rp_loop := l\<rparr>) = rp_queue p" using l(2) Nil by simp
    then have "pool_inv (p\<lparr>rp_loop := l\<rparr>)" using inv unfolding pool_inv_def in_order_def by (simp add: rp_answers_def)
    then show ?thesis using l(1) by (simp add: rp_step_def rp_turn_def)
  next
    case (Cons c cs)
    then obtain l where l: "Loop_getNext (rp_fin p) (rp_loop p) = (l, Coro c)" "loop_pending (\<lambda>c. False) l = cs"
      using event_loop.nxt_some [of "\<lambda>c. False" "rp_loop p" c cs] live by (auto simp: rp_queue_def)
    obtain j s a where q: "rp_req p c = Some (j, s)" "rp_frame p c = Some FrameSuspended" "map_of (rp_log p) c = Some a"
      "completion a" "answered a s" "c \<notin> set (rp_early p)" "c \<notin> set (rp_late p)" "c \<notin> set (rp_running p)" "c < rp_next p"
      using queued [OF inv, of c] Cons by auto
    obtain s1 where s1: "ro_finish ops j (ro_set_loop ops l s) = (s1, outcome j a)" "settled (Some a) s1" "ro_loop ops s1 = l"
      using finish_settles [of a "ro_set_loop ops l s" j] q(4,5) by (auto simp: set_loop)
    obtain rest where rest: "rp_answers outcome p = rp_results p @ rest" "map fst rest = c # cs"
      using pool_invD(3) [OF inv] Cons by (auto simp: in_order_def)
    then obtain v rest' where r: "rest = (c, v) # rest'" "map fst rest' = cs" by auto
    have v: "v = outcome j a" using answers_mem [OF inv _ q(3), of v] q(1) rest(1) r(1) by simp
    have c: "c \<notin> set cs" using answers_distinct [OF inv] rest by simp
    let ?p = "p\<lparr>rp_req := (rp_req p)(c \<mapsto> (j, s1)), rp_frame := (rp_frame p)(c \<mapsto> FrameAtEnd), rp_loop := l,
      rp_results := rp_results p @ [(c, v)]\<rparr>"
    have qu: "rp_queue ?p = cs" using l(2) by (simp add: rp_queue_def)
    have "req_inv ?p d" for d
    proof (cases "d = c")
      case True
      then show ?thesis unfolding qu using q s1(2) c by (simp add: one_inv_def)
    next
      case False
      then have "req_inv ?p d = req_inv p d" unfolding qu Cons by simp
      with pool_invD(1) [OF inv, of d] show ?thesis by blast
    qed
    moreover have "rp_answers outcome ?p = rp_answers outcome p"
      by (rule answers_cong) (use q(1) logged_known [OF inv] in auto)
    then have "in_order ?p" unfolding in_order_def qu using rest r by simp
    ultimately have "pool_inv ?p" using pool_invD(2) [OF inv] by (simp add: pool_inv_def)
    moreover have nab: "\<forall>m. outcome j a \<noteq> Abort m" using outcome_defined [OF q(4)] by blast
    have "rp_step ops ReqTurn p = (?p, Ok ())"
      using l(1) q(1,2) s1(1,3) v nab
      by (cases "outcome j a") (simp_all add: rp_step_def rp_turn_def rp_resume_def)
    ultimately show ?thesis by blast
  qed
qed

text \<open>The frame of \<open>c\<close> goes; every other request keeps its part of the invariant.\<close>

lemma pool_drop_keeps:
  assumes inv: "pool_inv p" and one: "req_inv p' c"
    and same: "rp_req p' = (rp_req p)(c := q)" "rp_frame p' = (rp_frame p)(c := None)" "rp_log p' = rp_log p"
      "rp_running p' = rp_running p" "rp_next p' = rp_next p" "rp_queue p' = filter (\<lambda>d. d \<noteq> c) (rp_queue p)"
      "\<And>d. d \<noteq> c \<Longrightarrow> d \<in> set (rp_early p') \<longleftrightarrow> d \<in> set (rp_early p)"
      "\<And>d. d \<noteq> c \<Longrightarrow> d \<in> set (rp_late p') \<longleftrightarrow> d \<in> set (rp_late p)"
    and ord: "in_order p'"
  shows "pool_inv p'"
proof -
  have "req_inv p' d" for d
  proof (cases "d = c")
    case False
    with pool_invD(1) [OF inv, of d] same show ?thesis by simp
  qed (use one in simp)
  with pool_invD(2) [OF inv] same(3) ord show ?thesis by (simp add: pool_inv_def)
qed

lemma pool_filter_absent: "c \<notin> set xs \<Longrightarrow> filter (\<lambda>d. d \<noteq> c) xs = xs"
  by (induction xs) auto

lemma cancelled_queue: "loop_pending (\<lambda>d. False) (Loop_cancel c (rp_loop p)) = filter (\<lambda>d. d \<noteq> c) (rp_queue p)"
  by (simp add: loop_pending_cancel rp_queue_def)

lemma drop_finished:
  assumes inv: "pool_inv p" and q: "rp_req p c = Some (j, s)" and f: "rp_frame p c = Some FrameAtEnd"
  shows "\<exists>p'. rp_step ops (ReqDrop c) p = (p', Ok ()) \<and> pool_inv p'"
proof -
  let ?p = "p\<lparr>rp_frame := (rp_frame p)(c := None), rp_loop := Loop_cancel c (rp_loop p)\<rparr>"
  note one = pool_invD(1) [OF inv, of c]
  have "c \<notin> set (rp_queue p)" using one q f by (auto simp: one_inv_def split: option.splits if_splits)
  then have qu: "rp_queue ?p = rp_queue p" "filter (\<lambda>d. d \<noteq> c) (rp_queue p) = rp_queue p" by (simp_all add: cancelled_queue pool_filter_absent)
  have o: "req_inv ?p c" unfolding qu(1) using one q f by (auto simp: one_inv_def split: option.splits if_splits)
  have "rp_answers outcome ?p = rp_answers outcome p" by (simp add: rp_answers_def)
  then have i: "in_order ?p" using pool_invD(3) [OF inv] unfolding in_order_def qu(1) by simp
  have "pool_inv ?p" by (rule pool_drop_keeps [OF inv o, where q = "rp_req p c"]) (use i in \<open>auto simp: qu cancelled_queue\<close>)
  then show ?thesis using f by (simp add: rp_step_def rp_drop_def)
qed

lemma drop_early:
  assumes inv: "pool_inv p" and q: "rp_req p c = Some (j, s)" and f: "rp_frame p c = Some FrameSuspended"
    and w: "ro_in_frame ops j \<Longrightarrow> c \<notin> set (rp_running p)" and log: "map_of (rp_log p) c = None"
  shows "\<exists>p'. rp_step ops (ReqDrop c) p = (p', Ok ()) \<and> pool_inv p'"
proof -
  let ?l = "Loop_cancel c (rp_loop p)" and ?s = "ro_cancel ops (ro_set_loop ops (Loop_cancel c (rp_loop p)) s)"
  let ?p = "p\<lparr>rp_req := (rp_req p)(c \<mapsto> (j, ?s)), rp_frame := (rp_frame p)(c := None), rp_loop := ?l, rp_early := rp_early p @ [c]\<rparr>"
  have c: "awaiting c s" "c \<notin> set (rp_late p)" "c \<notin> set (rp_queue p)" "c < rp_next p"
    using pool_invD(1) [OF inv, of c] q f log by (auto simp: one_inv_def split: if_splits)
  have s: "abandoned ?s" "ro_loop ops ?s = ?l" using cancel_abandons [of c "ro_set_loop ops ?l s"] c(1) by (simp_all add: set_loop)
  have qu: "rp_queue ?p = rp_queue p" "filter (\<lambda>d. d \<noteq> c) (rp_queue p) = rp_queue p"
    using cancelled_queue [of c p] c(3) by (simp_all add: rp_queue_def [of ?p] pool_filter_absent)
  have o: "req_inv ?p c" unfolding qu(1) using c log s w by (auto simp: one_inv_def)
  have "rp_answers outcome ?p = rp_answers outcome p"
    by (rule answers_cong) (use log q logged_known [OF inv] in \<open>auto simp: map_of_eq_None_iff\<close>)
  then have i: "in_order ?p" using pool_invD(3) [OF inv] unfolding in_order_def qu(1) by simp
  have "pool_inv ?p" by (rule pool_drop_keeps [OF inv o, where q = "Some (j, ?s)"]) (use i in \<open>auto simp: qu\<close>)
  then show ?thesis using f q log s(2) by (simp add: rp_step_def rp_drop_def logged_map_of Let_def)
qed

lemma answers_drop:
  assumes inv: "pool_inv p" and q: "rp_req p c = Some (j, s)" and c: "c \<in> set (rp_queue p)"
    and p': "rp_req p' = (rp_req p)(c \<mapsto> (j, s'))" "rp_log p' = rp_log p" "rp_early p' = rp_early p" "rp_late p' = rp_late p @ [c]"
      "rp_results p' = rp_results p" "rp_queue p' = filter (\<lambda>d. d \<noteq> c) (rp_queue p)"
  shows "in_order p'"
proof -
  obtain rest where rest: "rp_answers outcome p = rp_results p @ rest" "map fst rest = rp_queue p"
    using pool_invD(3) [OF inv] by (auto simp: in_order_def)
  let ?u = "p\<lparr>rp_req := (rp_req p)(c \<mapsto> (j, s'))\<rparr>"
  have "rp_answers outcome ?u = rp_answers outcome p"
    by (rule answers_cong) (use q logged_known [OF inv] in auto)
  moreover have "rp_answers outcome p' = filter (\<lambda>x. fst x \<noteq> c) (rp_answers outcome ?u)"
    by (simp add: rp_answers_def p' filter_map comp_def case_prod_unfold conj_ac)
  moreover have "filter (\<lambda>x. fst x \<noteq> c) (rp_results p) = rp_results p"
  proof -
    have "c \<in> set (map fst rest)" using c rest(2) by simp
    then have "c \<notin> set (map fst (rp_results p))" using answers_distinct [OF inv] unfolding rest(1) by auto
    then show ?thesis by (auto simp: filter_id_conv)
  qed
  ultimately have "rp_answers outcome p' = rp_results p' @ filter (\<lambda>x. fst x \<noteq> c) rest" using rest(1) p'(5) by simp
  moreover have "map fst (filter (\<lambda>x. fst x \<noteq> c) rest) = filter (\<lambda>d. d \<noteq> c) (map fst rest)" by (simp add: filter_map comp_def)
  ultimately show ?thesis unfolding in_order_def p'(6) rest(2) [symmetric] by blast
qed

lemma drop_late:
  assumes inv: "pool_inv p" and q: "rp_req p c = Some (j, s)" and f: "rp_frame p c = Some FrameSuspended"
    and log: "map_of (rp_log p) c = Some a"
  shows "\<exists>p'. rp_step ops (ReqDrop c) p = (p', Ok ()) \<and> pool_inv p'"
proof -
  let ?l = "Loop_cancel c (rp_loop p)" and ?s = "ro_cancel ops (ro_set_loop ops (Loop_cancel c (rp_loop p)) s)"
  let ?p = "p\<lparr>rp_req := (rp_req p)(c \<mapsto> (j, ?s)), rp_frame := (rp_frame p)(c := None), rp_loop := ?l, rp_late := rp_late p @ [c]\<rparr>"
  have c: "answered a s" "c \<notin> set (rp_early p)" "completion a" "c < rp_next p" "c \<notin> set (rp_running p)" "c \<in> set (rp_queue p)"
    using pool_invD(1) [OF inv, of c] q f log by (auto simp: one_inv_def split: if_splits)
  have s: "late ?s" "ro_loop ops ?s = ?l" using cancel_late [of a "ro_set_loop ops ?l s"] c(1) by (simp_all add: set_loop)
  have qu: "rp_queue ?p = filter (\<lambda>d. d \<noteq> c) (rp_queue p)" using cancelled_queue [of c p] by (simp add: rp_queue_def [of ?p])
  have o: "req_inv ?p c" unfolding qu using c log s by (simp add: one_inv_def)
  have i: "in_order ?p" by (rule answers_drop [OF inv q c(6)]) (use qu in simp_all)
  have "pool_inv ?p" by (rule pool_drop_keeps [OF inv o, where q = "Some (j, ?s)"]) (use i in \<open>auto simp: qu\<close>)
  then show ?thesis using f q log s(2) by (simp add: rp_step_def rp_drop_def logged_map_of Let_def)
qed

lemma pool_drop_inv:
  assumes inv: "pool_inv p" and g: "rp_guard ops completion (ReqDrop c) p"
  shows "\<exists>p'. rp_step ops (ReqDrop c) p = (p', Ok ()) \<and> pool_inv p'"
proof -
  obtain j s f where q: "rp_req p c = Some (j, s)" and w: "ro_in_frame ops j \<Longrightarrow> c \<notin> set (rp_running p)" and f: "rp_frame p c = Some f"
    using g by (auto simp: rp_guard_def split: option.splits)
  show ?thesis
  proof (cases f)
    case FrameSuspended
    with drop_early [OF inv q _ w] drop_late [OF inv q] f show ?thesis by (cases "map_of (rp_log p) c") auto
  qed (use drop_finished [OF inv q] f in simp)
qed

lemma step_inv:
  assumes "pool_inv p" "rp_guard ops completion ev p"
  shows "\<exists>p'. rp_step ops ev p = (p', Ok ()) \<and> pool_inv p'"
  using assms submit_inv worker_inv pool_callback_inv pool_turn_inv pool_drop_inv by (cases ev) blast+

lemma start_inv: "pool_inv rp_start"
  by (simp add: pool_inv_def in_order_def one_inv_def rp_start_def rp_queue_def rp_answers_def loop_pending_def sched_pending_def
      Loop_init_def List.map_filter_simps)

sublocale pool: guarded_system "rp_step ops" "rp_guard ops completion" pool_inv
  by unfold_locales (rule step_inv)

text \<open>
  What holds after any run: the answers due are given in the order of the callbacks, those still
  to come are in the ready queue; a request that ended is settled, one whose coroutine was destroyed in
  between is left as \<open>late\<close> says, and any other is still with libuv, with a coroutine that waits for it.
\<close>

definition request_fate :: "('s, 'j, 'a, 'r) rpool \<Rightarrow> coro \<Rightarrow> 'j \<Rightarrow> 's \<Rightarrow> bool" where
  "request_fate p c j s \<longleftrightarrow>
     (if c \<in> set (map fst (rp_results p))
      then \<exists>a. map_of (rp_log p) c = Some a \<and> map_of (rp_results p) c = Some (outcome j a) \<and> settled (Some a) s \<and>
        c \<notin> set (rp_early p @ rp_late p)
      else if c \<in> set (rp_late p) then late s \<and> rp_logged p c \<and> c \<notin> set (rp_early p)
      else if c \<in> set (rp_early p) then (if rp_logged p c then settled None s else abandoned s)
      else rp_frame p c = Some FrameSuspended \<and>
        (case map_of (rp_log p) c of None \<Rightarrow> awaiting c s | Some a \<Rightarrow> c \<in> set (rp_queue p) \<and> answered a s))"

lemma results_ended:
  assumes "pool_inv p" "c \<in> set (map fst (rp_results p))"
  shows "rp_logged p c" "c \<notin> set (rp_early p @ rp_late p)" "c \<notin> set (rp_queue p)"
proof -
  obtain rest where rest: "rp_answers outcome p = rp_results p @ rest" "map fst rest = rp_queue p"
    using pool_invD(3) [OF assms(1)] by (auto simp: in_order_def)
  have "c \<in> set (map fst (rp_answers outcome p))" using assms(2) rest(1) by simp
  then show "rp_logged p c" "c \<notin> set (rp_early p @ rp_late p)" by (force simp: rp_answers_def rp_logged_def)+
  show "c \<notin> set (rp_queue p)" using answers_distinct [OF assms(1)] assms(2) unfolding rest(1) rest(2) [symmetric] by auto
qed

lemma answered_ended:
  assumes "pool_inv p" "rp_logged p c" "c \<notin> set (rp_early p @ rp_late p)"
  shows "c \<in> set (map fst (rp_results p)) \<or> c \<in> set (rp_queue p)"
proof -
  have "c \<in> set (map fst (rp_answers outcome p))" using assms(2,3) by (force simp: rp_answers_def rp_logged_def)
  with pool_invD(3) [OF assms(1)] show ?thesis by (auto simp: in_order_def simp del: set_map)
qed

lemma result_outcome:
  assumes "pool_inv p" "c \<in> set (map fst (rp_results p))" "map_of (rp_log p) c = Some a" "rp_req p c = Some (j, s)"
  shows "map_of (rp_results p) c = Some (outcome j a)"
proof -
  obtain v where v: "map_of (rp_results p) c = Some v" using assms(2) map_of_eq_None_iff [of "rp_results p" c] by fastforce
  then have "(c, v) \<in> set (rp_answers outcome p)"
    using pool_invD(3) [OF assms(1)] map_of_SomeD [OF v] by (auto simp: in_order_def)
  from answers_mem [OF assms(1) this assms(3)] v assms(4) show ?thesis by simp
qed

lemma pool_fate:
  assumes inv: "pool_inv p" and q: "rp_req p c = Some (j, s)"
  shows "request_fate p c j s"
proof -
  note one = pool_invD(1) [OF inv, of c]
  show ?thesis
  proof (cases "c \<in> set (map fst (rp_results p))")
    case True
    note r = results_ended [OF inv True]
    from r(1) obtain a where a: "map_of (rp_log p) c = Some a" by (auto simp: logged_map_of)
    have "settled (Some a) s" using one q a r(2,3) by (simp add: one_inv_def)
    with a result_outcome [OF inv True a q] r(2) True show ?thesis by (simp add: request_fate_def)
  next
    case False
    with one q answered_ended [OF inv, of c] show ?thesis
      by (cases "map_of (rp_log p) c") (auto simp: request_fate_def logged_map_of one_inv_def split: if_splits)
  qed
qed

lemma requests_answered:
  assumes "guarded_run (rp_step ops) (rp_guard ops completion) es rp_start"
  shows "\<exists>p. res_run (rp_step ops) es rp_start = (p, Ok ()) \<and> distinct (map fst (rp_log p)) \<and>
    (\<exists>rest. rp_answers outcome p = rp_results p @ rest \<and> map fst rest = rp_queue p) \<and>
    (\<forall>c < rp_next p. \<exists>j s. rp_req p c = Some (j, s) \<and> request_fate p c j s)"
proof -
  obtain p where p: "res_run (rp_step ops) es rp_start = (p, Ok ())" "pool_inv p"
    using pool.run_keeps [OF start_inv assms] by blast
  have "\<exists>j s. rp_req p c = Some (j, s) \<and> request_fate p c j s" if c: "c < rp_next p" for c
  proof -
    obtain j s where "rp_req p c = Some (j, s)" using req_invE [OF p(2) c] .
    with pool_fate [OF p(2)] show ?thesis by blast
  qed
  with p pool_invD(2,3) [OF p(2)] show ?thesis by (auto simp: in_order_def)
qed

end

end
