(* ===== verification/Sleeps.thy ===== *)
theory Sleeps
  imports Timer Request_Pool
begin

text \<open>
  Any number of \<open>sleep()\<close> calls (\<open>src/uvco/timer.cc\<close>) on one loop, with the clock, libuv's timers, turns of the
  loop and destroyed promises in any order.

  Of libuv's timers the model has what their documentation says: a timer started with \<open>millis\<close> is due that
  much later, at most at the end of the 64-bit clock; it fires when it is due, the earliest first, and not after it was
  stopped or closed. A timer's callback reaches the awaiter in the coroutine's frame; reaching it
  after the frame was destroyed is an \<open>Abort\<close>.
\<close>

section \<open>Sleeps among events\<close>

text \<open>
  The sleep with number \<open>c\<close> is a coroutine with its awaiter and the time at which its timer is due. \<open>sl_fired\<close>
  are the timers that have fired, \<open>sl_results\<close> the sleeps that have returned and when, \<open>sl_dropped\<close> the sleeps
  destroyed before they returned.
\<close>

record sleeps =
  sl_state :: "coro \<Rightarrow> (timer_awaiter \<times> int) option"
  sl_frame :: "coro \<Rightarrow> frame_phase option"
  sl_loop :: loop
  sl_next :: coro
  sl_now :: int
  sl_fired :: "coro list"
  sl_dropped :: "coro list"
  sl_results :: "(coro \<times> int) list"

definition sl_start :: sleeps where
  "sl_start = \<lparr>sl_state = (\<lambda>c. None), sl_frame = (\<lambda>c. None), sl_loop = Loop_init, sl_next = 0, sl_now = 0, sl_fired = [],
     sl_dropped = [], sl_results = []\<rparr>"

definition sl_due :: "sleeps \<Rightarrow> coro \<Rightarrow> int" where
  "sl_due w c = snd (the (sl_state w c))"

definition sl_queue :: "sleeps \<Rightarrow> coro list" where
  "sl_queue w = loop_pending (\<lambda>d. False) (sl_loop w)"

definition sl_active :: "sleeps \<Rightarrow> coro \<Rightarrow> bool" where
  "sl_active w c = (case sl_state w c of None \<Rightarrow> False | Some (t, due) \<Rightarrow> \<not> ta_stopped t)"

definition sl_fin :: "sleeps \<Rightarrow> coro \<Rightarrow> bool" where
  "sl_fin w c \<longleftrightarrow> sl_frame w c = Some FrameAtEnd"

definition timer_due :: "int \<Rightarrow> u64 \<Rightarrow> int" where
  "timer_due now millis = min (now + uint millis) (2 ^ 64 - 1)"

datatype sleep_event = SleepCall u64 | SleepClock u64 | SleepFires coro | SleepTurn | SleepDrop coro

text \<open>A suspended sleep is resumed and returns.\<close>

definition sl_resume :: "coro \<Rightarrow> sleeps \<Rightarrow> sleeps \<times> unit res" where
  "sl_resume c w = (case (sl_frame w c, sl_state w c) of
     (Some FrameSuspended, Some (t, due)) \<Rightarrow>
       (case sleep_resume False t of (t1, r) \<Rightarrow>
          rbind (w\<lparr>sl_state := (sl_state w)(c \<mapsto> (t1, due))\<rparr>, r) (\<lambda>w1 u.
            (w1\<lparr>sl_frame := (sl_frame w1)(c \<mapsto> FrameAtEnd), sl_results := sl_results w1 @ [(c, sl_now w1)]\<rparr>, Ok ())))
   | _ \<Rightarrow> (w, Abort ''resume of a coroutine that is not suspended''))"

definition sl_transfer :: "transfer \<Rightarrow> sleeps \<Rightarrow> sleeps \<times> unit res" where
  "sl_transfer t w = (case t of noop_coroutine \<Rightarrow> (w, Ok ()) | Coro c \<Rightarrow> sl_resume c w)"

text \<open>\<open>sleep(millis)\<close> is called; suspended, it hands control to the next scheduled coroutine.\<close>

definition sl_call :: "u64 \<Rightarrow> sleeps \<Rightarrow> sleeps \<times> unit res" where
  "sl_call millis w =
     (let c = sl_next w; due = timer_due (sl_now w) millis; w1 = w\<lparr>sl_next := Suc c\<rparr>
      in case sleep_start (sl_fin w) (Some c) millis (word_of_int (due - sl_now w)) (sl_loop w) of
           ((t, l), Ok (Some n)) \<Rightarrow>
             sl_transfer n (w1\<lparr>sl_state := (sl_state w)(c \<mapsto> (t, due)), sl_frame := (sl_frame w)(c \<mapsto> FrameSuspended), sl_loop := l\<rparr>)
         | ((t, l), Ok None) \<Rightarrow>
             (w1\<lparr>sl_state := (sl_state w)(c \<mapsto> (t, due)), sl_frame := (sl_frame w)(c \<mapsto> FrameAtEnd), sl_loop := l,
                 sl_results := sl_results w @ [(c, sl_now w)]\<rparr>, Ok ())
         | ((t, l), Exn e) \<Rightarrow> (w1, Exn e)
         | ((t, l), Abort m) \<Rightarrow> (w1, Abort m))"

definition sl_fires :: "coro \<Rightarrow> sleeps \<Rightarrow> sleeps \<times> unit res" where
  "sl_fires c w = (case sl_state w c of
     None \<Rightarrow> (w, Abort ''no such timer'')
   | Some (t, due) \<Rightarrow>
       (if sl_frame w c = None then (w, Abort ''use of a destroyed awaiter'')
        else case onSingleTimerDone (t, sl_loop w) of ((t1, l), r) \<Rightarrow>
          (w\<lparr>sl_state := (sl_state w)(c \<mapsto> (t1, due)), sl_loop := l, sl_fired := sl_fired w @ [c]\<rparr>, r)))"

definition sl_drop :: "coro \<Rightarrow> sleeps \<Rightarrow> sleeps \<times> unit res" where
  "sl_drop c w = (let w1 = w\<lparr>sl_frame := (sl_frame w)(c := None), sl_loop := Loop_cancel c (sl_loop w)\<rparr> in
     case (sl_frame w c, sl_state w c) of
       (Some FrameAtEnd, _) \<Rightarrow> (w1, Ok ())
     | (Some FrameSuspended, Some (t, due)) \<Rightarrow>
         (case TimerAwaiter_destroy False t of (t1, r) \<Rightarrow>
            (w1\<lparr>sl_state := (sl_state w)(c \<mapsto> (t1, due)), sl_dropped := sl_dropped w @ [c]\<rparr>, r))
     | _ \<Rightarrow> (w, Abort ''destruction of a destroyed coroutine''))"

definition sl_step :: "sleep_event \<Rightarrow> sleeps \<Rightarrow> sleeps \<times> unit res" where
  "sl_step ev w = (case ev of
     SleepCall millis \<Rightarrow> sl_call millis w
   | SleepClock dt \<Rightarrow> (w\<lparr>sl_now := sl_now w + uint dt\<rparr>, Ok ())
   | SleepFires c \<Rightarrow> sl_fires c w
   | SleepTurn \<Rightarrow> (case Loop_getNext (sl_fin w) (sl_loop w) of (l, t) \<Rightarrow> sl_transfer t (w\<lparr>sl_loop := l\<rparr>))
   | SleepDrop c \<Rightarrow> sl_drop c w)"

text \<open>
  The rules: nobody sleeps for 0 milliseconds and promises are destroyed once; the clock stays
  within 64 bits; libuv fires an active timer that is due and before which no other is due.
\<close>

definition sl_guard :: "sleep_event \<Rightarrow> sleeps \<Rightarrow> bool" where
  "sl_guard ev w = (case ev of
     SleepCall millis \<Rightarrow> millis \<noteq> 0
   | SleepClock dt \<Rightarrow> sl_now w + uint dt < 2 ^ 64 - 1
   | SleepFires c \<Rightarrow> sl_active w c \<and> sl_due w c \<le> sl_now w \<and>
       list_all (\<lambda>d. sl_active w d \<longrightarrow> sl_due w c \<le> sl_due w d) [0..<sl_next w]
   | SleepTurn \<Rightarrow> True
   | SleepDrop c \<Rightarrow> sl_frame w c \<noteq> None)"

section \<open>The invariant\<close>

text \<open>The awaiter of a sleep: its timer runs, has fired, or was stopped and closed once.\<close>

definition timer_waits :: "coro \<Rightarrow> timer_awaiter \<Rightarrow> bool" where
  "timer_waits c t \<longleftrightarrow> ta_timer t \<and> ta_handle t = Some c \<and> \<not> ta_closed t \<and> \<not> ta_stopped t \<and> (\<exists>ms. ta_uv t = [UvTimerStartOnce ms])"

definition timer_fired :: "timer_awaiter \<Rightarrow> bool" where
  "timer_fired t \<longleftrightarrow> ta_timer t \<and> ta_handle t = None \<and> \<not> ta_closed t \<and> ta_stopped t \<and> (\<exists>ms. ta_uv t = [UvTimerStartOnce ms, UvTimerStop])"

definition timer_ended :: "timer_awaiter \<Rightarrow> bool" where
  "timer_ended t \<longleftrightarrow> \<not> ta_timer t \<and> ta_stopped t \<and> (\<exists>ms. ta_uv t = [UvTimerStartOnce ms, UvTimerStop, UvTimerClose])"

definition sleep_inv :: "coro \<Rightarrow> (timer_awaiter \<times> int) option \<Rightarrow> frame_phase option \<Rightarrow> bool \<Rightarrow> bool \<Rightarrow> bool \<Rightarrow> coro \<Rightarrow> bool" where
  "sleep_inv c q f fired dropped i n \<longleftrightarrow> (case q of
     None \<Rightarrow> n \<le> c \<and> f = None \<and> \<not> fired \<and> \<not> dropped \<and> \<not> i
   | Some (t, due) \<Rightarrow> c < n \<and>
       (if dropped then f = None \<and> \<not> i \<and> timer_ended t
        else if \<not> fired then f = Some FrameSuspended \<and> \<not> i \<and> timer_waits c t
        else if i then f = Some FrameSuspended \<and> timer_fired t
        else f \<noteq> Some FrameSuspended \<and> timer_ended t))"

abbreviation sl_one :: "sleeps \<Rightarrow> coro \<Rightarrow> bool" where
  "sl_one w c \<equiv> sleep_inv c (sl_state w c) (sl_frame w c) (c \<in> set (sl_fired w)) (c \<in> set (sl_dropped w)) (c \<in> set (sl_queue w)) (sl_next w)"

definition sl_order :: "sleeps \<Rightarrow> bool" where
  "sl_order w \<longleftrightarrow> map fst (sl_results w) @ sl_queue w = filter (\<lambda>c. c \<notin> set (sl_dropped w)) (sl_fired w)"

definition sl_times :: "sleeps \<Rightarrow> bool" where
  "sl_times w \<longleftrightarrow> sorted (map (sl_due w) (sl_fired w)) \<and> (\<forall>c \<in> set (sl_fired w). sl_due w c \<le> sl_now w) \<and>
     (\<forall>c d. c \<in> set (sl_fired w) \<and> sl_active w d \<longrightarrow> sl_due w c \<le> sl_due w d) \<and>
     (\<forall>(c, time) \<in> set (sl_results w). sl_due w c \<le> time) \<and> 0 \<le> sl_now w \<and> sl_now w < 2 ^ 64 - 1"

definition sl_inv :: "sleeps \<Rightarrow> bool" where
  "sl_inv w \<longleftrightarrow> (\<forall>c. sl_one w c) \<and> distinct (sl_fired w) \<and> sl_order w \<and> sl_times w"

lemma sl_invD:
  assumes "sl_inv w"
  shows "sl_one w c" "distinct (sl_fired w)" "sl_order w" "sl_times w"
  using assms by (auto simp: sl_inv_def)

lemmas sleep_defs =
  sleep_start_def sleep_resume_def TimerAwaiter_new_def TimerAwaiter_isReady_def TimerAwaiter_await_suspend_def
  TimerAwaiter_await_resume_def TimerAwaiter_destroy_def TimerAwaiter_stop_def TimerAwaiter_close_def TimerAwaiter_resume_def
  onSingleTimerDone_def

lemma sleep_ends: "timer_fired t \<Longrightarrow> \<exists>t'. sleep_resume False t = (t', Ok ()) \<and> timer_ended t'"
  by (auto simp: timer_fired_def timer_ended_def sleep_defs Let_def)

lemma sleep_dropped: "timer_waits c t \<or> timer_fired t \<Longrightarrow> \<exists>t'. TimerAwaiter_destroy False t = (t', Ok ()) \<and> timer_ended t'"
  by (auto simp: timer_waits_def timer_fired_def timer_ended_def sleep_defs Let_def)

lemma sleep_fires:
  "timer_waits c t \<Longrightarrow> \<exists>t'. onSingleTimerDone (t, l) = ((t', Loop_enqueue (Some c) l), Ok ()) \<and> timer_fired t'"
  by (auto simp: timer_waits_def timer_fired_def sleep_defs Let_def)

section \<open>Every event keeps the invariant\<close>

lemma sl_queue_eqs [simp]:
  "sl_queue (w\<lparr>sl_loop := l\<rparr>) = loop_pending (\<lambda>d. False) l" "sl_queue (w\<lparr>sl_now := n\<rparr>) = sl_queue w"
  "sl_due (w\<lparr>sl_loop := l\<rparr>) = sl_due w" "sl_active (w\<lparr>sl_loop := l\<rparr>) = sl_active w"
  "sl_due (w\<lparr>sl_now := n\<rparr>) = sl_due w" "sl_active (w\<lparr>sl_now := n\<rparr>) = sl_active w"
  by (simp_all add: sl_queue_def sl_due_def sl_active_def fun_eq_iff)

lemma word_nonzero: "0 < k \<Longrightarrow> k < 2 ^ 64 \<Longrightarrow> (word_of_int k :: u64) \<noteq> 0"
  by (auto simp: word_of_int_eq_0_iff dest: zdvd_not_zless)

lemma active_iff:
  assumes "sl_inv w"
  shows "sl_active w c \<longleftrightarrow> c < sl_next w \<and> c \<notin> set (sl_fired w) \<and> c \<notin> set (sl_dropped w)"
  using sl_invD(1) [OF assms, of c]
  by (cases "sl_state w c")
     (auto simp: sl_active_def sleep_inv_def timer_waits_def timer_fired_def timer_ended_def split: if_splits)

lemma fired_known:
  assumes "sl_inv w" "c \<in> set (sl_fired w) \<or> c \<in> set (map fst (sl_results w)) \<or> c \<in> set (sl_queue w)"
  shows "sl_state w c \<noteq> None" "c \<in> set (sl_fired w)" "c < sl_next w"
proof -
  have "c \<in> set (map fst (sl_results w) @ sl_queue w) \<Longrightarrow> c \<in> set (sl_fired w)"
    using sl_invD(3) [OF assms(1)] unfolding sl_order_def by simp
  with assms(2) show f: "c \<in> set (sl_fired w)" by auto
  then show "sl_state w c \<noteq> None" "c < sl_next w"
    using sl_invD(1) [OF assms(1), of c] by (cases "sl_state w c"; auto simp: sleep_inv_def)+
qed

text \<open>A step that changes the awaiter of one sleep and leaves the times of all alone.\<close>

lemma times_keep:
  assumes inv: "sl_inv w" and q: "sl_state w c = Some (t, due)"
    and s: "sl_state w' = (sl_state w)(c \<mapsto> (t', due))" "sl_fired w' = sl_fired w" "sl_now w' = sl_now w" "ta_stopped t'"
    and r: "set (sl_results w') \<subseteq> insert (c, sl_now w) (set (sl_results w))"
      "(c, sl_now w) \<in> set (sl_results w') \<Longrightarrow> c \<in> set (sl_fired w)"
  shows "sl_times w'"
proof -
  have due: "sl_due w' = sl_due w" using q s(1) by (auto simp: fun_eq_iff sl_due_def)
  have act: "sl_active w d" if "sl_active w' d" for d using that s(1,4) by (auto simp: sl_active_def split: if_splits)
  note T = sl_invD(4) [OF inv, unfolded sl_times_def]
  have "\<forall>(d, time) \<in> set (sl_results w'). sl_due w d \<le> time" using T r by blast
  then show ?thesis using T act unfolding sl_times_def due s(2,3) by blast
qed

lemma resume_keeps:
  assumes inv: "sl_inv w" and q: "sl_queue w = c # cs" "loop_pending (\<lambda>d. False) l = cs"
  shows "\<exists>w'. sl_resume c (w\<lparr>sl_loop := l\<rparr>) = (w', Ok ()) \<and> sl_inv w'"
proof -
  have f: "c \<in> set (sl_fired w)" using fired_known(2) [OF inv, of c] q(1) by simp
  have "c \<in> set (map fst (sl_results w) @ sl_queue w)" using q(1) by simp
  then have nd: "c \<notin> set (sl_dropped w)" using sl_invD(3) [OF inv, unfolded sl_order_def] by simp
  obtain t due where st: "sl_state w c = Some (t, due)" "sl_frame w c = Some FrameSuspended" "timer_fired t" "c < sl_next w"
    using sl_invD(1) [OF inv, of c] f nd q(1) by (cases "sl_state w c") (auto simp: sleep_inv_def)
  obtain t' where t': "sleep_resume False t = (t', Ok ())" "timer_ended t'" using sleep_ends [OF st(3)] by blast
  let ?w = "w\<lparr>sl_loop := l, sl_state := (sl_state w)(c \<mapsto> (t', due)), sl_frame := (sl_frame w)(c \<mapsto> FrameAtEnd),
    sl_results := sl_results w @ [(c, sl_now w)]\<rparr>"
  have qu: "sl_queue ?w = cs" using q(2) by (simp add: sl_queue_def)
  have "distinct (map fst (sl_results w) @ sl_queue w)"
    using sl_invD(2,3) [OF inv] unfolding sl_order_def by simp
  then have c: "c \<notin> set cs" using q(1) by simp
  have "sl_one ?w d" for d
    using sl_invD(1) [OF inv, of d] c st f nd t'(2) unfolding qu q(1) by (cases "d = c") (simp_all add: sleep_inv_def)
  moreover have "sl_order ?w" using sl_invD(3) [OF inv] unfolding sl_order_def qu q(1) by simp
  moreover have "sl_times ?w"
    by (rule times_keep [OF inv st(1), of _ t']) (use t'(2) f in \<open>auto simp: timer_ended_def\<close>)
  ultimately have "sl_inv ?w" using sl_invD(2) [OF inv] by (simp add: sl_inv_def)
  moreover have "sl_resume c (w\<lparr>sl_loop := l\<rparr>) = (?w, Ok ())" using st t' by (simp add: sl_resume_def)
  ultimately show ?thesis by blast
qed

lemma transfer_keeps:
  assumes inv: "sl_inv w" and fin: "\<And>c. c \<in> set (sl_queue w) \<Longrightarrow> \<not> fin c" and n: "Loop_getNext fin (sl_loop w) = (l, n)"
  shows "\<exists>w'. sl_transfer n (w\<lparr>sl_loop := l\<rparr>) = (w', Ok ()) \<and> sl_inv w'"
proof -
  have live: "Loop_getNext (\<lambda>c. False) (sl_loop w) = (l, n)"
    using loop_getNext_live [of "sl_loop w" fin] fin n by (simp add: sl_queue_def)
  show ?thesis
  proof (cases "sl_queue w")
    case Nil
    with event_loop.nxt_none [of "\<lambda>c. False" "sl_loop w"] live have l: "n = noop_coroutine" "loop_pending (\<lambda>c. False) l = []"
      by (auto simp: sl_queue_def)
    then have "sl_inv (w\<lparr>sl_loop := l\<rparr>)"
      using inv Nil by (simp add: sl_inv_def sl_order_def sl_times_def)
    with l(1) show ?thesis by (simp add: sl_transfer_def)
  next
    case (Cons c cs)
    with event_loop.nxt_some [of "\<lambda>c. False" "sl_loop w" c cs] live have "n = Coro c" "loop_pending (\<lambda>c. False) l = cs"
      by (auto simp: sl_queue_def)
    with resume_keeps [OF inv Cons] show ?thesis by (simp add: sl_transfer_def)
  qed
qed

lemma queue_unfinished: "sl_inv w \<Longrightarrow> c \<in> set (sl_queue w) \<Longrightarrow> \<not> sl_fin w c"
  using sl_invD(1) [of w c] by (cases "sl_state w c") (auto simp: sleep_inv_def sl_fin_def split: if_splits)

lemma turn_keeps: "sl_inv w \<Longrightarrow> \<exists>w'. sl_step SleepTurn w = (w', Ok ()) \<and> sl_inv w'"
  using transfer_keeps [of w "sl_fin w"] queue_unfinished [of w] by (simp add: sl_step_def split: prod.split)

text \<open>A new sleep is due later than everything that has fired.\<close>

lemma times_new:
  assumes inv: "sl_inv w" and s: "sl_state w' = (sl_state w)(sl_next w \<mapsto> (t, due))" "sl_fired w' = sl_fired w" "sl_now w' = sl_now w"
    "sl_results w' = sl_results w" and later: "sl_now w < due"
  shows "sl_times w'"
proof -
  let ?c = "sl_next w"
  note T = sl_invD(4) [OF inv, unfolded sl_times_def]
  have same: "sl_due w' x = sl_due w x" if "x \<noteq> ?c" for x using that s(1) by (simp add: sl_due_def)
  have nf: "x \<noteq> ?c" if "x \<in> set (sl_fired w) \<or> x \<in> set (map fst (sl_results w))" for x
    using fired_known(3) [OF inv, of x] that by blast
  have "map (sl_due w') (sl_fired w) = map (sl_due w) (sl_fired w)" using same nf by (intro map_cong) blast+
  moreover have "\<forall>x \<in> set (sl_fired w). sl_due w' x \<le> sl_now w" using T same nf by metis
  moreover have "sl_due w' x \<le> sl_due w' d" if x: "x \<in> set (sl_fired w)" and d: "sl_active w' d" for x d
  proof (cases "d = ?c")
    case True
    have "sl_due w' x \<le> sl_now w" using T x same nf by metis
    also have "\<dots> \<le> sl_due w' d" using True later s(1) by (simp add: sl_due_def)
    finally show ?thesis .
  next
    case False
    then have "sl_active w d" using d s(1) by (simp add: sl_active_def)
    with T x same nf False show ?thesis by metis
  qed
  moreover have "\<forall>(x, time) \<in> set (sl_results w). sl_due w' x \<le> time"
  proof
    fix y assume y: "y \<in> set (sl_results w)"
    then have "fst y \<noteq> ?c" using nf [of "fst y"] by (auto simp: image_iff)
    with T y same show "case y of (x, time) \<Rightarrow> sl_due w' x \<le> time" by (cases y) fastforce
  qed
  ultimately show ?thesis using T unfolding sl_times_def s(2-4) by metis
qed

lemma call_keeps:
  assumes inv: "sl_inv w" and ms: "millis \<noteq> 0"
  shows "\<exists>w'. sl_step (SleepCall millis) w = (w', Ok ()) \<and> sl_inv w'"
proof -
  let ?c = "sl_next w" and ?due = "timer_due (sl_now w) millis"
  let ?t = "(TimerAwaiter_new millis False)\<lparr>ta_handle := Some ?c\<rparr>"
  let ?w = "w\<lparr>sl_next := Suc ?c, sl_state := (sl_state w)(?c \<mapsto> (?t, ?due)), sl_frame := (sl_frame w)(?c \<mapsto> FrameSuspended)\<rparr>"
  have c: "sl_state w ?c = None" using sl_invD(1) [OF inv, of ?c] by (cases "sl_state w ?c") (auto simp: sleep_inv_def)
  have now: "0 \<le> sl_now w" "sl_now w < 2 ^ 64 - 1" using sl_invD(4) [OF inv] by (simp_all add: sl_times_def)
  have "0 < uint millis" using ms by (simp add: word_neq_0_conv [symmetric] uint_0_iff less_le)
  then have later: "sl_now w < ?due" using now(2) by (simp add: timer_due_def)
  have "?due - sl_now w < 2 ^ 64" using now(1) by (simp add: timer_due_def)
  then have due: "(word_of_int (?due - sl_now w) :: u64) \<noteq> 0"
    using later by (intro word_nonzero) simp_all
  have qu: "sl_queue ?w = sl_queue w" by (simp add: sl_queue_def)
  have "sl_one ?w d" for d
  proof (cases "d = ?c")
    case True
    with sl_invD(1) [OF inv, of ?c] c show ?thesis unfolding qu
      by (simp add: sleep_inv_def timer_waits_def TimerAwaiter_new_def)
  next
    case False
    with sl_invD(1) [OF inv, of d] show ?thesis unfolding qu by (cases "sl_state w d") (auto simp: sleep_inv_def)
  qed
  moreover have "sl_times ?w" by (rule times_new [OF inv _ _ _ _ later]) simp_all
  moreover have "sl_order ?w" using sl_invD(3) [OF inv] unfolding sl_order_def qu by simp
  ultimately have inv': "sl_inv ?w" using sl_invD(2) [OF inv] by (simp add: sl_inv_def)
  obtain l n where n: "Loop_getNext (sl_fin w) (sl_loop w) = (l, n)" by fastforce
  have "sl_step (SleepCall millis) w = sl_transfer n (?w\<lparr>sl_loop := l\<rparr>)"
    using n due by (simp add: sl_step_def sl_call_def sleep_start_def TimerAwaiter_isReady_def TimerAwaiter_await_suspend_def
        TimerAwaiter_new_def Let_def)
  with transfer_keeps [OF inv', of "sl_fin w" l n] n queue_unfinished [OF inv] qu show ?thesis by simp
qed

lemma clock_keeps:
  assumes inv: "sl_inv w" and g: "sl_now w + uint (dt :: u64) < 2 ^ 64 - 1"
  shows "sl_inv (w\<lparr>sl_now := sl_now w + uint dt\<rparr>)"
proof -
  let ?w = "w\<lparr>sl_now := sl_now w + uint dt\<rparr>"
  have dt: "0 \<le> uint dt" by simp
  note T = sl_invD(4) [OF inv, unfolded sl_times_def]
  have "\<forall>c \<in> set (sl_fired w). sl_due w c \<le> sl_now w + uint dt" using T dt by (meson add_increasing2 order_trans)
  then have "sl_times ?w" using T g dt unfolding sl_times_def by simp
  then show ?thesis using inv by (simp add: sl_inv_def sl_order_def)
qed

lemma fires_keeps:
  assumes inv: "sl_inv w" and g: "sl_guard (SleepFires c) w"
  shows "\<exists>w'. sl_step (SleepFires c) w = (w', Ok ()) \<and> sl_inv w'"
proof -
  have a: "sl_active w c" "sl_due w c \<le> sl_now w" "\<And>d. sl_active w d \<Longrightarrow> sl_due w c \<le> sl_due w d"
    using g active_iff [OF inv] by (auto simp: sl_guard_def list_all_iff)
  then have c: "c < sl_next w" "c \<notin> set (sl_fired w)" "c \<notin> set (sl_dropped w)" using active_iff [OF inv] by auto
  obtain t due where st: "sl_state w c = Some (t, due)" "sl_frame w c = Some FrameSuspended" "timer_waits c t" "c \<notin> set (sl_queue w)"
    using sl_invD(1) [OF inv, of c] c by (cases "sl_state w c") (auto simp: sleep_inv_def)
  obtain t' where t': "onSingleTimerDone (t, sl_loop w) = ((t', Loop_enqueue (Some c) (sl_loop w)), Ok ())" "timer_fired t'"
    using sleep_fires [OF st(3)] by blast
  let ?w = "w\<lparr>sl_state := (sl_state w)(c \<mapsto> (t', due)), sl_loop := Loop_enqueue (Some c) (sl_loop w), sl_fired := sl_fired w @ [c]\<rparr>"
  have qu: "sl_queue ?w = sl_queue w @ [c]" by (simp add: sl_queue_def loop_pending_enqueue)
  have "sl_one ?w d" for d
    using sl_invD(1) [OF inv, of d] c st t'(2) unfolding qu by (cases "d = c") (simp_all add: sleep_inv_def)
  moreover have "sl_order ?w" using sl_invD(3) [OF inv] c(3) unfolding sl_order_def qu by simp
  moreover have "sl_times ?w"
  proof -
    have due: "sl_due ?w = sl_due w" using st(1) by (auto simp: fun_eq_iff sl_due_def)
    have act: "sl_active w d" if "sl_active ?w d" for d using that t'(2) by (auto simp: sl_active_def timer_fired_def split: if_splits)
    show ?thesis using sl_invD(4) [OF inv] a act unfolding sl_times_def due by (auto simp: sorted_append)
  qed
  ultimately have "sl_inv ?w" using sl_invD(2) [OF inv] c(2) by (simp add: sl_inv_def)
  moreover have "sl_step (SleepFires c) w = (?w, Ok ())" using st t'(1) by (simp add: sl_step_def sl_fires_def)
  ultimately show ?thesis by blast
qed

lemma drop_finished_sleep:
  assumes inv: "sl_inv w" and f: "sl_frame w c = Some FrameAtEnd"
  shows "\<exists>w'. sl_step (SleepDrop c) w = (w', Ok ()) \<and> sl_inv w'"
proof -
  let ?w = "w\<lparr>sl_frame := (sl_frame w)(c := None), sl_loop := Loop_cancel c (sl_loop w)\<rparr>"
  have c: "c \<notin> set (sl_queue w)" using queue_unfinished [OF inv, of c] f by (auto simp: sl_fin_def)
  then have qu: "sl_queue ?w = sl_queue w" by (auto simp: sl_queue_def loop_pending_cancel filter_id_conv)
  have "sl_one ?w d" for d
    using sl_invD(1) [OF inv, of d] f c unfolding qu by (cases "d = c"; cases "sl_state w d") (auto simp: sleep_inv_def split: if_splits)
  moreover have "sl_due ?w = sl_due w" "sl_active ?w = sl_active w" by (simp_all add: fun_eq_iff sl_due_def sl_active_def)
  ultimately have "sl_inv ?w" using inv unfolding sl_inv_def sl_order_def sl_times_def qu by simp
  then show ?thesis using f by (simp add: sl_step_def sl_drop_def Let_def)
qed

lemma drop_keeps:
  assumes inv: "sl_inv w" and f: "sl_frame w c \<noteq> None"
  shows "\<exists>w'. sl_step (SleepDrop c) w = (w', Ok ()) \<and> sl_inv w'"
proof (cases "sl_frame w c = Some FrameAtEnd")
  case False
  with f have fs: "sl_frame w c = Some FrameSuspended" by (metis frame_phase.exhaust option.exhaust)
  obtain t due where st: "sl_state w c = Some (t, due)" "timer_waits c t \<or> timer_fired t" "c < sl_next w" "c \<notin> set (sl_dropped w)"
    "c \<in> set (sl_fired w) \<longleftrightarrow> c \<in> set (sl_queue w)"
    using sl_invD(1) [OF inv, of c] fs by (cases "sl_state w c") (auto simp: sleep_inv_def split: if_splits)
  obtain t' where t': "TimerAwaiter_destroy False t = (t', Ok ())" "timer_ended t'" using sleep_dropped [OF st(2)] by blast
  let ?w = "w\<lparr>sl_frame := (sl_frame w)(c := None), sl_loop := Loop_cancel c (sl_loop w),
    sl_state := (sl_state w)(c \<mapsto> (t', due)), sl_dropped := sl_dropped w @ [c]\<rparr>"
  have qu: "sl_queue ?w = filter (\<lambda>d. d \<noteq> c) (sl_queue w)" by (simp add: sl_queue_def loop_pending_cancel)
  have "sl_one ?w d" for d
    using sl_invD(1) [OF inv, of d] st t'(2) unfolding qu by (cases "d = c") (simp_all add: sleep_inv_def)
  moreover have "sl_order ?w"
  proof -
    note ord = sl_invD(3) [OF inv, unfolded sl_order_def]
    have "distinct (map fst (sl_results w) @ sl_queue w)" using sl_invD(2) [OF inv] unfolding ord by simp
    then have "c \<notin> set (map fst (sl_results w))"
      using st(5) fired_known(2) [OF inv, of c] by auto
    then have "filter (\<lambda>d. d \<noteq> c) (map fst (sl_results w)) = map fst (sl_results w)" by (simp add: filter_id_conv) blast
    then have "map fst (sl_results w) @ filter (\<lambda>d. d \<noteq> c) (sl_queue w) = filter (\<lambda>d. d \<noteq> c) (map fst (sl_results w) @ sl_queue w)" by simp
    also have "\<dots> = filter (\<lambda>d. d \<notin> set (sl_dropped w @ [c])) (sl_fired w)" unfolding ord by (simp add: conj_commute)
    finally show ?thesis unfolding sl_order_def qu by simp
  qed
  moreover have "c \<in> set (sl_fired w)" if "(c, x) \<in> set (sl_results w)" for x
    using that by (intro fired_known(2) [OF inv]) force
  then have "sl_times ?w" by (intro times_keep [OF inv st(1), of _ t']) (use t'(2) in \<open>auto simp: timer_ended_def\<close>)
  ultimately have "sl_inv ?w" using sl_invD(2) [OF inv] by (simp add: sl_inv_def)
  then show ?thesis using fs st(1) t'(1) by (simp add: sl_step_def sl_drop_def Let_def)
qed (use drop_finished_sleep [OF inv] in blast)

interpretation many_sleeps: guarded_system sl_step sl_guard sl_inv
proof unfold_locales
  fix w ev assume inv: "sl_inv w" and g: "sl_guard ev w"
  show "\<exists>w'. sl_step ev w = (w', Ok ()) \<and> sl_inv w'"
  proof (cases ev)
    case (SleepClock dt)
    with clock_keeps [OF inv, of dt] g show ?thesis by (simp add: sl_step_def sl_guard_def)
  qed (use inv g call_keeps turn_keeps fires_keeps drop_keeps in \<open>auto simp: sl_guard_def\<close>)
qed

section \<open>Properties\<close>

lemma sl_start_inv: "sl_inv sl_start"
  by (simp add: sl_inv_def sl_start_def sleep_inv_def sl_order_def sl_times_def sl_queue_def sl_active_def loop_pending_def
      sched_pending_def Loop_init_def List.map_filter_simps)

lemma returned_iff:
  assumes "sl_inv w"
  shows "c \<in> set (map fst (sl_results w)) \<longleftrightarrow> c \<in> set (sl_fired w) \<and> c \<notin> set (sl_dropped w) \<and> c \<notin> set (sl_queue w)"
proof -
  note ord = sl_invD(3) [OF assms, unfolded sl_order_def]
  have "distinct (map fst (sl_results w) @ sl_queue w)" using sl_invD(2) [OF assms] unfolding ord by simp
  moreover have "c \<in> set (map fst (sl_results w) @ sl_queue w) \<longleftrightarrow> c \<in> set (sl_fired w) \<and> c \<notin> set (sl_dropped w)" unfolding ord by simp
  ultimately show ?thesis by auto
qed

lemma sleep_fate:
  assumes "sl_inv w" "c < sl_next w"
  shows "\<exists>t due ms. sl_state w c = Some (t, due) \<and>
    (if c \<in> set (map fst (sl_results w) @ sl_dropped w) then ta_uv t = [UvTimerStartOnce ms, UvTimerStop, UvTimerClose]
     else sl_frame w c = Some FrameSuspended \<and> (c \<notin> set (sl_queue w) \<longrightarrow> ta_uv t = [UvTimerStartOnce ms] \<and> ta_handle t = Some c))"
  unfolding set_append Un_iff returned_iff [OF assms(1)]
  using sl_invD(1) [OF assms(1), of c] assms(2)
  by (cases "sl_state w c") (auto simp: sleep_inv_def timer_waits_def timer_ended_def split: if_splits)

text \<open>
  C32: Any number of sleeps, in any interleaving of calls, the clock, timers, turns of the loop and
  destroyed promises: nothing destroyed is reached and no assertion fails, as long as nobody sleeps for 0 milliseconds. No
  sleep returns before it is due, and sleeps return in the order in which they are due; each one that
  has fired has returned, is next in the ready queue in that order, or was destroyed. The timer of a sleep that returned or was
  destroyed was started, stopped and closed once each; any other sleep is suspended, its timer running or
  its coroutine scheduled.
\<close>

theorem sleeps_return_in_order:
  assumes "guarded_run sl_step sl_guard es sl_start"
  shows "\<exists>w. res_run sl_step es sl_start = (w, Ok ()) \<and>
    map fst (sl_results w) @ sl_queue w = filter (\<lambda>c. c \<notin> set (sl_dropped w)) (sl_fired w) \<and> distinct (sl_fired w) \<and>
    sorted (map (sl_due w) (map fst (sl_results w) @ sl_queue w)) \<and>
    (\<forall>(c, time) \<in> set (sl_results w). sl_due w c \<le> time) \<and>
    (\<forall>c < sl_next w. \<exists>t due ms. sl_state w c = Some (t, due) \<and>
      (if c \<in> set (map fst (sl_results w) @ sl_dropped w) then ta_uv t = [UvTimerStartOnce ms, UvTimerStop, UvTimerClose]
       else sl_frame w c = Some FrameSuspended \<and> (c \<notin> set (sl_queue w) \<longrightarrow> ta_uv t = [UvTimerStartOnce ms] \<and> ta_handle t = Some c)))"
proof -
  obtain w where w: "res_run sl_step es sl_start = (w, Ok ())" "sl_inv w"
    using many_sleeps.run_keeps [OF sl_start_inv assms] by blast
  note ord = sl_invD(3) [OF w(2), unfolded sl_order_def] and T = sl_invD(4) [OF w(2), unfolded sl_times_def]
  have "sorted (map (sl_due w) (map fst (sl_results w) @ sl_queue w))" using T unfolding ord by (simp add: sorted_filter)
  moreover have "\<forall>(c, time) \<in> set (sl_results w). sl_due w c \<le> time" using T by blast
  ultimately show ?thesis using w(1) ord sl_invD(2) [OF w(2)] sleep_fate [OF w(2)] by (intro exI [of _ w] conjI allI impI)
qed

text \<open>Three sleeps of 30, 10 and 20 milliseconds, the last one destroyed after its timer has fired.\<close>

definition three_sleeps :: "sleep_event list" where
  "three_sleeps = [SleepCall 30, SleepCall 10, SleepCall 20, SleepClock 25, SleepFires 1, SleepFires 2, SleepTurn, SleepDrop 2, SleepClock 5,
     SleepFires 0, SleepTurn]"

theorem sleeps_return_in_order_witness:
  "\<exists>w. res_run sl_step three_sleeps sl_start = (w, Ok ()) \<and> sl_results w = [(1, 25), (0, 30)] \<and>
     (\<forall>(c, time) \<in> set (sl_results w). sl_due w c \<le> time)"
proof -
  have "guarded_run sl_step sl_guard three_sleeps sl_start" by code_simp
  from sleeps_return_in_order [OF this] obtain w where w: "res_run sl_step three_sleeps sl_start = (w, Ok ())"
    "\<forall>(c, time) \<in> set (sl_results w). sl_due w c \<le> time" by blast
  moreover have "sl_results (fst (res_run sl_step three_sleeps sl_start)) = [(1, 25), (0, 30)]" by code_simp
  ultimately show ?thesis by simp
qed

text \<open>A sleep of 0 milliseconds stops the program.\<close>

lemma sleep_zero_aborts: "\<exists>m. snd (sl_step (SleepCall 0) sl_start) = Abort m"
  by (simp add: sl_step_def sl_call_def sl_start_def timer_due_def sleep_defs Let_def)

end
