(* ===== verification/Stream.thy ===== *)
theory Stream
  imports Uv_Handles
begin

text \<open>
  \<open>StreamBase\<close> of \<open>src/uvco/stream.h\<close> and \<open>stream.cc\<close>: reading, writing, shutting down
  and closing a libuv stream.

  Of the libuv stream the model keeps what the class looks at: whether the object is there,
  whether its data pointer refers to a reading awaiter, and whether a read is started. Return
  codes of libuv functions are arguments. A \<open>read()\<close>, \<open>write()\<close> or \<open>shutdown()\<close> coroutine
  is given by its awaiter and its parts before and after the suspension.

  The last section runs one reader after the other on a stream, with data, errors, end of file,
  \<open>close()\<close> and cancellation arriving at any time.
\<close>

section \<open>The stream\<close>

record stream_base =
  sb_stream :: bool
  sb_data :: bool
  sb_reading :: bool
  sb_reader :: handle
  sb_writer :: handle

definition StreamBase_new :: stream_base where
  "StreamBase_new = \<lparr>sb_stream = True, sb_data = False, sb_reading = False, sb_reader = None,
     sb_writer = None\<rparr>"

text \<open>
  \<open>close()\<close>: \<open>closeHandle\<close> resets the data pointer and stops the reading; then the suspended
  reader and writer are resumed on the spot. The list is what is resumed.
\<close>

definition StreamBase_close :: "stream_base \<Rightarrow> stream_base \<times> coro list" where
  "StreamBase_close s =
     (let s1 = (if sb_stream s then s\<lparr>sb_stream := False, sb_data := False, sb_reading := False\<rparr> else s)
      in (s1\<lparr>sb_reader := None, sb_writer := None\<rparr>,
          (case sb_reader s1 of None \<Rightarrow> [] | Some r \<Rightarrow> [r]) @
          (case sb_writer s1 of None \<Rightarrow> [] | Some w \<Rightarrow> [w])))"

definition StreamBase_destroy :: "stream_base \<Rightarrow> stream_base \<times> coro list" where
  "StreamBase_destroy s = StreamBase_close s"

text \<open>\<open>strerror\<close> is \<open>uv_strerror\<close>, and \<open>fd_text\<close> the descriptor in decimal.\<close>

definition StreamBase_fd :: "(uv_status \<Rightarrow> string) \<Rightarrow> uv_status \<Rightarrow> int \<Rightarrow> int res" where
  "StreamBase_fd strerror status fd =
     (if status \<noteq> 0 then Exn (UvcoStatus status (''StreamBase::fd(): uv_fileno() failed: '' @ strerror status)) else Ok fd)"

definition TtyStream_tty :: "string \<Rightarrow> uv_status \<Rightarrow> stream_base res" where
  "TtyStream_tty fd_text status =
     (if status \<noteq> 0 then Exn (UvcoStatus status (''opening TTY with fd '' @ fd_text @ '' failed'')) else Ok StreamBase_new)"

definition TtyStream_stdin :: "uv_status \<Rightarrow> stream_base res" where "TtyStream_stdin status = TtyStream_tty ''0'' status"
definition TtyStream_stdout :: "uv_status \<Rightarrow> stream_base res" where "TtyStream_stdout status = TtyStream_tty ''1'' status"
definition TtyStream_stderr :: "uv_status \<Rightarrow> stream_base res" where "TtyStream_stderr status = TtyStream_tty ''2'' status"

text \<open>Access to the handle by the subclasses.\<close>

definition StreamBase_stream :: "stream_base \<Rightarrow> unit res" where
  "StreamBase_stream s = (if sb_stream s then Ok () else Abort ''stream_'')"

definition StreamBase_destroyStream :: "stream_base \<Rightarrow> stream_base \<times> unit res" where
  "StreamBase_destroyStream s = (if sb_stream s then (s\<lparr>sb_stream := False\<rparr>, Ok ()) else (s, Abort ''stream_''))"

section \<open>Reading\<close>

record in_awaiter =
  ia_status :: "int option"
  ia_handle :: handle

definition InStreamAwaiter_new :: in_awaiter where
  "InStreamAwaiter_new = \<lparr>ia_status = None, ia_handle = None\<rparr>"

definition read_start_error :: "uv_status \<Rightarrow> exn" where
  "read_start_error st = UvcoStatus st ''StreamBase::read() encountered error in uv_read_start()''"

definition InStreamAwaiter_start_read :: "uv_status \<Rightarrow> stream_base \<Rightarrow> stream_base \<times> unit res" where
  "InStreamAwaiter_start_read result s =
     (if \<not> sb_stream s then (s, Abort ''stream_'')
      else if result \<noteq> 0 then (s, Exn (read_start_error result))
      else (s\<lparr>sb_reading := True\<rparr>, Ok ()))"

definition InStreamAwaiter_stop_read :: "stream_base \<Rightarrow> stream_base" where
  "InStreamAwaiter_stop_read s = (if sb_stream s then s\<lparr>sb_reading := False\<rparr> else s)"

text \<open>\<open>readable\<close> is the answer of \<open>uv_is_readable\<close>; libuv calls back later, not from here.\<close>

definition InStreamAwaiter_await_ready ::
  "bool \<Rightarrow> uv_status \<Rightarrow> stream_base \<times> in_awaiter \<Rightarrow> (stream_base \<times> in_awaiter) \<times> bool res" where
  "InStreamAwaiter_await_ready readable result sa = (case sa of (s, a) \<Rightarrow>
     (if \<not> sb_stream s then ((s, a), Abort ''stream_'')
      else if readable
        then (case InStreamAwaiter_start_read result s of (s1, r) \<Rightarrow>
                rbind ((s1, a), r) (\<lambda>x u.
                  ((InStreamAwaiter_stop_read s1, a), Ok (ia_status a \<noteq> None))))
      else ((s, a), Ok (ia_status a \<noteq> None))))"

definition InStreamAwaiter_await_suspend ::
  "coro \<Rightarrow> uv_status \<Rightarrow> stream_base \<times> in_awaiter \<Rightarrow> (stream_base \<times> in_awaiter) \<times> unit res" where
  "InStreamAwaiter_await_suspend h result sa = (case sa of (s, a) \<Rightarrow>
     (if \<not> sb_stream s then ((s, a), Abort ''stream_'')
      else if sb_data s then ((s, a), Abort ''dataIsNull(&stream_.stream())'')
      else (let s1 = s\<lparr>sb_data := True, sb_reader := Some h\<rparr>; a1 = a\<lparr>ia_handle := Some h\<rparr>
            in case InStreamAwaiter_start_read result s1 of (s2, r) \<Rightarrow> ((s2, a1), r))))"

text \<open>
  \<open>allocate\<close>, libuv's request for memory: it gets the buffer of the reading awaiter, here its size.
\<close>

definition InStreamAwaiter_allocate :: "nat \<Rightarrow> stream_base \<Rightarrow> nat res" where
  "InStreamAwaiter_allocate buffer_size s = (if \<not> sb_data s then Abort ''nullptr != data'' else Ok buffer_size)"

text \<open>\<open>onInStreamRead\<close>, the libuv callback.\<close>

definition InStreamAwaiter_onInStreamRead ::
  "int \<Rightarrow> stream_base \<times> in_awaiter \<times> loop \<Rightarrow> (stream_base \<times> in_awaiter \<times> loop) \<times> unit res" where
  "InStreamAwaiter_onInStreamRead nread x = (case x of (s, a, l) \<Rightarrow>
     (if \<not> sb_data s then ((s, a, l), Abort ''nullptr != data'')
      else
        (let s1 = InStreamAwaiter_stop_read s; a1 = a\<lparr>ia_status := Some nread\<rparr>
         in case ia_handle a1 of
              Some h \<Rightarrow> ((s1\<lparr>sb_data := False\<rparr>, a1\<lparr>ia_handle := None\<rparr>, Loop_enqueue (Some h) l), Ok ())
            | None \<Rightarrow> ((s1\<lparr>sb_data := False\<rparr>, a1, l), Ok ()))))"

definition read_error :: "uv_status \<Rightarrow> exn" where
  "read_error st = UvcoStatus st ''StreamBase::read() encountered error''"

definition InStreamAwaiter_await_resume :: "stream_base \<times> in_awaiter \<Rightarrow> stream_base \<times> nat res" where
  "InStreamAwaiter_await_resume sa = (case sa of (s, a) \<Rightarrow>
     (case ia_status a of
        None \<Rightarrow> (if \<not> sb_stream s then (s, Ok 0) else (s, Abort ''status_''))
      | Some n \<Rightarrow>
          (let s1 = s\<lparr>sb_reader := None\<rparr>
           in if n = UV_EOF then (s1, Ok 0)
              else if n < 0 then (s1, Exn (read_error n))
              else (s1, Ok (nat n)))))"

text \<open>The destructor; an active handle is one with a started read.\<close>

definition InStreamAwaiter_destroy :: "stream_base \<Rightarrow> stream_base" where
  "InStreamAwaiter_destroy s =
     (let s1 = (if sb_stream s \<and> sb_reading s then InStreamAwaiter_stop_read s else s);
          s2 = (if sb_stream s1 then s1\<lparr>sb_data := False\<rparr> else s1)
      in s2\<lparr>sb_reader := None\<rparr>)"

text \<open>
  \<open>read(maxSize)\<close> after its \<open>co_await\<close>: no bytes is end of file. \<open>buf\<close> is the buffer libuv
  has filled.
\<close>

definition StreamBase_read_end :: "string \<Rightarrow> nat \<Rightarrow> string option" where
  "StreamBase_read_end buf nRead = (if nRead = 0 then None else Some (take nRead buf))"

section \<open>Writing\<close>

text \<open>
  The write request outlives the awaiter; its data pointer tells the callback whether the
  awaiter is still there.
\<close>

record out_awaiter =
  oa_handle :: handle
  oa_status :: "int option"

record write_req =
  wr_data :: bool

definition OutStreamAwaiter_new :: out_awaiter where
  "OutStreamAwaiter_new = \<lparr>oa_handle = None, oa_status = None\<rparr>"

definition write_error :: "uv_status \<Rightarrow> exn" where
  "write_error st = UvcoStatus st ''StreamBase::write() encountered error in uv_write''"

definition write_await_error :: "uv_status \<Rightarrow> exn" where
  "write_await_error st = UvcoStatus st ''StreamBase::write() encountered error while awaiting write''"

text \<open>\<open>await_ready\<close> is false; \<open>await_suspend\<close> registers the writer with the stream for \<open>close()\<close>.\<close>

definition OutStreamAwaiter_await_suspend :: "coro \<Rightarrow> stream_base \<times> out_awaiter \<Rightarrow> stream_base \<times> out_awaiter" where
  "OutStreamAwaiter_await_suspend h sa = (case sa of (s, a) \<Rightarrow> (s\<lparr>sb_writer := Some h\<rparr>, a\<lparr>oa_handle := Some h\<rparr>))"

definition OutStreamAwaiter_destroy :: "stream_base \<Rightarrow> stream_base" where
  "OutStreamAwaiter_destroy s = s\<lparr>sb_writer := None\<rparr>"

text \<open>\<open>write(buf)\<close> up to its suspension: \<open>status\<close> is what \<open>uv_write\<close> returns.\<close>

definition StreamBase_write_start ::
  "coro \<Rightarrow> uv_status \<Rightarrow> stream_base \<Rightarrow> (stream_base \<times> out_awaiter \<times> write_req) \<times> unit res" where
  "StreamBase_write_start h status s =
     (let a = OutStreamAwaiter_new; req = \<lparr>wr_data = True\<rparr>
      in if \<not> sb_stream s then ((s, a, req), Abort ''stream_'')
         else if status < 0 then ((OutStreamAwaiter_destroy s, a, req), Exn (write_error status))
         else (case OutStreamAwaiter_await_suspend h (s, a) of (s1, a1) \<Rightarrow> ((s1, a1, req), Ok ())))"

definition OutStreamAwaiter_onOutStreamWrite ::
  "uv_status \<Rightarrow> out_awaiter \<times> write_req \<times> loop \<Rightarrow> (out_awaiter \<times> write_req \<times> loop) \<times> unit res" where
  "OutStreamAwaiter_onOutStreamWrite status x = (case x of (a, req, l) \<Rightarrow>
     (if \<not> wr_data req then ((a, req, l), Ok ())
      else (case oa_handle a of
              None \<Rightarrow> ((a\<lparr>oa_status := Some status\<rparr>, req, l), Abort ''awaiter->handle_'')
            | Some h \<Rightarrow>
                ((a\<lparr>oa_status := Some status, oa_handle := None\<rparr>, req\<lparr>wr_data := False\<rparr>,
                  Loop_enqueue (Some h) l), Ok ()))))"

definition OutStreamAwaiter_await_resume :: "stream_base \<times> out_awaiter \<Rightarrow> stream_base \<times> uv_status res" where
  "OutStreamAwaiter_await_resume sa = (case sa of (s, a) \<Rightarrow>
     (if \<not> sb_stream s then (s, Ok UV_ECANCELED)
      else (case oa_status a of
              None \<Rightarrow> (s, Abort ''status_'')
            | Some st \<Rightarrow> (s\<lparr>sb_writer := None\<rparr>, Ok st))))"

text \<open>The \<open>OnExit\<close> guard and the awaiter's destructor, for a write that ends or is cancelled.\<close>

definition StreamBase_write_exit :: "stream_base \<times> out_awaiter \<times> write_req \<Rightarrow> stream_base \<times> write_req" where
  "StreamBase_write_exit x = (case x of (s, a, req) \<Rightarrow>
     (OutStreamAwaiter_destroy s, if oa_handle a \<noteq> None then req\<lparr>wr_data := False\<rparr> else req))"

text \<open>
  \<open>write(buf)\<close> from its resumption. The exception for a failed completion carries \<open>status\<close>, the
  code of \<open>uv_write\<close>, as in the source.
\<close>

definition StreamBase_write_end ::
  "uv_status \<Rightarrow> stream_base \<times> out_awaiter \<times> write_req \<Rightarrow> (stream_base \<times> write_req) \<times> unit res" where
  "StreamBase_write_end status x = (case x of (s, a, req) \<Rightarrow>
     (case OutStreamAwaiter_await_resume (s, a) of (s1, r) \<Rightarrow>
        (case r of
           Ok completionStatus \<Rightarrow>
             (StreamBase_write_exit (s1, a, req),
              (if completionStatus < 0 then Exn (write_await_error status) else Ok ()))
         | Exn e \<Rightarrow> (StreamBase_write_exit (s1, a, req), Exn e)
         | Abort m \<Rightarrow> ((s1, req), Abort m))))"

section \<open>Shutting down\<close>

definition shutdown_error :: "uv_status \<Rightarrow> exn" where
  "shutdown_error st = UvcoStatus st ''StreamBase::shutdown() encountered error''"

definition ShutdownAwaiter_await_suspend :: "coro \<Rightarrow> out_awaiter \<Rightarrow> out_awaiter \<times> unit res" where
  "ShutdownAwaiter_await_suspend h a =
     (if oa_handle a \<noteq> None then (a, Abort ''!handle_'') else (a\<lparr>oa_handle := Some h\<rparr>, Ok ()))"

text \<open>\<open>shutdown()\<close> ignores what \<open>uv_shutdown\<close> returns and always suspends.\<close>

definition StreamBase_shutdown_start ::
  "coro \<Rightarrow> uv_status \<Rightarrow> stream_base \<Rightarrow> (out_awaiter \<times> write_req) \<times> unit res" where
  "StreamBase_shutdown_start h status s =
     (if \<not> sb_stream s then ((OutStreamAwaiter_new, \<lparr>wr_data = True\<rparr>), Abort ''stream_'')
      else (case ShutdownAwaiter_await_suspend h OutStreamAwaiter_new of (a, r) \<Rightarrow> ((a, \<lparr>wr_data = True\<rparr>), r)))"

text \<open>Its \<open>OnExit\<close> guard, when it ends or is cancelled.\<close>

definition StreamBase_shutdown_exit :: "out_awaiter \<times> write_req \<Rightarrow> write_req" where
  "StreamBase_shutdown_exit x = (case x of (a, req) \<Rightarrow>
     if oa_handle a \<noteq> None then req\<lparr>wr_data := False\<rparr> else req)"

definition ShutdownAwaiter_onShutdown ::
  "uv_status \<Rightarrow> out_awaiter \<times> write_req \<times> loop \<Rightarrow> out_awaiter \<times> write_req \<times> loop" where
  "ShutdownAwaiter_onShutdown status x = (case x of (a, req, l) \<Rightarrow>
     (if \<not> wr_data req then (a, req, l)
      else (let a1 = a\<lparr>oa_status := Some status\<rparr>
            in case oa_handle a1 of
                 Some h \<Rightarrow> (a1\<lparr>oa_handle := None\<rparr>, req, Loop_enqueue (Some h) l)
               | None \<Rightarrow> (a1, req, l))))"

definition ShutdownAwaiter_await_resume :: "out_awaiter \<Rightarrow> unit res" where
  "ShutdownAwaiter_await_resume a = (case oa_status a of
     None \<Rightarrow> Abort ''status_''
   | Some st \<Rightarrow> (if st \<noteq> 0 then Exn (shutdown_error st) else Ok ()))"

section \<open>One reader after the other\<close>

text \<open>
  Every call of \<open>read()\<close> is a coroutine of its own, with a number. It is pending while it waits
  for libuv, woken when its handle is in the ready queue.
\<close>

datatype read_phase = ReadIdle | ReadPending coro in_awaiter | ReadWoken coro in_awaiter

datatype read_result = GotBytes nat | GotEof | GotError exn | WasCancelled

record rsys =
  rs_stream :: stream_base
  rs_phase :: read_phase
  rs_loop :: loop
  rs_next :: coro
  rs_results :: "(coro \<times> read_result) list"

fun to_read_result :: "nat res \<Rightarrow> read_result" where
  "to_read_result (Ok n) = (if n = 0 then GotEof else GotBytes n)"
| "to_read_result (Exn e) = GotError e"
| "to_read_result (Abort m) = WasCancelled"

definition rs_fin :: "rsys \<Rightarrow> coro \<Rightarrow> bool" where
  "rs_fin r c = (case rs_phase r of
     ReadIdle \<Rightarrow> True | ReadPending d a \<Rightarrow> c \<noteq> d | ReadWoken d a \<Rightarrow> c \<noteq> d)"

text \<open>The reader continues: it takes its result, and its awaiter is destroyed.\<close>

definition rs_continue :: "coro \<Rightarrow> in_awaiter \<Rightarrow> rsys \<Rightarrow> rsys \<times> unit res" where
  "rs_continue c a r = (case InStreamAwaiter_await_resume (rs_stream r, a) of
     (s, Abort m) \<Rightarrow> (r, Abort m)
   | (s, v) \<Rightarrow> (r\<lparr>rs_stream := InStreamAwaiter_destroy s, rs_phase := ReadIdle,
                  rs_results := rs_results r @ [(c, to_read_result v)]\<rparr>, Ok ()))"

datatype read_event = ReadCall bool uv_status | ReadCallback int | ReadTurn | ReadClose | ReadCancel

definition rs_call :: "bool \<Rightarrow> uv_status \<Rightarrow> rsys \<Rightarrow> rsys \<times> unit res" where
  "rs_call readable result r =
     (let c = rs_next r; r1 = r\<lparr>rs_next := Suc c\<rparr>
      in case InStreamAwaiter_await_ready readable result (rs_stream r1, InStreamAwaiter_new) of
           ((s, a), Abort m) \<Rightarrow> (r1, Abort m)
         | ((s, a), Exn e) \<Rightarrow> (r1\<lparr>rs_stream := InStreamAwaiter_destroy s,
              rs_results := rs_results r1 @ [(c, GotError e)]\<rparr>, Ok ())
         | ((s, a), Ok True) \<Rightarrow> rs_continue c a (r1\<lparr>rs_stream := s\<rparr>)
         | ((s, a), Ok False) \<Rightarrow>
             (case InStreamAwaiter_await_suspend c result (s, a) of
                ((s1, a1), Ok u) \<Rightarrow> (r1\<lparr>rs_stream := s1, rs_phase := ReadPending c a1\<rparr>, Ok ())
              | ((s1, a1), Exn e) \<Rightarrow> (r1\<lparr>rs_stream := InStreamAwaiter_destroy s1,
                   rs_results := rs_results r1 @ [(c, GotError e)]\<rparr>, Ok ())
              | ((s1, a1), Abort m) \<Rightarrow> (r1, Abort m)))"

definition rs_event :: "read_event \<Rightarrow> rsys \<Rightarrow> rsys \<times> unit res" where
  "rs_event ev r = (case ev of
     ReadCall readable result \<Rightarrow>
       (case rs_phase r of
          ReadIdle \<Rightarrow> (if sb_stream (rs_stream r) then rs_call readable result r else (r, Ok ()))
        | _ \<Rightarrow> (r, Ok ()))
   | ReadCallback nread \<Rightarrow>
       (if sb_reading (rs_stream r) then
          (case rs_phase r of
             ReadPending c a \<Rightarrow>
               (case InStreamAwaiter_onInStreamRead nread (rs_stream r, a, rs_loop r) of ((s, a1, l), u) \<Rightarrow>
                  (r\<lparr>rs_stream := s, rs_loop := l, rs_phase := ReadWoken c a1\<rparr>, u))
           | _ \<Rightarrow> (r, Abort ''callback without an awaiter''))
        else (r, Ok ()))
   | ReadTurn \<Rightarrow>
       (case Loop_getNext (rs_fin r) (rs_loop r) of (l, t) \<Rightarrow>
          (case t of
             noop_coroutine \<Rightarrow> (r\<lparr>rs_loop := l\<rparr>, Ok ())
           | Coro c \<Rightarrow> (case rs_phase r of
               ReadWoken d a \<Rightarrow> rs_continue d a (r\<lparr>rs_loop := l\<rparr>)
             | _ \<Rightarrow> (r, Abort ''resume of a coroutine that is not suspended''))))
   | ReadClose \<Rightarrow>
       (case StreamBase_close (rs_stream r) of (s, resumed) \<Rightarrow>
          (let r1 = r\<lparr>rs_stream := s\<rparr>
           in if resumed = [] then (r1, Ok ())
              else (case rs_phase r of
                      ReadPending c a \<Rightarrow> rs_continue c a r1
                    | ReadWoken c a \<Rightarrow> rs_continue c a r1
                    | ReadIdle \<Rightarrow> (r1, Abort ''resume of a finished coroutine''))))
   | ReadCancel \<Rightarrow>
       (case rs_phase r of
          ReadPending c a \<Rightarrow> (r\<lparr>rs_stream := InStreamAwaiter_destroy (rs_stream r), rs_phase := ReadIdle,
            rs_loop := Loop_cancel c (rs_loop r), rs_results := rs_results r @ [(c, WasCancelled)]\<rparr>, Ok ())
        | ReadWoken c a \<Rightarrow> (r\<lparr>rs_stream := InStreamAwaiter_destroy (rs_stream r), rs_phase := ReadIdle,
            rs_loop := Loop_cancel c (rs_loop r), rs_results := rs_results r @ [(c, WasCancelled)]\<rparr>, Ok ())
        | ReadIdle \<Rightarrow> (r, Ok ())))"

abbreviation rs_run :: "read_event list \<Rightarrow> rsys \<Rightarrow> rsys \<times> unit res" where
  "rs_run \<equiv> res_run rs_event"

definition rs_start :: rsys where
  "rs_start = \<lparr>rs_stream = StreamBase_new, rs_phase = ReadIdle, rs_loop = Loop_init, rs_next = 0,
     rs_results = []\<rparr>"

section \<open>The invariant\<close>

text \<open>
  The data pointer is set exactly while a read is pending and started; the ready queue holds the
  handle of a woken reader once, and of others only finished ones.
\<close>

definition queued :: "loop \<Rightarrow> handle set" where
  "queued l = set (resumable (loop_scheduler l))"

definition rs_inv :: "rsys \<Rightarrow> bool" where
  "rs_inv r \<longleftrightarrow> (let s = rs_stream r; n = length (rs_results r) in
     sb_writer s = None \<and> map fst (rs_results r) = [0..<n] \<and>
     (case rs_phase r of
        ReadIdle \<Rightarrow> \<not> sb_data s \<and> \<not> sb_reading s \<and> sb_reader s = None \<and>
          rs_next r = n \<and> queued (rs_loop r) \<subseteq> {None} \<union> Some ` {..<n}
      | ReadPending c a \<Rightarrow> sb_stream s \<and> sb_data s \<and> sb_reading s \<and> sb_reader s = Some c \<and>
          ia_handle a = Some c \<and> ia_status a = None \<and>
          c = n \<and> rs_next r = Suc n \<and> queued (rs_loop r) \<subseteq> {None} \<union> Some ` {..<n}
      | ReadWoken c a \<Rightarrow> sb_stream s \<and> \<not> sb_data s \<and> \<not> sb_reading s \<and> sb_reader s = Some c \<and>
          ia_handle a = None \<and> ia_status a \<noteq> None \<and>
          c = n \<and> rs_next r = Suc n \<and> queued (rs_loop r) \<subseteq> {None} \<union> Some ` {..n} \<and>
          loop_pending (\<lambda>d. d \<noteq> c) (rs_loop r) = [c]))"

section \<open>Lemmas\<close>

lemma getNextInner_loop_subset:
  "getNextInner_loop fin next rs = (n, rest) \<Longrightarrow> set rest \<subseteq> set rs"
  by (induction fin "next" rs rule: getNextInner_loop.induct) (auto split: if_splits)

lemma queued_getNext: "Loop_getNext fin l = (l1, t) \<Longrightarrow> queued l1 \<subseteq> queued l"
  using getNextInner_loop_subset [of fin None "resumable (loop_scheduler l)"]
  by (auto simp: Loop_getNext_def Scheduler_getNext_def useSymmetricHandoff_def
      Scheduler_getNextInner_def queued_def split: prod.splits)

lemma queued_enqueue [simp]: "queued (Loop_enqueue h l) = insert h (queued l)"
  by (simp add: queued_def Loop_enqueue_def Scheduler_enqueue_def Let_def)

lemma queued_cancel: "queued (Loop_cancel c l) \<subseteq> insert None (queued l - {Some c})"
  by (auto simp: queued_def Loop_cancel_def Scheduler_cancel_def)

lemma loop_pending_none:
  "queued l \<subseteq> {None} \<union> Some ` {..<n} \<Longrightarrow> loop_pending (\<lambda>d. d \<noteq> n) l = []"
  by (auto simp: queued_def loop_pending_def sched_pending_def List.map_filter_def filter_empty_conv
      not_runnable_def split: option.splits)

lemma upto_snoc: "map fst xs = [0..<length xs] \<Longrightarrow> map fst (xs @ [(length xs, v)]) = [0..<Suc (length xs)]"
  by simp

text \<open>What a read that libuv completed with \<open>nread\<close> (or that was closed) reports.\<close>

definition read_outcome :: "int option \<Rightarrow> read_result" where
  "read_outcome st = (case st of
     None \<Rightarrow> GotEof
   | Some n \<Rightarrow> (if n = UV_EOF \<or> n = 0 then GotEof else if n < 0 then GotError (read_error n)
                else GotBytes (nat n)))"

lemma rs_continue_ok:
  assumes "\<not> sb_data (rs_stream r)" "\<not> sb_reading (rs_stream r)" "sb_writer (rs_stream r) = None"
    and "ia_status a \<noteq> None \<or> \<not> sb_stream (rs_stream r)"
    and "map fst (rs_results r) = [0..<length (rs_results r)]" "c = length (rs_results r)" "rs_next r = Suc c"
    and "queued (rs_loop r) \<subseteq> {None} \<union> Some ` {..c}"
  shows "\<exists>r'. rs_continue c a r = (r', Ok ()) \<and> rs_inv r' \<and> rs_phase r' = ReadIdle \<and>
    rs_results r' = rs_results r @ [(c, read_outcome (ia_status a))] \<and>
    sb_stream (rs_stream r') = sb_stream (rs_stream r)"
proof -
  have q: "queued (rs_loop r) \<subseteq> {None} \<union> Some ` {..<Suc c}" using assms(8) by (simp add: lessThan_Suc_atMost)
  have neg: "\<not> nat n = 0" if "0 < n" for n using that by simp
  show ?thesis
  proof (cases "ia_status a")
    case None
    with assms q show ?thesis
      by (auto simp: rs_continue_def InStreamAwaiter_await_resume_def InStreamAwaiter_destroy_def rs_inv_def
          read_outcome_def Let_def)
  next
    case (Some n)
    then show ?thesis using assms(1-3,5-7) q neg
      by (cases "n = UV_EOF"; cases "n = 0"; cases "n < 0")
         (auto simp: rs_continue_def InStreamAwaiter_await_resume_def InStreamAwaiter_destroy_def rs_inv_def
          read_outcome_def InStreamAwaiter_stop_read_def Let_def)
  qed
qed

lemma rs_call_ok:
  assumes "rs_inv r" "rs_phase r = ReadIdle" "sb_stream (rs_stream r)"
  shows "\<exists>r'. rs_call readable result r = (r', Ok ()) \<and> rs_inv r' \<and>
    (result = 0 \<longrightarrow> (\<exists>a. rs_phase r' = ReadPending (rs_next r) a) \<and> rs_results r' = rs_results r) \<and>
    (result \<noteq> 0 \<longrightarrow> rs_phase r' = ReadIdle \<and>
       rs_results r' = rs_results r @ [(rs_next r, GotError (read_start_error result))])"
proof -
  have q: "queued (rs_loop r) \<subseteq> {None} \<union> Some ` {..<Suc n}"
    if "queued (rs_loop r) \<subseteq> {None} \<union> Some ` {..<n}" for n using that by auto
  show ?thesis using assms q
    by (cases readable; cases "result = 0")
       (auto simp: rs_call_def InStreamAwaiter_await_ready_def InStreamAwaiter_start_read_def InStreamAwaiter_new_def
        InStreamAwaiter_stop_read_def InStreamAwaiter_await_suspend_def InStreamAwaiter_destroy_def rs_inv_def Let_def)
qed

lemma rs_callback_ok:
  assumes "rs_inv r"
  shows "\<exists>r'. rs_event (ReadCallback n) r = (r', Ok ()) \<and> rs_inv r' \<and> rs_results r' = rs_results r \<and>
    (\<forall>c a. rs_phase r = ReadPending c a \<longrightarrow> (\<exists>a'. rs_phase r' = ReadWoken c a' \<and> ia_status a' = Some n))"
proof (cases "rs_phase r")
  case ReadIdle
  with assms show ?thesis by (auto simp: rs_event_def rs_inv_def Let_def)
next
  case (ReadPending c a)
  then have q: "queued (rs_loop r) \<subseteq> {None} \<union> Some ` {..<c}" "queued (rs_loop r) \<subseteq> insert None (Some ` {..c})"
    using assms by (auto simp: rs_inv_def Let_def)
  have "loop_pending (\<lambda>d. d \<noteq> c) (Loop_enqueue (Some c) (rs_loop r)) = [c]"
    by (simp add: loop_pending_enqueue loop_pending_none [OF q(1)])
  with ReadPending assms q(2) show ?thesis
    by (simp add: rs_event_def rs_inv_def InStreamAwaiter_onInStreamRead_def InStreamAwaiter_stop_read_def
        Let_def)
next
  case (ReadWoken c a)
  with assms show ?thesis by (auto simp: rs_event_def rs_inv_def Let_def)
qed

lemma rs_turn_ok:
  assumes "rs_inv r"
  shows "\<exists>r'. rs_event ReadTurn r = (r', Ok ()) \<and> rs_inv r' \<and>
    (case rs_phase r of
       ReadWoken c a \<Rightarrow> rs_phase r' = ReadIdle \<and> rs_results r' = rs_results r @ [(c, read_outcome (ia_status a))]
     | _ \<Rightarrow> rs_phase r' = rs_phase r \<and> rs_results r' = rs_results r)"
proof (cases "rs_phase r")
  case ReadIdle
  then have f: "rs_fin r = (\<lambda>d. True)" by (auto simp: rs_fin_def)
  obtain l where l: "Loop_getNext (\<lambda>d. True) (rs_loop r) = (l, noop_coroutine)"
    using event_loop.nxt_none [OF loop_pending_fin] by blast
  from queued_getNext [OF l] have "queued l \<subseteq> queued (rs_loop r)" .
  with ReadIdle l f assms show ?thesis by (auto simp: rs_event_def rs_inv_def Let_def)
next
  case (ReadPending c a)
  then have f: "rs_fin r = (\<lambda>d. d \<noteq> c)" by (auto simp: rs_fin_def)
  have "queued (rs_loop r) \<subseteq> {None} \<union> Some ` {..<c}" using assms ReadPending by (simp add: rs_inv_def Let_def)
  then obtain l where l: "Loop_getNext (\<lambda>d. d \<noteq> c) (rs_loop r) = (l, noop_coroutine)"
    using event_loop.nxt_none [OF loop_pending_none] by blast
  from queued_getNext [OF l] have "queued l \<subseteq> queued (rs_loop r)" .
  with ReadPending l f assms show ?thesis by (auto simp: rs_event_def rs_inv_def Let_def)
next
  case (ReadWoken c a)
  then have f: "rs_fin r = (\<lambda>d. d \<noteq> c)" by (auto simp: rs_fin_def)
  have "loop_pending (\<lambda>d. d \<noteq> c) (rs_loop r) = [c]" using assms ReadWoken by (auto simp: rs_inv_def Let_def)
  then obtain l where l: "Loop_getNext (\<lambda>d. d \<noteq> c) (rs_loop r) = (l, Coro c)"
    using event_loop.nxt_some by blast
  from queued_getNext [OF l] have q: "queued l \<subseteq> {None} \<union> Some ` {..c}"
    using assms ReadWoken by (auto simp: rs_inv_def Let_def)
  have "\<exists>r'. rs_continue c a (r\<lparr>rs_loop := l\<rparr>) = (r', Ok ()) \<and> rs_inv r' \<and> rs_phase r' = ReadIdle \<and>
      rs_results r' = rs_results r @ [(c, read_outcome (ia_status a))]"
    using rs_continue_ok [of "r\<lparr>rs_loop := l\<rparr>" a c] assms ReadWoken q
    by (auto simp: rs_inv_def Let_def)
  with ReadWoken l f show ?thesis by (auto simp: rs_event_def)
qed

lemma rs_close_ok:
  assumes "rs_inv r"
  shows "\<exists>r'. rs_event ReadClose r = (r', Ok ()) \<and> rs_inv r' \<and> rs_phase r' = ReadIdle \<and> \<not> sb_stream (rs_stream r') \<and>
    rs_results r' = rs_results r @ (case rs_phase r of
      ReadIdle \<Rightarrow> []
    | ReadPending c a \<Rightarrow> [(c, GotEof)]
    | ReadWoken c a \<Rightarrow> [(c, read_outcome (ia_status a))])"
proof (cases "rs_phase r")
  case ReadIdle
  with assms show ?thesis by (auto simp: rs_event_def rs_inv_def StreamBase_close_def Let_def)
next
  case (ReadPending c a)
  let ?r = "r\<lparr>rs_stream := fst (StreamBase_close (rs_stream r))\<rparr>"
  have "\<exists>r'. rs_continue c a ?r = (r', Ok ()) \<and> rs_inv r' \<and> rs_phase r' = ReadIdle \<and>
      rs_results r' = rs_results r @ [(c, read_outcome (ia_status a))] \<and> \<not> sb_stream (rs_stream r')"
    using rs_continue_ok [of ?r a c] assms ReadPending
    by (force simp: rs_inv_def StreamBase_close_def Let_def)
  with ReadPending assms show ?thesis
    by (auto simp: rs_event_def rs_inv_def StreamBase_close_def read_outcome_def Let_def)
next
  case (ReadWoken c a)
  let ?r = "r\<lparr>rs_stream := fst (StreamBase_close (rs_stream r))\<rparr>"
  have "\<exists>r'. rs_continue c a ?r = (r', Ok ()) \<and> rs_inv r' \<and> rs_phase r' = ReadIdle \<and>
      rs_results r' = rs_results r @ [(c, read_outcome (ia_status a))] \<and> \<not> sb_stream (rs_stream r')"
    using rs_continue_ok [of ?r a c] assms ReadWoken
    by (force simp: rs_inv_def StreamBase_close_def Let_def)
  with ReadWoken assms show ?thesis
    by (auto simp: rs_event_def rs_inv_def StreamBase_close_def Let_def)
qed

lemma rs_cancel_ok:
  assumes "rs_inv r"
  shows "\<exists>r'. rs_event ReadCancel r = (r', Ok ()) \<and> rs_inv r' \<and> rs_phase r' = ReadIdle \<and>
    rs_results r' = rs_results r @ (case rs_phase r of
      ReadIdle \<Rightarrow> [] | ReadPending c a \<Rightarrow> [(c, WasCancelled)] | ReadWoken c a \<Rightarrow> [(c, WasCancelled)])"
proof (cases "rs_phase r")
  case ReadIdle
  with assms show ?thesis by (auto simp: rs_event_def)
next
  case (ReadPending c a)
  with assms queued_cancel [of c "rs_loop r"] show ?thesis
    by (fastforce simp: rs_event_def rs_inv_def InStreamAwaiter_destroy_def InStreamAwaiter_stop_read_def Let_def)
next
  case (ReadWoken c a)
  have "queued (Loop_cancel c (rs_loop r)) \<subseteq> insert None (Some ` {..<Suc c})"
    using assms ReadWoken queued_cancel [of c "rs_loop r"] by (fastforce simp: rs_inv_def Let_def)
  with assms ReadWoken show ?thesis
    by (simp add: rs_event_def rs_inv_def InStreamAwaiter_destroy_def InStreamAwaiter_stop_read_def Let_def)
qed

lemma rs_event_ok:
  assumes "rs_inv r"
  shows "\<exists>r'. rs_event e r = (r', Ok ()) \<and> rs_inv r'"
proof (cases e)
  case (ReadCall readable result)
  with rs_call_ok [OF assms, of readable result] assms show ?thesis
    by (cases "rs_phase r"; cases "sb_stream (rs_stream r)") (auto simp: rs_event_def)
next
  case (ReadCallback n)
  with rs_callback_ok [OF assms] show ?thesis by blast
next
  case ReadTurn
  with rs_turn_ok [OF assms] show ?thesis by blast
next
  case ReadClose
  with rs_close_ok [OF assms] show ?thesis by blast
next
  case ReadCancel
  with rs_cancel_ok [OF assms] show ?thesis by blast
qed

lemma rs_start_inv: "rs_inv rs_start"
  by (simp add: rs_inv_def rs_start_def StreamBase_new_def queued_def Loop_init_def Let_def)

interpretation reads: guarded_system rs_event "\<lambda>e r. True" rs_inv
  by unfold_locales (rule rs_event_ok)

lemma rs_run_inv: "rs_inv r \<Longrightarrow> \<exists>r'. rs_run es r = (r', Ok ()) \<and> rs_inv r'"
  by (rule reads.run_keeps) simp_all

section \<open>Properties\<close>


text \<open>
  C25: A pending read reports what libuv delivers: the bytes, end of file (also for \<open>nread\<close> 0), or
  the error; also when the stream is closed between the callback and the resumption. Closing
  the stream first makes it report end of file; a cancelled read reports nothing, and data that
  arrives later is left to the next read.
\<close>

theorem stream_read_outcomes:
  assumes "rs_run es rs_start = (r, Ok ())" "rs_phase r = ReadPending c a"
  shows "(\<exists>r'. rs_run [ReadCallback n, ReadTurn] r = (r', Ok ()) \<and> rs_results r' = rs_results r @ [(c, read_outcome (Some n))]) \<and>
    (\<exists>r'. rs_run [ReadCallback n, ReadClose] r = (r', Ok ()) \<and> rs_results r' = rs_results r @ [(c, read_outcome (Some n))]) \<and>
    (\<exists>r'. rs_run [ReadClose, ReadTurn] r = (r', Ok ()) \<and> rs_results r' = rs_results r @ [(c, GotEof)]) \<and>
    (\<exists>r'. rs_run [ReadCancel, ReadCallback n, ReadTurn] r = (r', Ok ()) \<and> rs_results r' = rs_results r @ [(c, WasCancelled)])"
proof -
  have inv: "rs_inv r" using rs_run_inv [OF rs_start_inv, of es] assms(1) by auto
  obtain r1 a1 where r1: "rs_event (ReadCallback n) r = (r1, Ok ())" "rs_inv r1" "rs_results r1 = rs_results r"
    "rs_phase r1 = ReadWoken c a1" "ia_status a1 = Some n" using rs_callback_ok [OF inv, of n] assms(2) by auto
  have A: "\<exists>r'. rs_run [ReadCallback n, ReadTurn] r = (r', Ok ()) \<and> rs_results r' = rs_results r @ [(c, read_outcome (Some n))]"
    using r1 rs_turn_ok [OF r1(2)] by auto
  have B: "\<exists>r'. rs_run [ReadCallback n, ReadClose] r = (r', Ok ()) \<and> rs_results r' = rs_results r @ [(c, read_outcome (Some n))]"
    using r1 rs_close_ok [OF r1(2)] by auto
  obtain r2 where r2: "rs_event ReadClose r = (r2, Ok ())" "rs_inv r2" "rs_phase r2 = ReadIdle"
    "rs_results r2 = rs_results r @ [(c, GotEof)]" using rs_close_ok [OF inv] assms(2) by auto
  have C: "\<exists>r'. rs_run [ReadClose, ReadTurn] r = (r', Ok ()) \<and> rs_results r' = rs_results r @ [(c, GotEof)]"
    using r2 rs_turn_ok [OF r2(2)] by auto
  obtain r3 where r3: "rs_event ReadCancel r = (r3, Ok ())" "rs_inv r3" "rs_phase r3 = ReadIdle"
    "rs_results r3 = rs_results r @ [(c, WasCancelled)]" using rs_cancel_ok [OF inv] assms(2) by auto
  have "rs_event (ReadCallback n) r3 = (r3, Ok ())" using r3(2,3) by (auto simp: rs_event_def rs_inv_def Let_def)
  then have D: "\<exists>r'. rs_run [ReadCancel, ReadCallback n, ReadTurn] r = (r', Ok ()) \<and> rs_results r' = rs_results r @ [(c, WasCancelled)]"
    using r3 rs_turn_ok [OF r3(2)] by auto
  from A B C D show ?thesis by blast
qed

theorem stream_read_outcomes_witness:
  "\<exists>r'. rs_run [ReadCallback 5, ReadTurn] (fst (rs_run [ReadCall True 0] rs_start)) = (r', Ok ()) \<and>
     rs_results r' = [(0, GotBytes 5)]"
proof -
  let ?r = "rs_run [ReadCall True 0] rs_start"
  have "snd ?r = Ok ()" by code_simp
  then have 1: "?r = (fst ?r, Ok ())" by (metis prod.collapse)
  have 2: "rs_phase (fst ?r) = ReadPending 0 \<lparr>ia_status = None, ia_handle = Some 0\<rparr>" by code_simp
  have 3: "rs_results (fst ?r) = []" by code_simp
  have 4: "read_outcome (Some 5) = GotBytes 5" by code_simp
  show ?thesis using stream_read_outcomes [OF 1 2, of 5] unfolding 3 4 by simp
qed

text \<open>A second reader on a stream with a pending read fails the assertion on the data pointer.\<close>

lemma second_reader_aborts:
  "sb_stream s \<Longrightarrow> sb_data s \<Longrightarrow>
     snd (InStreamAwaiter_await_suspend h result (s, a)) = Abort ''dataIsNull(&stream_.stream())''"
  by (simp add: InStreamAwaiter_await_suspend_def)

text \<open>
  A write that libuv accepts is resumed once by its callback and returns, or throws when the
  completion failed; the exception then carries the status of \<open>uv_write\<close>, which is not an error
  code, instead of the completion's. A write that is cancelled, or resumed by \<open>close()\<close>, before
  its callback makes the callback a no-op; the closed one throws in the same way.
\<close>

lemma stream_write_lifecycle:
  assumes "sb_stream s" "0 \<le> status"
  shows "\<exists>s1 a req. StreamBase_write_start h status s = ((s1, a, req), Ok ()) \<and> sb_writer s1 = Some h \<and>
    (\<exists>a2 req2. OutStreamAwaiter_onOutStreamWrite k (a, req, l) = ((a2, req2, Loop_enqueue (Some h) l), Ok ()) \<and>
       StreamBase_write_end status (s1, a2, req2) =
         ((s1\<lparr>sb_writer := None\<rparr>, req2), if k < 0 then Exn (write_await_error status) else Ok ())) \<and>
    OutStreamAwaiter_onOutStreamWrite k (a, snd (StreamBase_write_exit (s1, a, req)), l) =
      ((a, snd (StreamBase_write_exit (s1, a, req)), l), Ok ()) \<and>
    (\<exists>s2 s3 req3. StreamBase_close s1 = (s2, (case sb_reader s of None \<Rightarrow> [] | Some r \<Rightarrow> [r]) @ [h]) \<and>
       StreamBase_write_end status (s2, a, req) = ((s3, req3), Exn (write_await_error status)) \<and>
       OutStreamAwaiter_onOutStreamWrite k (a, req3, l) = ((a, req3, l), Ok ()))"
  using assms
  by (auto simp: StreamBase_write_start_def OutStreamAwaiter_new_def OutStreamAwaiter_onOutStreamWrite_def
      StreamBase_write_end_def OutStreamAwaiter_await_resume_def StreamBase_write_exit_def StreamBase_close_def
      OutStreamAwaiter_await_suspend_def OutStreamAwaiter_destroy_def UV_ECANCELED_def Let_def split: option.split)

text \<open>
  A shutdown that \<open>uv_shutdown\<close> refuses leaves the coroutine suspended: nothing has been
  handed to libuv that could call back, whatever code it returned.
\<close>

lemma shutdown_ignores_status:
  "StreamBase_shutdown_start h status s = StreamBase_shutdown_start h 0 s"
  by (simp add: StreamBase_shutdown_start_def)

text \<open>A shutdown ends with the status of its callback; after a cancellation the callback does nothing.\<close>

lemma shutdown_completes:
  assumes "sb_stream s"
  shows "\<exists>a req a1 req1. StreamBase_shutdown_start h 0 s = ((a, req), Ok ()) \<and>
    ShutdownAwaiter_onShutdown st (a, req, l) = (a1, req1, Loop_enqueue (Some h) l) \<and>
    ShutdownAwaiter_await_resume a1 = (if st = 0 then Ok () else Exn (shutdown_error st)) \<and>
    StreamBase_shutdown_exit (a1, req1) = req1 \<and>
    ShutdownAwaiter_onShutdown st (a, StreamBase_shutdown_exit (a, req), l) = (a, StreamBase_shutdown_exit (a, req), l)"
  using assms
  by (auto simp: StreamBase_shutdown_start_def ShutdownAwaiter_onShutdown_def ShutdownAwaiter_await_resume_def
      ShutdownAwaiter_await_suspend_def StreamBase_shutdown_exit_def OutStreamAwaiter_new_def Let_def)

end
