(* ===== verification/Stream_Write.thy ===== *)
theory Stream_Write
  imports Stream
begin

text \<open>
  Any number of concurrent \<open>write()\<close> calls on one stream (\<open>src/uvco/stream.cc\<close>), with libuv's
  callbacks, \<open>close()\<close>, and promises that are destroyed before or after the write has ended.

  A stream remembers one writer only, for \<open>close()\<close>: a second write takes its place, and every
  write that ends clears it. The write request belongs to libuv until the callback, which frees
  it; the awaiter is part of the coroutine. Each is reached through a pointer of the other, and
  following one to a freed object is an \<open>Abort\<close>.
\<close>

section \<open>Writes among events\<close>

text \<open>
  A write is a coroutine with a number. It is pending, woken (its callback has come), or finished;
  \<open>None\<close> is a frame that does not exist. The first component is what \<open>uv_write\<close> returned.
\<close>

datatype write_phase = WritePending uv_status out_awaiter | WriteWoken uv_status out_awaiter | WriteFinished

record wsys =
  ws_stream :: stream_base
  ws_phase :: "coro \<Rightarrow> write_phase option"
  ws_req :: "coro \<Rightarrow> write_req option"
  ws_loop :: loop
  ws_next :: coro
  ws_log :: "(coro \<times> uv_status) list"
  ws_cancelled :: "coro list"
  ws_results :: "(coro \<times> unit res) list"

definition ws_start :: wsys where
  "ws_start = \<lparr>ws_stream = StreamBase_new, ws_phase = (\<lambda>c. None), ws_req = (\<lambda>c. None), ws_loop = Loop_init,
     ws_next = 0, ws_log = [], ws_cancelled = [], ws_results = []\<rparr>"

definition ws_fin :: "wsys \<Rightarrow> coro \<Rightarrow> bool" where
  "ws_fin w c \<longleftrightarrow> ws_phase w c = Some WriteFinished"

datatype write_event =
    WriteCall uv_status | WriteCallback coro uv_status | WriteTurn | WriteClose | WriteCancel coro | WriteDrop coro

definition ws_call :: "uv_status \<Rightarrow> wsys \<Rightarrow> wsys \<times> unit res" where
  "ws_call status w =
     (let c = ws_next w; w1 = w\<lparr>ws_next := Suc c\<rparr>
      in case StreamBase_write_start c status (ws_stream w1) of
           ((s, a, req), Ok u) \<Rightarrow>
             (w1\<lparr>ws_stream := s, ws_phase := (ws_phase w1)(c \<mapsto> WritePending status a), ws_req := (ws_req w1)(c \<mapsto> req)\<rparr>, Ok ())
         | ((s, a, req), Exn e) \<Rightarrow>
             (w1\<lparr>ws_stream := s, ws_phase := (ws_phase w1)(c \<mapsto> WriteFinished), ws_results := ws_results w1 @ [(c, Exn e)]\<rparr>, Ok ())
         | ((s, a, req), Abort m) \<Rightarrow> (w1, Abort m))"

text \<open>The callback for the request of write \<open>c\<close>, which it frees.\<close>

definition ws_callback :: "coro \<Rightarrow> uv_status \<Rightarrow> wsys \<Rightarrow> wsys \<times> unit res" where
  "ws_callback c status w = (case ws_req w c of
     None \<Rightarrow> (w, Abort ''use of a freed request'')
   | Some req \<Rightarrow>
       let w1 = w\<lparr>ws_req := (ws_req w)(c := None), ws_log := ws_log w @ [(c, status)]\<rparr>
       in case ws_phase w c of
            Some (WritePending st a) \<Rightarrow>
              (case OutStreamAwaiter_onOutStreamWrite status (a, req, ws_loop w) of ((a1, req1, l), r) \<Rightarrow>
                 (if wr_data req then (w1\<lparr>ws_phase := (ws_phase w)(c \<mapsto> WriteWoken st a1), ws_loop := l\<rparr>, r) else (w1, r)))
          | _ \<Rightarrow> (if wr_data req then (w1, Abort ''use of a destroyed awaiter'') else (w1, Ok ())))"

text \<open>The \<open>OnExit\<close> guard of \<open>write()\<close> resets the request of an awaiter that still has its handle.\<close>

definition ws_leaves :: "coro \<Rightarrow> out_awaiter \<Rightarrow> write_req option \<Rightarrow> wsys \<Rightarrow> wsys \<times> unit res" where
  "ws_leaves c a req1 w =
     (if oa_handle a \<noteq> None
      then (case ws_req w c of
              None \<Rightarrow> (w, Abort ''use of a freed request'')
            | Some req \<Rightarrow> (w\<lparr>ws_req := (ws_req w)(c := req1)\<rparr>, Ok ()))
      else (w, Ok ()))"

definition ws_continue :: "coro \<Rightarrow> uv_status \<Rightarrow> out_awaiter \<Rightarrow> wsys \<Rightarrow> wsys \<times> unit res" where
  "ws_continue c status a w =
     (case StreamBase_write_end status (ws_stream w, a, case ws_req w c of None \<Rightarrow> \<lparr>wr_data = False\<rparr> | Some req \<Rightarrow> req) of
        ((s, req1), Abort m) \<Rightarrow> (w, Abort m)
      | ((s, req1), v) \<Rightarrow>
          rbind (ws_leaves c a (Some req1) w) (\<lambda>w1 u.
            (w1\<lparr>ws_stream := s, ws_phase := (ws_phase w1)(c \<mapsto> WriteFinished), ws_results := ws_results w1 @ [(c, v)]\<rparr>, Ok ())))"

text \<open>A suspended write is resumed.\<close>

definition ws_resume :: "coro \<Rightarrow> wsys \<Rightarrow> wsys \<times> unit res" where
  "ws_resume c w = (case ws_phase w c of
     Some (WritePending st a) \<Rightarrow> ws_continue c st a w
   | Some (WriteWoken st a) \<Rightarrow> ws_continue c st a w
   | Some WriteFinished \<Rightarrow> (w, Abort ''resume of a finished coroutine'')
   | None \<Rightarrow> (w, Abort ''resume of a destroyed coroutine''))"

fun ws_resume_all :: "coro list \<Rightarrow> wsys \<Rightarrow> wsys \<times> unit res" where
  "ws_resume_all [] w = (w, Ok ())"
| "ws_resume_all (c # cs) w = rbind (ws_resume c w) (\<lambda>w1 u. ws_resume_all cs w1)"

text \<open>The promise of an unfinished write is destroyed: \<open>destroyCoroutine()\<close>, then the frame.\<close>

definition ws_destroy :: "coro \<Rightarrow> out_awaiter \<Rightarrow> wsys \<Rightarrow> wsys \<times> unit res" where
  "ws_destroy c a w =
     (case StreamBase_write_exit (ws_stream w, a, case ws_req w c of None \<Rightarrow> \<lparr>wr_data = False\<rparr> | Some req \<Rightarrow> req) of (s, req1) \<Rightarrow>
        rbind (ws_leaves c a (Some req1) (w\<lparr>ws_loop := Loop_cancel c (ws_loop w)\<rparr>)) (\<lambda>w1 u.
          (w1\<lparr>ws_stream := s, ws_phase := (ws_phase w1)(c := None), ws_cancelled := ws_cancelled w1 @ [c]\<rparr>, Ok ())))"

definition ws_step :: "write_event \<Rightarrow> wsys \<Rightarrow> wsys \<times> unit res" where
  "ws_step ev w = (case ev of
     WriteCall status \<Rightarrow> ws_call status w
   | WriteCallback c status \<Rightarrow> ws_callback c status w
   | WriteTurn \<Rightarrow>
       (case Loop_getNext (ws_fin w) (ws_loop w) of (l, t) \<Rightarrow>
          (case t of noop_coroutine \<Rightarrow> (w\<lparr>ws_loop := l\<rparr>, Ok ()) | Coro c \<Rightarrow> ws_resume c (w\<lparr>ws_loop := l\<rparr>)))
   | WriteClose \<Rightarrow> (case StreamBase_close (ws_stream w) of (s, cs) \<Rightarrow> ws_resume_all cs (w\<lparr>ws_stream := s\<rparr>))
   | WriteCancel c \<Rightarrow>
       (case ws_phase w c of
          Some (WritePending st a) \<Rightarrow> ws_destroy c a w
        | Some (WriteWoken st a) \<Rightarrow> ws_destroy c a w
        | _ \<Rightarrow> (w, Ok ()))
   | WriteDrop c \<Rightarrow>
       (if ws_phase w c = Some WriteFinished then (w\<lparr>ws_phase := (ws_phase w)(c := None)\<rparr>, Ok ()) else (w, Ok ())))"

text \<open>
  The rules: nobody writes to a closed stream, and the promise of a finished write is not destroyed
  while the write is still in the ready queue, where \<open>close()\<close> may have left it. libuv calls back
  once for each request it accepted.
\<close>

definition ws_guard :: "write_event \<Rightarrow> wsys \<Rightarrow> bool" where
  "ws_guard ev w = (case ev of
     WriteCall status \<Rightarrow> sb_stream (ws_stream w)
   | WriteCallback c status \<Rightarrow> ws_req w c \<noteq> None
   | WriteDrop c \<Rightarrow> c \<notin> set (loop_pending (\<lambda>d. False) (ws_loop w))
   | _ \<Rightarrow> True)"

section \<open>The invariant\<close>

definition write_inv :: "coro \<Rightarrow> write_phase option \<Rightarrow> write_req option \<Rightarrow> bool \<Rightarrow> (coro \<times> uv_status) list \<Rightarrow> bool" where
  "write_inv c p req in_queue log = (case p of
     Some (WritePending st a) \<Rightarrow> 0 \<le> st \<and> a = \<lparr>oa_handle = Some c, oa_status = None\<rparr> \<and> req = Some \<lparr>wr_data = True\<rparr> \<and> \<not> in_queue
   | Some (WriteWoken st a) \<Rightarrow> 0 \<le> st \<and> req = None \<and> in_queue \<and> (\<exists>k. a = \<lparr>oa_handle = None, oa_status = Some k\<rparr> \<and> (c, k) \<in> set log)
   | Some WriteFinished \<Rightarrow> req = None \<or> req = Some \<lparr>wr_data = False\<rparr>
   | None \<Rightarrow> \<not> in_queue \<and> (req = None \<or> req = Some \<lparr>wr_data = False\<rparr>))"

definition unfinished :: "wsys \<Rightarrow> coro \<Rightarrow> bool" where
  "unfinished w c \<longleftrightarrow> ws_phase w c \<noteq> None \<and> ws_phase w c \<noteq> Some WriteFinished"

definition ws_inv :: "wsys \<Rightarrow> bool" where
  "ws_inv w \<longleftrightarrow> sb_reader (ws_stream w) = None \<and>
     (\<forall>c. write_inv c (ws_phase w c) (ws_req w c) (c \<in> set (loop_pending (\<lambda>d. False) (ws_loop w))) (ws_log w)) \<and>
     distinct (loop_pending (\<lambda>d. False) (ws_loop w)) \<and>
     (\<forall>c. sb_writer (ws_stream w) = Some c \<longrightarrow> unfinished w c) \<and>
     distinct (map fst (ws_results w) @ ws_cancelled w) \<and>
     (\<forall>c. c < ws_next w \<longleftrightarrow> unfinished w c \<or> c \<in> set (map fst (ws_results w) @ ws_cancelled w)) \<and>
     (\<forall>c. unfinished w c \<longrightarrow> c \<notin> set (map fst (ws_results w) @ ws_cancelled w)) \<and>
     (\<forall>c. ws_phase w c \<noteq> None \<or> ws_req w c \<noteq> None \<longrightarrow> c < ws_next w) \<and>
     (\<forall>c v. (c, v) \<in> set (ws_results w) \<longrightarrow> v = Ok () \<longrightarrow> (\<exists>k \<ge> 0. (c, k) \<in> set (ws_log w))) \<and>
     (\<forall>(c, v) \<in> set (ws_results w). \<forall>m. v \<noteq> Abort m)"

section \<open>Lemmas\<close>

abbreviation in_queue :: "wsys \<Rightarrow> coro \<Rightarrow> bool" where
  "in_queue w c \<equiv> c \<in> set (loop_pending (\<lambda>d. False) (ws_loop w))"

lemma ws_invD:
  assumes "ws_inv w"
  shows "sb_reader (ws_stream w) = None" "write_inv c (ws_phase w c) (ws_req w c) (in_queue w c) (ws_log w)"
    "distinct (loop_pending (\<lambda>d. False) (ws_loop w))" "sb_writer (ws_stream w) = Some c \<Longrightarrow> unfinished w c"
    "unfinished w c \<Longrightarrow> c < ws_next w" "ws_req w c \<noteq> None \<Longrightarrow> c < ws_next w"
  using assms unfolding ws_inv_def by blast+

lemma unfinished_cases:
  assumes "ws_inv w" "unfinished w c"
  obtains (pending) st where "0 \<le> st" "ws_phase w c = Some (WritePending st \<lparr>oa_handle = Some c, oa_status = None\<rparr>)"
      "ws_req w c = Some \<lparr>wr_data = True\<rparr>" "\<not> in_queue w c"
    | (woken) st k where "0 \<le> st" "ws_phase w c = Some (WriteWoken st \<lparr>oa_handle = None, oa_status = Some k\<rparr>)"
      "ws_req w c = None" "in_queue w c" "(c, k) \<in> set (ws_log w)"
  using assms(2) ws_invD(2) [OF assms(1), of c] by (cases "ws_phase w c") (auto simp: unfinished_def write_inv_def split: write_phase.splits)

text \<open>
  A suspended write ends, with a result or cancelled. Its request, if libuv still has it, is told;
  finished writes may leave the ready queue.
\<close>

lemma write_ends:
  assumes inv: "ws_inv w" and u: "unfinished w c"
    and ph: "ws_phase w' = (ws_phase w)(c := p)" "p = Some WriteFinished \<or> p = None"
    and rq: "ws_req w' = (ws_req w)(c := map_option (\<lambda>r. \<lparr>wr_data = False\<rparr>) (ws_req w c))"
    and same: "ws_next w' = ws_next w" "ws_log w' = ws_log w" "sb_reader (ws_stream w') = None" "sb_writer (ws_stream w') = None"
    and rs: "ws_results w' = ws_results w @ rs" "ws_cancelled w' = ws_cancelled w @ cs" "map fst rs @ cs = [c]"
    and l: "distinct (loop_pending (\<lambda>d. False) (ws_loop w'))"
      "\<And>d. d \<noteq> c \<Longrightarrow> ws_phase w d \<noteq> Some WriteFinished \<Longrightarrow> in_queue w' d = in_queue w d" "p = None \<Longrightarrow> \<not> in_queue w' c"
    and v: "\<And>v. (c, v) \<in> set rs \<Longrightarrow> (v = Ok () \<longrightarrow> (\<exists>k \<ge> 0. (c, k) \<in> set (ws_log w))) \<and> (\<forall>m. v \<noteq> Abort m)"
  shows "ws_inv w'"
proof -
  let ?ended = "\<lambda>w. set (map fst (ws_results w) @ ws_cancelled w)"
  have un: "unfinished w' d \<longleftrightarrow> d \<noteq> c \<and> unfinished w d" for d using ph by (auto simp: unfinished_def)
  have en: "?ended w' = insert c (?ended w)" using rs by (cases rs) auto
  have c: "c \<notin> ?ended w" "c < ws_next w" using inv u unfolding ws_inv_def by blast+
  have "write_inv d (ws_phase w' d) (ws_req w' d) (in_queue w' d) (ws_log w')" for d
  proof (cases "d = c")
    case True
    then show ?thesis using ph rq l(3) by (cases "ws_req w c") (auto simp: write_inv_def)
  next
    case False
    then have eq: "ws_phase w' d = ws_phase w d" "ws_req w' d = ws_req w d" using ph rq by simp_all
    show ?thesis
    proof (cases "ws_phase w d = Some WriteFinished")
      case True
      with eq ws_invD(2) [OF inv, of d] show ?thesis by (simp add: write_inv_def)
    next
      case nf: False
      from ws_invD(2) [OF inv, of d] show ?thesis unfolding eq l(2) [OF False nf] same(2) .
    qed
  qed
  moreover have "distinct (map fst (ws_results w') @ ws_cancelled w')"
  proof -
    have "distinct (map fst (ws_results w) @ ws_cancelled w)" using inv by (simp add: ws_inv_def)
    with c(1) rs show ?thesis by (cases rs) auto
  qed
  moreover have "\<forall>d. d < ws_next w' \<longleftrightarrow> unfinished w' d \<or> d \<in> ?ended w'"
    using inv c(2) unfolding un en same ws_inv_def by blast
  moreover have "\<forall>d. unfinished w' d \<longrightarrow> d \<notin> ?ended w'" using inv unfolding un en ws_inv_def by blast
  moreover have "\<forall>d. ws_phase w' d \<noteq> None \<or> ws_req w' d \<noteq> None \<longrightarrow> d < ws_next w'"
  proof -
    have "\<forall>d. ws_phase w d \<noteq> None \<or> ws_req w d \<noteq> None \<longrightarrow> d < ws_next w" using inv unfolding ws_inv_def by blast
    with c(2) show ?thesis unfolding ph(1) rq same by simp
  qed
  moreover have "\<forall>d v. (d, v) \<in> set (ws_results w') \<longrightarrow> v = Ok () \<longrightarrow> (\<exists>k \<ge> 0. (d, k) \<in> set (ws_log w'))"
    "\<forall>(d, v) \<in> set (ws_results w'). \<forall>m. v \<noteq> Abort m"
    using inv v rs(3) unfolding rs(1) same(2) ws_inv_def by (cases rs; force)+
  ultimately show ?thesis using l(1) same(3,4) unfolding ws_inv_def by simp
qed

text \<open>
  A resumed write, woken or pending, ends with a result. A pending one is resumed by \<open>close()\<close> only.
\<close>

lemma resume_inv:
  assumes inv: "ws_inv w" and u: "unfinished w c"
    and s: "sb_reader s = None" "\<not> in_queue w c \<Longrightarrow> \<not> sb_stream s"
    and l: "distinct (loop_pending (\<lambda>d. False) l)"
      "\<And>d. d \<noteq> c \<Longrightarrow> ws_phase w d \<noteq> Some WriteFinished \<Longrightarrow> d \<in> set (loop_pending (\<lambda>d. False) l) \<longleftrightarrow> in_queue w d"
  shows "\<exists>w'. ws_resume c (w\<lparr>ws_stream := s, ws_loop := l\<rparr>) = (w', Ok ()) \<and> ws_inv w' \<and> ws_stream w' = s\<lparr>sb_writer := None\<rparr>"
proof -
  let ?v = "\<lambda>st b. if b then Exn (write_await_error st) else Ok ()"
  let ?w = "\<lambda>v q. w\<lparr>ws_stream := s\<lparr>sb_writer := None\<rparr>, ws_loop := l, ws_req := q, ws_phase := (ws_phase w)(c \<mapsto> WriteFinished),
     ws_results := ws_results w @ [(c, v)]\<rparr>"
  show ?thesis using inv u
  proof (cases rule: unfinished_cases)
    case (pending st)
    then have "ws_resume c (w\<lparr>ws_stream := s, ws_loop := l\<rparr>) =
        (?w (Exn (write_await_error st)) ((ws_req w)(c \<mapsto> \<lparr>wr_data = False\<rparr>)), Ok ())"
      using s(2) by (simp add: ws_resume_def ws_continue_def ws_leaves_def StreamBase_write_end_def
          OutStreamAwaiter_await_resume_def StreamBase_write_exit_def OutStreamAwaiter_destroy_def UV_ECANCELED_def)
    moreover have "ws_inv (?w (Exn (write_await_error st)) ((ws_req w)(c \<mapsto> \<lparr>wr_data = False\<rparr>)))"
      by (rule write_ends [OF inv u, where p = "Some WriteFinished" and rs = "[(c, Exn (write_await_error st))]" and cs = "[]"])
         (use pending s(1) l in simp_all)
    ultimately show ?thesis by simp
  next
    case (woken st k)
    let ?b = "\<not> sb_stream s \<or> k < 0"
    have "ws_resume c (w\<lparr>ws_stream := s, ws_loop := l\<rparr>) = (?w (?v st ?b) (ws_req w), Ok ())"
      using woken by (auto simp: ws_resume_def ws_continue_def ws_leaves_def StreamBase_write_end_def
          OutStreamAwaiter_await_resume_def StreamBase_write_exit_def OutStreamAwaiter_destroy_def UV_ECANCELED_def)
    moreover have "ws_inv (?w (?v st ?b) (ws_req w))"
      by (rule write_ends [OF inv u, where p = "Some WriteFinished" and rs = "[(c, ?v st ?b)]" and cs = "[]"])
         (use woken s(1) l in \<open>auto split: if_splits intro!: exI [of _ k]\<close>)
    ultimately show ?thesis by simp
  qed
qed

lemma destroy_inv:
  assumes inv: "ws_inv w" and u: "unfinished w c"
  shows "\<exists>w'. ws_step (WriteCancel c) w = (w', Ok ()) \<and> ws_inv w'"
proof -
  let ?w = "\<lambda>q. w\<lparr>ws_loop := Loop_cancel c (ws_loop w), ws_req := q, ws_stream := (ws_stream w)\<lparr>sb_writer := None\<rparr>,
     ws_phase := (ws_phase w)(c := None), ws_cancelled := ws_cancelled w @ [c]\<rparr>"
  let ?q = "(ws_req w)(c := map_option (\<lambda>r. \<lparr>wr_data = False\<rparr>) (ws_req w c))"
  have "ws_inv (?w ?q)"
    by (rule write_ends [OF inv u, where p = None and rs = "[]" and cs = "[c]"])
       (use ws_invD(1,3) [OF inv] in \<open>simp_all add: loop_pending_cancel\<close>)
  moreover have "ws_step (WriteCancel c) w = (?w ?q, Ok ())"
    using inv u
  proof (cases rule: unfinished_cases)
    case (woken st k)
    then have q: "?q = ws_req w" by (simp add: fun_upd_idem)
    show ?thesis unfolding q using woken
      by (simp add: ws_step_def ws_destroy_def ws_leaves_def StreamBase_write_exit_def OutStreamAwaiter_destroy_def)
  qed (simp add: ws_step_def ws_destroy_def ws_leaves_def StreamBase_write_exit_def OutStreamAwaiter_destroy_def)
  ultimately show ?thesis by simp
qed

lemma call_inv:
  assumes inv: "ws_inv w" and o: "sb_stream (ws_stream w)"
  shows "\<exists>w'. ws_step (WriteCall st) w = (w', Ok ()) \<and> ws_inv w'"
proof -
  let ?c = "ws_next w"
  have n: "\<not> unfinished w ?c" "ws_phase w ?c = None" "ws_req w ?c = None" "?c \<notin> set (map fst (ws_results w) @ ws_cancelled w)"
    using inv unfolding ws_inv_def by (meson less_irrefl)+
  have nq: "\<not> in_queue w ?c" using ws_invD(2) [OF inv, of ?c] n by (simp add: write_inv_def)
  show ?thesis
  proof (cases "st < 0")
    case True
    let ?w = "w\<lparr>ws_next := Suc ?c, ws_stream := (ws_stream w)\<lparr>sb_writer := None\<rparr>, ws_phase := (ws_phase w)(?c \<mapsto> WriteFinished),
      ws_results := ws_results w @ [(?c, Exn (write_error st))]\<rparr>"
    have "unfinished ?w d \<longleftrightarrow> unfinished w d" for d using n(2) by (auto simp: unfinished_def)
    then have "ws_inv ?w" using inv n nq unfolding ws_inv_def
      by (auto simp: less_Suc_eq write_inv_def)
    with True o show ?thesis by (simp add: ws_step_def ws_call_def StreamBase_write_start_def OutStreamAwaiter_destroy_def Let_def)
  next
    case False
    let ?w = "w\<lparr>ws_next := Suc ?c, ws_stream := (ws_stream w)\<lparr>sb_writer := Some ?c\<rparr>,
      ws_phase := (ws_phase w)(?c \<mapsto> WritePending st \<lparr>oa_handle = Some ?c, oa_status = None\<rparr>), ws_req := (ws_req w)(?c \<mapsto> \<lparr>wr_data = True\<rparr>)\<rparr>"
    have "unfinished ?w d \<longleftrightarrow> d = ?c \<or> unfinished w d" for d by (auto simp: unfinished_def)
    then have "ws_inv ?w" using inv n nq False unfolding ws_inv_def
      by (auto simp: less_Suc_eq write_inv_def)
    with False o show ?thesis
      by (simp add: ws_step_def ws_call_def StreamBase_write_start_def OutStreamAwaiter_await_suspend_def OutStreamAwaiter_new_def Let_def)
  qed
qed

lemma callback_inv:
  assumes inv: "ws_inv w" and r: "ws_req w c \<noteq> None"
  shows "\<exists>w'. ws_step (WriteCallback c k) w = (w', Ok ()) \<and> ws_inv w'"
proof -
  obtain req where req: "ws_req w c = Some req" using r by blast
  have log: "write_inv d p q i log \<Longrightarrow> write_inv d p q i (log @ [(c, k)])" for d p q i log
    by (auto simp: write_inv_def split: option.splits write_phase.splits)
  show ?thesis
  proof (cases "unfinished w c")
    case True
    then obtain st where p: "ws_phase w c = Some (WritePending st \<lparr>oa_handle = Some c, oa_status = None\<rparr>)"
        "req = \<lparr>wr_data = True\<rparr>" "0 \<le> st" "\<not> in_queue w c"
      using req by (cases rule: unfinished_cases [OF inv]) auto
    let ?w = "w\<lparr>ws_req := (ws_req w)(c := None), ws_log := ws_log w @ [(c, k)],
      ws_phase := (ws_phase w)(c \<mapsto> WriteWoken st \<lparr>oa_handle = None, oa_status = Some k\<rparr>), ws_loop := Loop_enqueue (Some c) (ws_loop w)\<rparr>"
    have "unfinished ?w d \<longleftrightarrow> unfinished w d" for d using p(1) by (auto simp: unfinished_def)
    moreover have "write_inv d (ws_phase ?w d) (ws_req ?w d) (in_queue ?w d) (ws_log ?w)" for d
    proof (cases "d = c")
      case False
      then have "in_queue ?w d = in_queue w d" by (simp add: loop_pending_enqueue)
      with False log [OF ws_invD(2) [OF inv, of d]] show ?thesis by simp
    qed (use p(3) in \<open>simp add: write_inv_def loop_pending_enqueue\<close>)
    ultimately have "ws_inv ?w" using inv p(4) True unfolding ws_inv_def by (auto simp: loop_pending_enqueue)
    moreover have "ws_step (WriteCallback c k) w = (?w, Ok ())"
      using req p by (simp add: ws_step_def ws_callback_def OutStreamAwaiter_onOutStreamWrite_def Let_def)
    ultimately show ?thesis by simp
  next
    case False
    let ?w = "w\<lparr>ws_req := (ws_req w)(c := None), ws_log := ws_log w @ [(c, k)]\<rparr>"
    have p: "ws_phase w c = None \<or> ws_phase w c = Some WriteFinished" "req = \<lparr>wr_data = False\<rparr>"
      using False ws_invD(2) [OF inv, of c] req by (auto simp: unfinished_def write_inv_def)
    have "unfinished ?w d \<longleftrightarrow> unfinished w d" for d by (simp add: unfinished_def)
    moreover have "write_inv d (ws_phase w d) (((ws_req w)(c := None)) d) (in_queue w d) (ws_log w @ [(c, k)])" for d
      using log [OF ws_invD(2) [OF inv, of d]] p by (cases "d = c") (auto simp: write_inv_def)
    ultimately have "ws_inv ?w" using inv unfolding ws_inv_def by auto
    with req p show ?thesis by (auto simp: ws_step_def ws_callback_def Let_def)
  qed
qed

lemma turn_inv:
  assumes inv: "ws_inv w"
  shows "\<exists>w'. ws_step WriteTurn w = (w', Ok ()) \<and> ws_inv w'"
proof -
  obtain l t where g: "Loop_getNext (ws_fin w) (ws_loop w) = (l, t)" by (cases "Loop_getNext (ws_fin w) (ws_loop w)")
  obtain pre where pre: "loop_pending (\<lambda>d. False) (ws_loop w) = pre @ loop_pending (\<lambda>d. False) l"
    using loop_getNext_suffix [OF g] by blast
  have d: "distinct (loop_pending (\<lambda>d. False) l)" using ws_invD(3) [OF inv] pre by simp
  have live: "d \<in> set (loop_pending (\<lambda>d. False) l') \<longleftrightarrow> d \<in> set (loop_pending (ws_fin w) l')" if "\<not> ws_fin w d" for d l'
    using that loop_pending_filter [of "ws_fin w" l'] by simp
  show ?thesis
  proof (cases t)
    case (Coro c)
    then have c: "\<not> ws_fin w c" "loop_pending (ws_fin w) (ws_loop w) = c # loop_pending (ws_fin w) l"
      using g by (cases rule: loop_getNext_cases [of "ws_fin w" "ws_loop w"]; simp)+
    have q: "in_queue w c" using live [OF c(1), of "ws_loop w"] c(2) by simp
    then have u: "unfinished w c" using ws_invD(2) [OF inv, of c] c(1)
      by (auto simp: write_inv_def unfinished_def ws_fin_def split: option.splits)
    have "\<exists>w'. ws_resume c (w\<lparr>ws_stream := ws_stream w, ws_loop := l\<rparr>) = (w', Ok ()) \<and> ws_inv w' \<and>
        ws_stream w' = (ws_stream w)\<lparr>sb_writer := None\<rparr>"
    proof (rule resume_inv [OF inv u ws_invD(1) [OF inv] _ d])
      fix e assume "e \<noteq> c" "ws_phase w e \<noteq> Some WriteFinished"
      with c(2) live [of e] show "e \<in> set (loop_pending (\<lambda>d. False) l) \<longleftrightarrow> in_queue w e" by (simp add: ws_fin_def)
    qed (use q in simp)
    with g Coro show ?thesis by (auto simp: ws_step_def)
  next
    case noop_coroutine
    then have "loop_pending (ws_fin w) (ws_loop w) = []" "loop_pending (\<lambda>d. False) l = []"
      using g by (cases rule: loop_getNext_cases [of "ws_fin w" "ws_loop w"];
        auto simp: loop_pending_def sched_pending_def List.map_filter_simps)+
    then have e: "\<not> ws_fin w d \<Longrightarrow> \<not> in_queue w d" for d using live [of d "ws_loop w"] by simp
    have "write_inv d (ws_phase w d) (ws_req w d) False (ws_log w)" for d
    proof (cases "ws_fin w d")
      case False
      with e have "in_queue w d = False" by simp
      with ws_invD(2) [OF inv, of d] show ?thesis by metis
    qed (use ws_invD(2) [OF inv, of d] in \<open>simp add: ws_fin_def write_inv_def\<close>)
    moreover have "unfinished (w\<lparr>ws_loop := l\<rparr>) = unfinished w" by (simp add: unfinished_def fun_eq_iff)
    ultimately have "ws_inv (w\<lparr>ws_loop := l\<rparr>)"
      using inv \<open>loop_pending (\<lambda>d. False) l = []\<close> unfolding ws_inv_def by auto
    with g noop_coroutine show ?thesis by (simp add: ws_step_def)
  qed
qed

lemma close_inv:
  assumes inv: "ws_inv w"
  shows "\<exists>w'. ws_step WriteClose w = (w', Ok ()) \<and> ws_inv w'"
proof -
  define s where "s = fst (StreamBase_close (ws_stream w))"
  have s: "sb_reader s = None" "\<not> sb_stream s" "sb_writer s = None" by (simp_all add: s_def StreamBase_close_def Let_def)
  have c: "StreamBase_close (ws_stream w) = (s, case sb_writer (ws_stream w) of None \<Rightarrow> [] | Some c \<Rightarrow> [c])"
    using ws_invD(1) [OF inv] by (simp add: s_def StreamBase_close_def Let_def)
  show ?thesis
  proof (cases "sb_writer (ws_stream w)")
    case None
    have "unfinished (w\<lparr>ws_stream := s\<rparr>) = unfinished w" by (simp add: unfinished_def fun_eq_iff)
    then have "ws_inv (w\<lparr>ws_stream := s\<rparr>)" using inv s unfolding ws_inv_def by auto
    with c None show ?thesis by (simp add: ws_step_def)
  next
    case (Some d)
    have "\<exists>w'. ws_resume d (w\<lparr>ws_stream := s, ws_loop := ws_loop w\<rparr>) = (w', Ok ()) \<and> ws_inv w' \<and> ws_stream w' = s\<lparr>sb_writer := None\<rparr>"
      by (rule resume_inv [OF inv ws_invD(4) [OF inv Some] s(1) s(2) ws_invD(3) [OF inv]]) simp
    then obtain w' where "ws_resume d (w\<lparr>ws_stream := s\<rparr>) = (w', Ok ())" "ws_inv w'" by auto
    with c Some show ?thesis by (simp add: ws_step_def)
  qed
qed

lemma drop_finished_inv:
  assumes inv: "ws_inv w" and q: "\<not> in_queue w c"
  shows "\<exists>w'. ws_step (WriteDrop c) w = (w', Ok ()) \<and> ws_inv w'"
proof (cases "ws_phase w c = Some WriteFinished")
  case True
  let ?w = "w\<lparr>ws_phase := (ws_phase w)(c := None)\<rparr>"
  have "unfinished ?w d \<longleftrightarrow> unfinished w d" for d using True by (simp add: unfinished_def)
  moreover have "write_inv d (ws_phase ?w d) (ws_req ?w d) (in_queue ?w d) (ws_log ?w)" for d
    using ws_invD(2) [OF inv, of d] True q by (cases "d = c") (auto simp: write_inv_def)
  ultimately have "ws_inv ?w" using inv unfolding ws_inv_def by auto
  with True show ?thesis by (simp add: ws_step_def)
qed (use inv in \<open>simp add: ws_step_def\<close>)

lemma ws_step_inv:
  assumes inv: "ws_inv w" and g: "ws_guard ev w"
  shows "\<exists>w'. ws_step ev w = (w', Ok ()) \<and> ws_inv w'"
proof (cases ev)
  case (WriteCancel c)
  then show ?thesis using destroy_inv [OF inv, of c] inv
    by (cases "unfinished w c") (auto simp: ws_step_def unfinished_def split: option.splits write_phase.splits)
qed (use g call_inv [OF inv] callback_inv [OF inv] turn_inv [OF inv] close_inv [OF inv] drop_finished_inv [OF inv]
      in \<open>auto simp: ws_guard_def\<close>)

interpretation writes: guarded_system ws_step ws_guard ws_inv
  by unfold_locales (rule ws_step_inv)

lemma ws_start_inv: "ws_inv ws_start"
  by (simp add: ws_inv_def ws_start_def StreamBase_new_def unfinished_def write_inv_def loop_pending_def sched_pending_def
      Loop_init_def List.map_filter_simps)

section \<open>Properties\<close>



text \<open>
  \<open>close()\<close> resumes the writer it knows on the spot and leaves it in the ready queue if its callback
  has come. If the promise of that write is destroyed before the next turn, the scheduler takes
  up the handle of a destroyed coroutine. The write has also thrown although libuv had
  reported its success.
\<close>

lemma closed_writer_dangles:
  "let r = res_run ws_step [WriteCall 0, WriteCallback 0 0, WriteClose] ws_start
   in ws_results (fst r) = [(0, Exn (write_await_error 0))] \<and> ws_log (fst r) = [(0, 0)] \<and>
      snd (res_run ws_step [WriteDrop 0, WriteTurn] (fst r)) = Abort ''resume of a destroyed coroutine''"
  by code_simp

end
