(* ===== verification/Stream_Server.thy ===== *)
theory Stream_Server
  imports Stream
begin

text \<open>
  \<open>StreamServerBase\<close> of \<open>src/uvco/stream_server_base_impl.cc\<close>: the generator \<open>listen()\<close> with its
  \<open>ConnectionAwaiter_\<close>, the connection callback and \<open>close()\<close>.

  The vector \<open>accepted_\<close> is a list with a capacity and a generation that changes when it is
  reallocated, so that an iterator (a position and the generation it was obtained in) is valid
  exactly when the generations agree. The socket's memory is open, being closed, or freed by
  libuv's close callback. Use of an invalid iterator or of freed memory is an \<open>Abort\<close>.
\<close>

section \<open>The server\<close>

datatype 'c slot = SlotError uv_status | SlotStream 'c

record 'c conn_awaiter =
  caw_handle :: handle
  caw_accepted :: "'c slot list"
  caw_capacity :: nat
  caw_generation :: nat
  caw_stopped :: bool

datatype sock_mem = SockOpen | SockClosing | SockFreed

text \<open>
  The points of \<open>listen()\<close>: suspended in \<open>co_await awaiter\<close>, woken from it, suspended in the
  \<open>co_yield\<close> for the slot of an iterator, and three ways to be over.
\<close>

datatype ls_point =
    LsSuspended | LsWoken | LsYielded nat nat | LsDone | LsThrown exn | LsDropped

record 'c server =
  sv_socket :: bool
  sv_mem :: sock_mem
  sv_data :: bool
  sv_awaiter :: "'c conn_awaiter"
  sv_point :: ls_point
  sv_loop :: loop
  sv_out :: "'c list"
  sv_arrived :: "'c slot list"

definition listen_handle :: coro where
  "listen_handle = 0"

fun ls_over :: "ls_point \<Rightarrow> bool" where
  "ls_over LsDone = True"
| "ls_over (LsThrown e) = True"
| "ls_over LsDropped = True"
| "ls_over p = False"

section \<open>ConnectionAwaiter\<close>

definition ConnectionAwaiter_new :: "'c conn_awaiter" where
  "ConnectionAwaiter_new = \<lparr>caw_handle = None, caw_accepted = [], caw_capacity = 4, caw_generation = 0,
     caw_stopped = False\<rparr>"

definition ConnectionAwaiter_await_ready :: "'c conn_awaiter \<Rightarrow> bool" where
  "ConnectionAwaiter_await_ready a \<longleftrightarrow> caw_accepted a \<noteq> []"

definition ConnectionAwaiter_await_suspend :: "coro \<Rightarrow> 'c conn_awaiter \<Rightarrow> 'c conn_awaiter \<times> unit res" where
  "ConnectionAwaiter_await_suspend h a =
     (if caw_handle a \<noteq> None then (a, Abort ''handle_ == nullptr'') else (a\<lparr>caw_handle := Some h\<rparr>, Ok ()))"

definition ConnectionAwaiter_await_resume :: "'c conn_awaiter \<Rightarrow> bool" where
  "ConnectionAwaiter_await_resume a \<longleftrightarrow> \<not> caw_stopped a"

text \<open>\<open>accepted_.emplace_back(x)\<close>: a full vector is reallocated with twice the capacity.\<close>

definition ConnectionAwaiter_emplace :: "'c slot \<Rightarrow> 'c conn_awaiter \<Rightarrow> 'c conn_awaiter" where
  "ConnectionAwaiter_emplace x a =
     (if length (caw_accepted a) < caw_capacity a then a\<lparr>caw_accepted := caw_accepted a @ [x]\<rparr>
      else a\<lparr>caw_accepted := caw_accepted a @ [x], caw_capacity := 2 * caw_capacity a,
             caw_generation := Suc (caw_generation a)\<rparr>)"

text \<open>The destructor, which writes to the socket.\<close>

definition ConnectionAwaiter_destroy :: "ls_point \<Rightarrow> 'c server \<Rightarrow> 'c server \<times> unit res" where
  "ConnectionAwaiter_destroy p s =
     (if sv_mem s = SockFreed then (s, Abort ''use of a freed handle'')
      else (s\<lparr>sv_data := False, sv_point := p\<rparr>, Ok ()))"

section \<open>listen()\<close>

definition listen_error :: "uv_status \<Rightarrow> exn" where
  "listen_error st = UvcoStatus st ''StreamServerBase::listen(): failed to listen''"

definition accept_error :: "uv_status \<Rightarrow> exn" where
  "accept_error st = UvcoStatus st ''UnixStreamServer failed to accept a connection!''"

definition ls_suspend :: "'c server \<Rightarrow> 'c server \<times> unit res" where
  "ls_suspend s = (case ConnectionAwaiter_await_suspend listen_handle (sv_awaiter s) of (a, r) \<Rightarrow>
     rbind (s\<lparr>sv_awaiter := a\<rparr>, r) (\<lambda>s1 u. (s1\<lparr>sv_point := LsSuspended\<rparr>, Ok ())))"

text \<open>
  The \<open>for\<close> loop from the test of its iterator up to the next suspension; at the end of the
  vector, the next round of the outer loop, whose vector is empty.
\<close>

definition ls_iter :: "nat \<Rightarrow> nat \<Rightarrow> 'c server \<Rightarrow> 'c server \<times> unit res" where
  "ls_iter i gen s = (let a = sv_awaiter s in
     if gen \<noteq> caw_generation a then (s, Abort ''use of an invalid iterator'')
     else if i = length (caw_accepted a) then ls_suspend (s\<lparr>sv_awaiter := a\<lparr>caw_accepted := []\<rparr>\<rparr>)
     else (case caw_accepted a ! i of
             SlotError st \<Rightarrow>
               (if st = 0 then (s, Abort ''status != 0'')
                else ConnectionAwaiter_destroy (LsThrown (accept_error st))
                  (s\<lparr>sv_awaiter := a\<lparr>caw_accepted := drop i (caw_accepted a)\<rparr>\<rparr>))
           | SlotStream c \<Rightarrow> (s\<lparr>sv_point := LsYielded i gen, sv_out := sv_out s @ [c]\<rparr>, Ok ())))"

definition ls_resumed :: "'c server \<Rightarrow> 'c server \<times> unit res" where
  "ls_resumed s =
     (if ConnectionAwaiter_await_resume (sv_awaiter s) then ls_iter 0 (caw_generation (sv_awaiter s)) s
      else ConnectionAwaiter_destroy LsDone s)"

definition StreamServerBase_listen :: "uv_status \<Rightarrow> 'c server \<Rightarrow> 'c server \<times> unit res" where
  "StreamServerBase_listen listenStatus s =
     (if \<not> sv_socket s then (s, Abort ''socket_'')
      else let s1 = s\<lparr>sv_awaiter := ConnectionAwaiter_new, sv_data := True, sv_out := [], sv_arrived := []\<rparr>
           in if listenStatus \<noteq> 0 then ConnectionAwaiter_destroy (LsThrown (listen_error listenStatus)) s1
              else if ConnectionAwaiter_await_ready (sv_awaiter s1) then ls_resumed s1
              else ls_suspend s1)"

section \<open>The connection callback\<close>

text \<open>
  \<open>status\<close> is the callback's argument, \<open>acceptStatus\<close> what \<open>uv_accept\<close> returns, and \<open>c\<close> the
  accepted stream.
\<close>

definition accepted_slot :: "uv_status \<Rightarrow> uv_status \<Rightarrow> 'c \<Rightarrow> 'c slot" where
  "accepted_slot status acceptStatus c =
     (if status = 0 then (if acceptStatus = 0 then SlotStream c else SlotError acceptStatus)
      else SlotError status)"

definition StreamServerBase_onNewConnection ::
  "uv_status \<Rightarrow> uv_status \<Rightarrow> 'c \<Rightarrow> 'c server \<Rightarrow> 'c server \<times> unit res" where
  "StreamServerBase_onNewConnection status acceptStatus c s =
     (if \<not> sv_data s then (s, Abort ''nullptr != data'')
      else
        (let x = accepted_slot status acceptStatus c; a = ConnectionAwaiter_emplace x (sv_awaiter s);
             s1 = s\<lparr>sv_awaiter := a, sv_arrived := sv_arrived s @ [x]\<rparr>
         in case caw_handle a of
              None \<Rightarrow> (s1, Ok ())
            | Some h \<Rightarrow> (s1\<lparr>sv_awaiter := a\<lparr>caw_handle := None\<rparr>, sv_loop := Loop_enqueue (Some h) (sv_loop s1),
                            sv_point := LsWoken\<rparr>, Ok ())))"

section \<open>Closing\<close>

text \<open>\<open>ConnectionAwaiter_::stop()\<close> resumes a suspended listener on the spot.\<close>

definition ConnectionAwaiter_stop :: "'c server \<Rightarrow> 'c server \<times> unit res" where
  "ConnectionAwaiter_stop s = (let a = sv_awaiter s in
     if caw_stopped a then (s, Ok ())
     else (case caw_handle a of
             None \<Rightarrow> (s\<lparr>sv_awaiter := a\<lparr>caw_stopped := True\<rparr>\<rparr>, Ok ())
           | Some h \<Rightarrow> ls_resumed (s\<lparr>sv_awaiter := a\<lparr>caw_stopped := True, caw_handle := None\<rparr>\<rparr>)))"

definition StreamServerBase_close :: "'c server \<Rightarrow> 'c server \<times> unit res" where
  "StreamServerBase_close s =
     rbind (if sv_socket s \<and> sv_data s then ConnectionAwaiter_stop s else (s, Ok ())) (\<lambda>s1 u.
       if sv_socket s1 \<and> sv_mem s1 = SockOpen
       then (s1\<lparr>sv_socket := False, sv_data := False, sv_mem := SockClosing\<rparr>, Ok ())
       else (s1, Ok ()))"

definition StreamServerBase_destroy :: "'c server \<Rightarrow> 'c server \<times> unit res" where
  "StreamServerBase_destroy s = StreamServerBase_close s"

definition UvStreamServer_getSockname :: "bool \<Rightarrow> uv_status \<Rightarrow> 'addr \<Rightarrow> 'addr res" where
  "UvStreamServer_getSockname is_tcp status addr =
     (if is_tcp then (if status \<noteq> 0 then Exn (UvcoStatus status ''StreamServerBase::getSockname() failed'')
                      else Ok addr)
      else Exn (UvcoStatus UV_ENOSYS ''StreamServerBase::getSockname() not implemented for uv_pipe_t''))"

section \<open>A listener among events\<close>

text \<open>
  \<open>SvListen\<close> starts a listener when there is none. libuv reports connections on an open socket
  with a listener, and runs the close callback when no coroutine is ready (\<open>uv_run\<close> follows
  \<open>runAll\<close>). \<open>SvNext\<close> is a consumer that awaits the generator; \<open>SvDrop\<close> destroys it.
\<close>

datatype 'c sv_event =
    SvListen uv_status | SvConnection uv_status uv_status 'c | SvTurn | SvNext | SvClose | SvCloseCallback | SvDrop

definition sv_fin :: "'c server \<Rightarrow> coro \<Rightarrow> bool" where
  "sv_fin s c = ls_over (sv_point s)"

definition sv_step :: "'c sv_event \<Rightarrow> 'c server \<Rightarrow> 'c server \<times> unit res" where
  "sv_step ev s = (case ev of
     SvListen st \<Rightarrow> (if ls_over (sv_point s) then StreamServerBase_listen st s else (s, Ok ()))
   | SvConnection st ast c \<Rightarrow>
       (if sv_mem s = SockOpen \<and> \<not> ls_over (sv_point s) then StreamServerBase_onNewConnection st ast c s
        else (s, Ok ()))
   | SvTurn \<Rightarrow>
       (case Loop_getNext (sv_fin s) (sv_loop s) of (l, t) \<Rightarrow>
          (case t of
             noop_coroutine \<Rightarrow> (s\<lparr>sv_loop := l\<rparr>, Ok ())
           | Coro c \<Rightarrow> (if sv_point s = LsWoken then ls_resumed (s\<lparr>sv_loop := l\<rparr>)
                         else (s, Abort ''resume of a coroutine that is not suspended''))))
   | SvNext \<Rightarrow>
       (case sv_point s of LsYielded i gen \<Rightarrow> ls_iter (Suc i) gen s | _ \<Rightarrow> (s, Ok ()))
   | SvClose \<Rightarrow> StreamServerBase_close s
   | SvCloseCallback \<Rightarrow>
       (if sv_mem s = SockClosing \<and> loop_pending (sv_fin s) (sv_loop s) = [] then (s\<lparr>sv_mem := SockFreed\<rparr>, Ok ())
        else (s, Ok ()))
   | SvDrop \<Rightarrow>
       (if ls_over (sv_point s) then (s, Ok ())
        else ConnectionAwaiter_destroy LsDropped (s\<lparr>sv_loop := Loop_cancel listen_handle (sv_loop s)\<rparr>)))"

abbreviation sv_run :: "'c sv_event list \<Rightarrow> 'c server \<Rightarrow> 'c server \<times> unit res" where
  "sv_run \<equiv> res_run sv_step"

definition sv_start :: "'c server" where
  "sv_start = \<lparr>sv_socket = True, sv_mem = SockOpen, sv_data = False, sv_awaiter = ConnectionAwaiter_new,
     sv_point = LsDropped, sv_loop = Loop_init, sv_out = [], sv_arrived = []\<rparr>"

text \<open>
  What the code needs of its environment: no more than the vector's capacity of connections
  while the listener is suspended in \<open>co_yield\<close>; no \<open>listen()\<close> on a closed server; a generator
  that is suspended in \<open>co_yield\<close> is neither awaited nor dropped once the socket is closed (the
  header forbids awaiting it).
\<close>

definition sv_polite :: "'c sv_event \<Rightarrow> 'c server \<Rightarrow> bool" where
  "sv_polite ev s = (case ev of
     SvListen st \<Rightarrow> sv_socket s
   | SvConnection st ast c \<Rightarrow>
       (case sv_point s of
          LsYielded i gen \<Rightarrow> length (caw_accepted (sv_awaiter s)) < caw_capacity (sv_awaiter s)
        | _ \<Rightarrow> True)
   | SvNext \<Rightarrow> sv_socket s
   | SvDrop \<Rightarrow> sv_mem s \<noteq> SockFreed
   | _ \<Rightarrow> True)"

abbreviation sv_polite_run :: "'c sv_event list \<Rightarrow> 'c server \<Rightarrow> bool" where
  "sv_polite_run \<equiv> guarded_run sv_step sv_polite"

section \<open>The invariant\<close>

text \<open>What has arrived and not been yielded, by the point of the listener.\<close>

definition sv_rest :: "'c server \<Rightarrow> 'c slot list" where
  "sv_rest s = (case sv_point s of
     LsYielded i gen \<Rightarrow> drop (Suc i) (caw_accepted (sv_awaiter s))
   | _ \<Rightarrow> caw_accepted (sv_awaiter s))"

definition sv_inv :: "'c server \<Rightarrow> bool" where
  "sv_inv s \<longleftrightarrow> (let a = sv_awaiter s; p = sv_point s in
     (sv_socket s \<longleftrightarrow> sv_mem s = SockOpen) \<and>
     (sv_data s \<longleftrightarrow> sv_socket s \<and> \<not> ls_over p) \<and>
     loop_pending (\<lambda>c. False) (sv_loop s) = (if p = LsWoken then [listen_handle] else []) \<and>
     (p = LsWoken \<longrightarrow> sv_mem s \<noteq> SockFreed) \<and>
     (p = LsSuspended \<longrightarrow> sv_socket s \<and> caw_accepted a = []) \<and>
     (\<not> ls_over p \<longrightarrow> caw_handle a = (if p = LsSuspended then Some listen_handle else None) \<and>
        (caw_stopped a \<longleftrightarrow> \<not> sv_socket s)) \<and>
     (case p of LsYielded i gen \<Rightarrow> i < length (caw_accepted a) \<and> gen = caw_generation a | _ \<Rightarrow> True) \<and>
     SlotError 0 \<notin> set (caw_accepted a) \<and>
     (\<exists>rest. sv_arrived s = map SlotStream (sv_out s) @ rest \<and> (\<not> ls_over p \<longrightarrow> rest = sv_rest s) \<and>
        (case p of
           LsThrown e \<Rightarrow> (\<exists>st rest'. rest = SlotError st # rest' \<and> e = accept_error st) \<or>
             (\<exists>st. sv_arrived s = [] \<and> e = listen_error st)
         | _ \<Rightarrow> True)))"

section \<open>Lemmas\<close>

lemma sv_fin_over: "ls_over (sv_point s) \<Longrightarrow> sv_fin s = (\<lambda>c. True)"
  by (auto simp: sv_fin_def)

lemma sv_fin_live: "\<not> ls_over (sv_point s) \<Longrightarrow> sv_fin s = (\<lambda>c. False)"
  by (auto simp: sv_fin_def)

lemma slot_not_zero: "SlotError 0 \<noteq> accepted_slot st ast c"
  by (simp add: accepted_slot_def)

lemma sv_inv_arrived:
  "sv_inv s \<Longrightarrow> \<exists>rest. sv_arrived s = map SlotStream (sv_out s) @ rest \<and> (sv_point s = LsSuspended \<longrightarrow> rest = [])"
  by (cases "sv_point s") (auto simp: sv_inv_def sv_rest_def Let_def)

lemma sv_inv_loop:
  "sv_inv s \<Longrightarrow> loop_pending (\<lambda>c. False) l = loop_pending (\<lambda>c. False) (sv_loop s) \<Longrightarrow> sv_inv (s\<lparr>sv_loop := l\<rparr>)"
  by (cases "sv_point s") (auto simp: sv_inv_def sv_rest_def Let_def)

lemma sv_inv_freed:
  "sv_inv s \<Longrightarrow> sv_mem s = SockClosing \<Longrightarrow> sv_point s \<noteq> LsWoken \<Longrightarrow> sv_inv (s\<lparr>sv_mem := SockFreed\<rparr>)"
  by (cases "sv_point s") (auto simp: sv_inv_def sv_rest_def Let_def)

lemma ls_iter_inv:
  fixes s :: "'c server"
  assumes "sv_socket s" "sv_mem s = SockOpen" "sv_data s" "loop_pending (\<lambda>c. False) (sv_loop s) = []"
    and "\<not> caw_stopped (sv_awaiter s)" "caw_handle (sv_awaiter s) = None" "gen = caw_generation (sv_awaiter s)"
    and "i \<le> length (caw_accepted (sv_awaiter s))" "SlotError 0 \<notin> set (caw_accepted (sv_awaiter s))"
    and "sv_arrived s = map SlotStream (sv_out s) @ drop i (caw_accepted (sv_awaiter s))"
  shows "\<exists>s'. ls_iter i gen s = (s', Ok ()) \<and> sv_inv s'"
proof (cases "i = length (caw_accepted (sv_awaiter s))")
  case True
  with assms show ?thesis
    by (simp add: ls_iter_def ls_suspend_def ConnectionAwaiter_await_suspend_def sv_inv_def sv_rest_def Let_def)
next
  case False
  then have i: "i < length (caw_accepted (sv_awaiter s))" using assms(8) by simp
  note d = Cons_nth_drop_Suc [OF i, symmetric]
  have m: "caw_accepted (sv_awaiter s) ! i \<in> set (caw_accepted (sv_awaiter s))" using i by simp
  have sub: "SlotError 0 \<notin> set (drop i (caw_accepted (sv_awaiter s)))" using assms(9) set_drop_subset by fastforce
  show ?thesis
  proof (cases "caw_accepted (sv_awaiter s) ! i")
    case (SlotError st)
    with m assms(9) have "st \<noteq> 0" by auto
    with SlotError False assms(1-7,10) sub d show ?thesis
      by (auto simp: ls_iter_def ConnectionAwaiter_destroy_def sv_inv_def Let_def)
  next
    case (SlotStream c)
    with False assms(1-7,9,10) i d show ?thesis
      by (auto simp: ls_iter_def sv_inv_def sv_rest_def Let_def)
  qed
qed

lemma sv_listen_inv:
  fixes s :: "'c server"
  assumes "sv_inv s" "sv_socket s" "ls_over (sv_point s)"
  shows "\<exists>s'. StreamServerBase_listen st s = (s', Ok ()) \<and> sv_inv s'"
  using assms
  by (cases "st = 0")
     (auto simp: StreamServerBase_listen_def ConnectionAwaiter_new_def ConnectionAwaiter_await_ready_def
       ConnectionAwaiter_destroy_def ls_suspend_def ConnectionAwaiter_await_suspend_def sv_inv_def sv_rest_def Let_def)

lemma sv_turn_inv:
  fixes s :: "'c server"
  assumes "sv_inv s"
  shows "\<exists>s'. sv_step SvTurn s = (s', Ok ()) \<and> sv_inv s'"
proof (cases "sv_point s = LsWoken")
  case True
  then have f: "sv_fin s = (\<lambda>c. False)" by (simp add: sv_fin_live)
  have "loop_pending (\<lambda>c. False) (sv_loop s) = [listen_handle]" using assms True by (simp add: sv_inv_def Let_def)
  then obtain l where l: "Loop_getNext (\<lambda>c. False) (sv_loop s) = (l, Coro listen_handle)" "loop_pending (\<lambda>c. False) l = []"
    using event_loop.nxt_some by blast
  show ?thesis
  proof (cases "sv_socket s")
    case True
    let ?s = "s\<lparr>sv_loop := l\<rparr>"
    have "\<exists>s'. ls_iter 0 (caw_generation (sv_awaiter s)) ?s = (s', Ok ()) \<and> sv_inv s'"
      by (rule ls_iter_inv) (use assms \<open>sv_point s = LsWoken\<close> True l in \<open>auto simp: sv_inv_def sv_rest_def Let_def\<close>)
    moreover have "\<not> caw_stopped (sv_awaiter s)" using assms \<open>sv_point s = LsWoken\<close> True by (simp add: sv_inv_def Let_def)
    ultimately show ?thesis using \<open>sv_point s = LsWoken\<close> l f
      by (simp add: sv_step_def ls_resumed_def ConnectionAwaiter_await_resume_def)
  next
    case False
    then show ?thesis using assms \<open>sv_point s = LsWoken\<close> l f
      by (auto simp: sv_step_def ls_resumed_def ConnectionAwaiter_await_resume_def ConnectionAwaiter_destroy_def
          sv_inv_def Let_def)
  qed
next
  case False
  have "loop_pending (sv_fin s) (sv_loop s) = []"
    using assms False by (cases "ls_over (sv_point s)") (auto simp: sv_fin_over sv_fin_live loop_pending_fin sv_inv_def Let_def)
  then obtain l where l: "Loop_getNext (sv_fin s) (sv_loop s) = (l, noop_coroutine)" "resumable (loop_scheduler l) = []"
    by (cases rule: loop_getNext_cases [of "sv_fin s" "sv_loop s"]) auto
  then have "loop_pending (\<lambda>c. False) l = []" by (simp add: loop_pending_def sched_pending_def List.map_filter_simps)
  moreover have "loop_pending (\<lambda>c. False) (sv_loop s) = []" using assms False by (simp add: sv_inv_def Let_def)
  ultimately show ?thesis using sv_inv_loop [OF assms, of l] l by (simp add: sv_step_def)
qed

lemma sv_connection_inv:
  fixes s :: "'c server"
  assumes "sv_inv s" "sv_polite (SvConnection st ast c) s"
  shows "\<exists>s'. sv_step (SvConnection st ast c) s = (s', Ok ()) \<and> sv_inv s'"
proof (cases "sv_mem s = SockOpen \<and> \<not> ls_over (sv_point s)")
  case False
  with assms(1) show ?thesis by (auto simp: sv_step_def)
next
  case True
  then have "sv_data s" using assms(1) by (simp add: sv_inv_def Let_def)
  with True assms slot_not_zero [of st ast c] show ?thesis
    by (cases "sv_point s")
       (auto simp: sv_step_def StreamServerBase_onNewConnection_def sv_polite_def sv_inv_def sv_rest_def
         ConnectionAwaiter_emplace_def loop_pending_enqueue Let_def)
qed

lemma sv_close_inv:
  fixes s :: "'c server"
  assumes "sv_inv s"
  shows "\<exists>s'. StreamServerBase_close s = (s', Ok ()) \<and> sv_inv s' \<and> \<not> sv_socket s'"
  using assms
  by (cases "sv_point s"; cases "sv_socket s")
     (auto simp: StreamServerBase_close_def ConnectionAwaiter_stop_def ls_resumed_def ConnectionAwaiter_await_resume_def
       ConnectionAwaiter_destroy_def sv_inv_def sv_rest_def Let_def)

lemma sv_step_inv:
  fixes s :: "'c server"
  assumes "sv_inv s" "sv_polite e s"
  shows "\<exists>s'. sv_step e s = (s', Ok ()) \<and> sv_inv s'"
proof (cases e)
  case (SvListen st)
  with assms sv_listen_inv [of s st] show ?thesis by (auto simp: sv_step_def sv_polite_def)
next
  case (SvConnection st ast c)
  with sv_connection_inv [OF assms(1), of st ast c] assms(2) show ?thesis by simp
next
  case SvTurn
  with sv_turn_inv [OF assms(1)] show ?thesis by simp
next
  case SvNext
  show ?thesis
  proof (cases "sv_point s")
    case (LsYielded i gen)
    have "\<exists>s'. ls_iter (Suc i) gen s = (s', Ok ()) \<and> sv_inv s'"
      by (rule ls_iter_inv) (use assms LsYielded SvNext in \<open>auto simp: sv_inv_def sv_rest_def sv_polite_def Let_def\<close>)
    with SvNext LsYielded show ?thesis by (simp add: sv_step_def)
  qed (use assms SvNext in \<open>auto simp: sv_step_def\<close>)
next
  case SvClose
  with sv_close_inv [OF assms(1)] show ?thesis by (auto simp: sv_step_def)
next
  case SvCloseCallback
  have "sv_point s \<noteq> LsWoken" if "loop_pending (sv_fin s) (sv_loop s) = []"
    using that assms(1) by (auto simp: sv_fin_live sv_inv_def Let_def)
  with assms(1) SvCloseCallback sv_inv_freed [OF assms(1)] show ?thesis by (auto simp: sv_step_def)
next
  case SvDrop
  have "loop_pending (\<lambda>c. False) (Loop_cancel listen_handle (sv_loop s)) = []"
    using assms(1) by (simp add: loop_pending_cancel sv_inv_def Let_def)
  with SvDrop assms show ?thesis
    by (cases "ls_over (sv_point s)")
       (auto simp: sv_step_def ConnectionAwaiter_destroy_def sv_polite_def sv_inv_def Let_def)
qed

lemma sv_start_inv: "sv_inv sv_start"
  by (simp add: sv_inv_def sv_start_def ConnectionAwaiter_new_def Loop_init_def loop_pending_def sched_pending_def
      List.map_filter_simps Let_def)

interpretation serving: guarded_system sv_step sv_polite sv_inv
  by unfold_locales (rule sv_step_inv)

section \<open>Properties\<close>


text \<open>Two connections, the second of which fails.\<close>

definition example_server_run :: "nat sv_event list" where
  "example_server_run = [SvListen 0, SvConnection 0 0 7, SvConnection 0 UV_EAGAIN 8, SvTurn, SvNext]"


text \<open>
  Five connections, of which the last arrives while the listener is suspended in \<open>co_yield\<close>,
  reallocate the vector under the iterator of the \<open>for\<close> loop; the next request of the consumer
  uses the invalid iterator.
\<close>

theorem server_iterator_invalidated:
  "snd (sv_run ([SvListen 0] @ map (SvConnection 0 0) [1, 2, 3, 4 :: nat] @ [SvTurn, SvConnection 0 0 5, SvNext]) sv_start) =
     Abort ''use of an invalid iterator''"
  by code_simp

text \<open>
  A listener that is suspended in \<open>co_yield\<close> when the server is closed, and dropped after libuv
  has freed the socket, writes to the freed socket.
\<close>

theorem server_drop_after_close:
  "snd (sv_run [SvListen 0, SvConnection 0 0 (1 :: nat), SvTurn, SvClose, SvCloseCallback, SvDrop] sv_start) =
     Abort ''use of a freed handle''"
  by code_simp

text \<open>
  A listener that waits is stopped by \<open>close()\<close> at once: it is over when \<open>close()\<close> returns.
\<close>

lemma close_stops_listener:
  fixes s :: "'c server"
  assumes "sv_inv s" "sv_point s = LsSuspended"
  shows "\<exists>s'. StreamServerBase_close s = (s', Ok ()) \<and> sv_point s' = LsDone \<and> sv_mem s' = SockClosing \<and> \<not> sv_data s'"
  using assms
  by (auto simp: StreamServerBase_close_def ConnectionAwaiter_stop_def ls_resumed_def ConnectionAwaiter_await_resume_def
      ConnectionAwaiter_destroy_def sv_inv_def Let_def)

end
