(* ===== verification/Name_Resolution.thy ===== *)
theory Name_Resolution
  imports Request_Pool
begin

text \<open>
  \<open>src/uvco/name_resolution.h\<close> and \<open>.cc\<close>: \<open>AddressHandle\<close> and \<open>Resolver\<close>.

  An address is its \<open>sockaddr\<close> structure: the family, the port in network byte order and the
  octets as they lie in memory, on a little-endian host. \<open>inet_pton\<close> and \<open>inet_ntop\<close> belong to the
  C library and are parameters; both receive C strings, so what follows a string view in memory
  is an argument where a view's \<open>data()\<close> is passed on.
\<close>

section \<open>Byte order and numbers\<close>

unbundle bit_operations_syntax

definition htons :: "u16 \<Rightarrow> u16" where
  "htons w = push_bit 8 w OR drop_bit 8 w"

definition ntohs :: "u16 \<Rightarrow> u16" where
  "ntohs w = push_bit 8 w OR drop_bit 8 w"

text \<open>The bytes of a \<open>uint32_t\<close> in memory.\<close>

definition u32_bytes :: "u32 \<Rightarrow> 8 word list" where
  "u32_bytes w = map (\<lambda>k. ucast (drop_bit (8 * k) w)) [0, 1, 2, 3]"

fun digits :: "nat \<Rightarrow> nat list" where
  "digits n = (if n < 10 then [n] else digits (n div 10) @ [n mod 10])"

declare digits.simps [simp del]

definition to_string :: "nat \<Rightarrow> string" where
  "to_string n = map (\<lambda>d. char_of (48 + d)) (digits n)"

definition of_string :: "string \<Rightarrow> nat" where
  "of_string s = foldl (\<lambda>n c. 10 * n + (of_char c - 48)) 0 s"

section \<open>AddressHandle\<close>

definition AF_UNSPEC :: int where "AF_UNSPEC = 0"
definition AF_INET :: int where "AF_INET = 2"
definition AF_INET6 :: int where "AF_INET6 = 10"

lemmas af_codes = AF_UNSPEC_def AF_INET_def AF_INET6_def

record sockaddr_in =
  sin_family :: int
  sin_port :: u16
  sin_addr :: "8 word list"

record sockaddr_in6 =
  sin6_family :: int
  sin6_port :: u16
  sin6_addr :: "8 word list"
  sin6_scope_id :: u32

datatype address_handle = Addr4 sockaddr_in | Addr6 sockaddr_in6

type_synonym pton = "int \<Rightarrow> string \<Rightarrow> 8 word list option"
type_synonym ntop = "int \<Rightarrow> 8 word list \<Rightarrow> string option"

definition AddressHandle_default :: address_handle where
  "AddressHandle_default = Addr4 \<lparr>sin_family = 0, sin_port = 0, sin_addr = [0, 0, 0, 0]\<rparr>"

definition AddressHandle_of_span :: "8 word list \<Rightarrow> u16 \<Rightarrow> u32 \<Rightarrow> address_handle res" where
  "AddressHandle_of_span ip port v6scope =
     (if length ip = 4 then Ok (Addr4 \<lparr>sin_family = AF_INET, sin_port = htons port, sin_addr = ip\<rparr>)
      else if length ip = 16
        then Ok (Addr6 \<lparr>sin6_family = AF_INET6, sin6_port = htons port, sin6_addr = ip, sin6_scope_id = v6scope\<rparr>)
      else Exn (UvcoMessage ''Invalid address size for IPv4/6 address!''))"

definition AddressHandle_of_u32 :: "u32 \<Rightarrow> u16 \<Rightarrow> address_handle res" where
  "AddressHandle_of_u32 ipv4 port = AddressHandle_of_span (u32_bytes ipv4) port 0"

text \<open>\<open>ip\<close> is the view and \<open>memory\<close> what follows it.\<close>

definition AddressHandle_of_string :: "pton \<Rightarrow> string \<Rightarrow> string \<Rightarrow> u16 \<Rightarrow> u32 \<Rightarrow> address_handle res" where
  "AddressHandle_of_string pton ip memory port v6scope =
     (if CHR '':'' \<in> set ip
      then (case pton AF_INET6 (c_string (ip @ memory)) of
              None \<Rightarrow> Exn (UvcoMessage (''invalid IPv6 address: '' @ ip))
            | Some a \<Rightarrow> Ok (Addr6 \<lparr>sin6_family = AF_INET6, sin6_port = htons port, sin6_addr = a,
                                   sin6_scope_id = v6scope\<rparr>))
      else (case pton AF_INET (c_string (ip @ memory)) of
              None \<Rightarrow> Exn (UvcoMessage (''invalid IPv4 address: '' @ ip))
            | Some a \<Rightarrow> Ok (Addr4 \<lparr>sin_family = AF_INET, sin_port = htons port, sin_addr = a\<rparr>)))"

text \<open>A \<open>struct sockaddr\<close> or an entry of \<open>struct addrinfo\<close> of any family, with its length.\<close>

datatype raw_sockaddr = Raw4 sockaddr_in | Raw6 sockaddr_in6 | RawOther int

definition AddressHandle_of_addrinfo :: "raw_sockaddr \<Rightarrow> nat \<Rightarrow> address_handle res" where
  "AddressHandle_of_addrinfo sa addrlen = (case sa of
     Raw4 a \<Rightarrow> (if 16 \<le> addrlen then Ok (Addr4 a) else Abort ''ai->ai_addrlen >= sizeof(struct sockaddr_in)'')
   | Raw6 a \<Rightarrow> (if 28 \<le> addrlen then Ok (Addr6 a) else Abort ''ai->ai_addrlen >= sizeof(struct sockaddr_in6)'')
   | RawOther f \<Rightarrow> Ok AddressHandle_default)"

definition AddressHandle_of_sockaddr :: "raw_sockaddr \<Rightarrow> address_handle res" where
  "AddressHandle_of_sockaddr sa = (case sa of
     Raw4 a \<Rightarrow> Ok (Addr4 a)
   | Raw6 a \<Rightarrow> Ok (Addr6 a)
   | RawOther f \<Rightarrow> Exn (UvcoMessage (''unknown address family '' @ to_string (nat f))))"

fun AddressHandle_port :: "address_handle \<Rightarrow> u16" where
  "AddressHandle_port (Addr4 a) = ntohs (sin_port a)"
| "AddressHandle_port (Addr6 a) = ntohs (sin6_port a)"

fun AddressHandle_family :: "address_handle \<Rightarrow> int" where
  "AddressHandle_family (Addr4 a) = AF_INET"
| "AddressHandle_family (Addr6 a) = AF_INET6"

fun AddressHandle_sockaddr :: "address_handle \<Rightarrow> raw_sockaddr" where
  "AddressHandle_sockaddr (Addr4 a) = Raw4 a"
| "AddressHandle_sockaddr (Addr6 a) = Raw6 a"

text \<open>
  \<open>NtopHelper_::ntop\<close>: the buffer is 16 or 40 bytes, and \<open>inet_ntop\<close> fails when the text and its
  terminator do not fit. \<open>errno_text\<close> is \<open>strerror(errno)\<close>.
\<close>

definition ntop_size :: "int \<Rightarrow> nat" where
  "ntop_size family = (if family = AF_INET then 4 * 3 + 3 + 1 else if family = AF_INET6 then 8 * 4 + 7 + 1 else 0)"

definition NtopHelper_ntop :: "ntop \<Rightarrow> string \<Rightarrow> int \<Rightarrow> 8 word list \<Rightarrow> string res" where
  "NtopHelper_ntop ntop errno_text family addr = (case ntop family addr of
     None \<Rightarrow> Exn (UvcoMessage (''inet_ntop(): '' @ errno_text))
   | Some text \<Rightarrow> (if length text < ntop_size family then Ok text
                    else Exn (UvcoMessage (''inet_ntop(): '' @ errno_text))))"

fun AddressHandle_address :: "ntop \<Rightarrow> string \<Rightarrow> address_handle \<Rightarrow> string res" where
  "AddressHandle_address ntop err (Addr4 a) = NtopHelper_ntop ntop err (sin_family a) (sin_addr a)"
| "AddressHandle_address ntop err (Addr6 a) = NtopHelper_ntop ntop err (sin6_family a) (sin6_addr a)"

definition AddressHandle_toString :: "ntop \<Rightarrow> string \<Rightarrow> address_handle \<Rightarrow> string res" where
  "AddressHandle_toString ntop err a = map_res (\<lambda>text.
     (if AddressHandle_family a = AF_INET then text @ '':'' @ to_string (unat (AddressHandle_port a))
      else ''['' @ text @ '']:'' @ to_string (unat (AddressHandle_port a)))) (AddressHandle_address ntop err a)"

section \<open>Resolver\<close>

text \<open>
  The awaiter owns the request until it releases it to libuv for cancellation. Beside it the
  model counts what becomes of the request: whether libuv still has to call back, and whether
  it has been deleted.
\<close>

record 'r ai_awaiter =
  ai_req :: bool
  ai_data :: bool
  ai_addrinfo :: "'r option"
  ai_status :: "uv_status option"
  ai_handle :: handle

record 'r gai_state =
  gai_awaiter :: "'r ai_awaiter"
  gai_outstanding :: bool
  gai_deleted :: nat
  gai_freed :: "'r list"
  gai_loop :: loop

definition AddrinfoAwaiter_new :: "'r ai_awaiter" where
  "AddrinfoAwaiter_new = \<lparr>ai_req = True, ai_data = False, ai_addrinfo = None, ai_status = None, ai_handle = None\<rparr>"

definition AddrinfoAwaiter_await_suspend :: "coro \<Rightarrow> 'r ai_awaiter \<Rightarrow> 'r ai_awaiter" where
  "AddrinfoAwaiter_await_suspend h a = a\<lparr>ai_handle := Some h, ai_data := True\<rparr>"

text \<open>
  What \<open>gai()\<close> asks of \<open>uv_getaddrinfo\<close>. Host and port are passed as \<open>data()\<close> of their views, so
  libuv reads on to the next NUL. The overload for a numeric port keeps the decimal text in a
  \<open>std::string\<close> of its own frame, where a NUL follows.
\<close>

record gai_request =
  gr_node :: string
  gr_service :: string
  gr_family :: int
  gr_socktype :: int

definition SOCK_STREAM :: int where "SOCK_STREAM = 1"

definition Resolver_gai_request :: "string \<Rightarrow> string \<Rightarrow> string \<Rightarrow> string \<Rightarrow> int \<Rightarrow> gai_request" where
  "Resolver_gai_request host host_memory port port_memory af_hint =
     \<lparr>gr_node = c_string (host @ host_memory), gr_service = c_string (port @ port_memory),
      gr_family = af_hint, gr_socktype = SOCK_STREAM\<rparr>"

definition Resolver_gai_port :: "string \<Rightarrow> string \<Rightarrow> u16 \<Rightarrow> string \<Rightarrow> int \<Rightarrow> gai_request" where
  "Resolver_gai_port host host_memory port memory af_hint =
     Resolver_gai_request host host_memory (to_string (unat port)) (CHR 0x00 # memory) af_hint"

text \<open>\<open>gai()\<close> up to its suspension. What \<open>uv_getaddrinfo\<close> returns is ignored; a non-zero status
  means that libuv will not call back.\<close>

definition Resolver_gai_start :: "coro \<Rightarrow> uv_status \<Rightarrow> loop \<Rightarrow> 'r gai_state" where
  "Resolver_gai_start h status l =
     \<lparr>gai_awaiter = AddrinfoAwaiter_await_suspend h AddrinfoAwaiter_new, gai_outstanding = (status = 0),
      gai_deleted = 0, gai_freed = [], gai_loop = l\<rparr>"

definition Resolver_onAddrinfo :: "uv_status \<Rightarrow> 'r \<Rightarrow> 'r gai_state \<Rightarrow> 'r gai_state \<times> unit res" where
  "Resolver_onAddrinfo status result g =
     (let g1 = g\<lparr>gai_outstanding := False\<rparr>; a = gai_awaiter g
      in if \<not> ai_data a then (g1\<lparr>gai_deleted := Suc (gai_deleted g1), gai_freed := gai_freed g1 @ [result]\<rparr>, Ok ())
         else if status = UV_ECANCELED then (g1, Ok ())
         else (let g2 = g1\<lparr>gai_awaiter := a\<lparr>ai_addrinfo := Some result, ai_status := Some status\<rparr>\<rparr>
               in case ai_handle a of
                    None \<Rightarrow> (g2, Abort ''awaiter->handle_ != nullptr'')
                  | Some h \<Rightarrow> (g2\<lparr>gai_loop := Loop_enqueue (Some h) (gai_loop g2)\<rparr>, Ok ())))"

definition AddrinfoAwaiter_await_resume :: "'r gai_state \<Rightarrow> 'r gai_state \<times> 'r res" where
  "AddrinfoAwaiter_await_resume g = (let a = gai_awaiter g in
     case ai_addrinfo a of
       None \<Rightarrow> (g, Abort ''addrinfo_'')
     | Some r \<Rightarrow> (if \<not> ai_data a then (g, Abort ''!requestDataIsNull(req_.get())'')
                   else (g\<lparr>gai_awaiter := a\<lparr>ai_data := False\<rparr>\<rparr>, Ok r)))"

text \<open>
  The destructor: \<open>uv_cancel\<close> succeeds only on an outstanding request; an owned request is
  deleted with the awaiter.
\<close>

definition AddrinfoAwaiter_destroy :: "'r gai_state \<Rightarrow> 'r gai_state" where
  "AddrinfoAwaiter_destroy g = (let a = gai_awaiter g;
     g1 = (if ai_req a \<and> ai_data a then g\<lparr>gai_awaiter := a\<lparr>ai_data := False, ai_req := False\<rparr>\<rparr> else g);
     g2 = (case ai_addrinfo a of None \<Rightarrow> g1 | Some r \<Rightarrow> g1\<lparr>gai_freed := gai_freed g1 @ [r]\<rparr>)
     in if ai_req (gai_awaiter g2)
        then g2\<lparr>gai_awaiter := (gai_awaiter g2)\<lparr>ai_req := False\<rparr>, gai_deleted := Suc (gai_deleted g2)\<rparr>
        else g2)"

definition gai_error :: "uv_status \<Rightarrow> exn" where
  "gai_error st = UvcoStatus st ''getaddrinfo()''"

text \<open>\<open>gai()\<close> from its resumption. \<open>entry\<close> reads the first entry of a result.\<close>

definition Resolver_gai_end ::
  "('r \<Rightarrow> raw_sockaddr \<times> nat) \<Rightarrow> 'r gai_state \<Rightarrow> 'r gai_state \<times> address_handle res" where
  "Resolver_gai_end entry g = (case AddrinfoAwaiter_await_resume g of (g1, v) \<Rightarrow>
     (case v of
        Abort m \<Rightarrow> (g1, Abort m)
      | Exn e \<Rightarrow> (AddrinfoAwaiter_destroy g1, Exn e)
      | Ok r \<Rightarrow>
          (case ai_status (gai_awaiter g1) of
             None \<Rightarrow> (AddrinfoAwaiter_destroy g1, Exn (StdException ''bad optional access''))
           | Some st \<Rightarrow>
               (AddrinfoAwaiter_destroy g1,
                if st \<noteq> 0 then Exn (gai_error st)
                else case entry r of (sa, len) \<Rightarrow> AddressHandle_of_addrinfo sa len))))"

section \<open>Lemmas\<close>

lemma htons_ntohs [simp]: "ntohs (htons w) = w"
  by (rule bit_word_eqI) (auto simp: htons_def ntohs_def bit_simps)

lemma digits_bound: "d \<in> set (digits n) \<Longrightarrow> d < 10"
  by (induction n rule: digits.induct) (subst (asm) (2) digits.simps, auto split: if_splits)

lemma of_string_to_string: "of_string (to_string n) = n"
proof -
  have "foldl (\<lambda>n c. 10 * n + (of_char c - 48)) 0 (map (\<lambda>d. char_of (48 + d)) (digits n)) = n"
  proof (induction n rule: digits.induct)
    case (1 n)
    then show ?case
      by (subst digits.simps) (auto simp: of_char_of)
  qed
  then show ?thesis by (simp add: of_string_def to_string_def)
qed

lemma to_string_digits: "c \<in> set (to_string n) \<Longrightarrow> \<exists>d < (10 :: nat). c = char_of (48 + d)"
  by (auto simp: to_string_def dest: digits_bound)

lemma c_string_terminated: "CHR 0x00 \<notin> set s \<Longrightarrow> c_string (s @ CHR 0x00 # rest) = s"
  by (induction s) (auto simp: c_string_def)

lemma no_colon_in_port: "CHR '':'' \<notin> set (to_string n)"
proof
  assume "CHR '':'' \<in> set (to_string n)"
  then obtain d :: nat where "d < 10" "CHR '':'' = (char_of (48 + d) :: char)" using to_string_digits by blast
  then have "of_char CHR '':'' = (48 + d) mod 256" by (metis of_char_of)
  with \<open>d < 10\<close> show False by simp
qed

lemma to_string_inject: "to_string m = to_string n \<Longrightarrow> m = n"
  by (metis of_string_to_string)

lemma split_at_last:
  assumes "x \<notin> set ys" "x \<notin> set ys'"
  shows "xs @ x # ys = xs' @ x # ys' \<longleftrightarrow> xs = xs' \<and> ys = ys'"
proof
  assume eq: "xs @ x # ys = xs' @ x # ys'"
  have t: "takeWhile (\<lambda>y. y \<noteq> x) (rev (us @ x # vs)) = rev vs" if "x \<notin> set vs" for us vs
    using that by (subst rev_append) (auto simp: takeWhile_append)
  from arg_cong [OF eq, of "\<lambda>zs. takeWhile (\<lambda>y. y \<noteq> x) (rev zs)"] have "rev ys = rev ys'"
    unfolding t [OF assms(1)] t [OF assms(2)] .
  with eq show "xs = xs' \<and> ys = ys'" by simp
qed simp

section \<open>Properties\<close>

text \<open>What the C library documents of \<open>inet_pton\<close> and \<open>inet_ntop\<close>: they are inverse to each
  other, and an IPv6 address has a colon, an IPv4 address none.\<close>

definition inet_agree :: "pton \<Rightarrow> ntop \<Rightarrow> bool" where
  "inet_agree pton ntop \<longleftrightarrow> (\<forall>fam bytes text. ntop fam bytes = Some text \<longrightarrow>
     pton fam text = Some bytes \<and> CHR 0x00 \<notin> set text \<and> (CHR '':'' \<in> set text \<longleftrightarrow> fam = AF_INET6))"

fun addr_wf :: "address_handle \<Rightarrow> bool" where
  "addr_wf (Addr4 a) = (sin_family a = AF_INET)"
| "addr_wf (Addr6 a) = (sin6_family a = AF_INET6)"

fun addr_bytes :: "address_handle \<Rightarrow> 8 word list" where
  "addr_bytes (Addr4 a) = sin_addr a"
| "addr_bytes (Addr6 a) = sin6_addr a"

fun addr_scope :: "address_handle \<Rightarrow> u32" where
  "addr_scope (Addr4 a) = 0"
| "addr_scope (Addr6 a) = sin6_scope_id a"

lemma AddressHandle_of_span_wf:
  "AddressHandle_of_span ip port scope = Ok a \<Longrightarrow> addr_wf a \<and> AddressHandle_port a = port"
  by (auto simp: AddressHandle_of_span_def split: if_splits)

lemma AddressHandle_of_string_wf:
  "AddressHandle_of_string pton ip memory port scope = Ok a \<Longrightarrow> addr_wf a \<and> AddressHandle_port a = port"
  by (auto simp: AddressHandle_of_string_def split: if_splits option.splits)

lemma htons_ntohs_inv [simp]: "htons (ntohs w) = w"
  using htons_ntohs [of w] by (simp add: htons_def ntohs_def)


definition example_ntop :: ntop where
  "example_ntop fam bytes = (if fam = AF_INET \<and> bytes = [127, 0, 0, 1] then Some ''127.0.0.1''
     else if fam = AF_INET6 \<and> bytes = replicate 15 0 @ [1] then Some ''::1'' else None)"

definition example_pton :: pton where
  "example_pton fam text = (if fam = AF_INET \<and> text = ''127.0.0.1'' then Some [127, 0, 0, 1]
     else if fam = AF_INET6 \<and> text = ''::1'' then Some (replicate 15 0 @ [1]) else None)"

lemma example_agree: "inet_agree example_pton example_ntop"
  by (auto simp: inet_agree_def example_ntop_def example_pton_def af_codes split: if_splits)


text \<open>
  \<open>toString()\<close> tells addresses apart: two addresses that print the same text agree in family,
  octets and port.
\<close>

theorem toString_injective:
  assumes "inet_agree pton ntop" "addr_wf a" "addr_wf b"
    and "AddressHandle_toString ntop err a = Ok s" "AddressHandle_toString ntop err b = Ok s"
  shows "AddressHandle_family a = AddressHandle_family b \<and> AddressHandle_port a = AddressHandle_port b \<and>
    addr_bytes a = addr_bytes b"
proof -
  define out where "out x t = (if AddressHandle_family x = AF_INET then t else ''['' @ t @ '']'') @
    CHR '':'' # to_string (unat (AddressHandle_port x))" for x t
  have form: "\<exists>t. AddressHandle_address ntop err x = Ok t \<and> s = out x t \<and>
      (CHR '':'' \<in> set t \<longleftrightarrow> AddressHandle_family x = AF_INET6) \<and> pton (AddressHandle_family x) t = Some (addr_bytes x)"
    if wf: "addr_wf x" and str: "AddressHandle_toString ntop err x = Ok s" for x
  proof -
    obtain t where t: "AddressHandle_address ntop err x = Ok t" "s = out x t"
      using str by (cases "AddressHandle_address ntop err x") (auto simp: AddressHandle_toString_def out_def)
    moreover have "ntop (AddressHandle_family x) (addr_bytes x) = Some t"
      using wf t(1) by (cases x) (auto simp: NtopHelper_ntop_def split: option.splits if_splits)
    ultimately show ?thesis using assms(1) by (auto simp: inet_agree_def)
  qed
  from form [OF assms(2,4)] obtain t where t: "AddressHandle_address ntop err a = Ok t" "s = out a t"
    "CHR '':'' \<in> set t \<longleftrightarrow> AddressHandle_family a = AF_INET6" "pton (AddressHandle_family a) t = Some (addr_bytes a)" by blast
  from form [OF assms(3,5)] obtain t' where t': "AddressHandle_address ntop err b = Ok t'" "s = out b t'"
    "CHR '':'' \<in> set t' \<longleftrightarrow> AddressHandle_family b = AF_INET6" "pton (AddressHandle_family b) t' = Some (addr_bytes b)" by blast
  have "out a t = out b t'" using t(2) t'(2) by simp
  then have eq: "(if AddressHandle_family a = AF_INET then t else ''['' @ t @ '']'') =
      (if AddressHandle_family b = AF_INET then t' else ''['' @ t' @ '']'')"
    and "to_string (unat (AddressHandle_port a)) = to_string (unat (AddressHandle_port b))"
    unfolding out_def by (simp_all only: split_at_last [OF no_colon_in_port no_colon_in_port])
  then have port: "AddressHandle_port a = AddressHandle_port b" by (metis to_string_inject word_unat_eq_iff)
  have fam: "AddressHandle_family x = AF_INET \<or> AddressHandle_family x = AF_INET6" for x by (cases x) auto
  have f: "AddressHandle_family a = AddressHandle_family b"
  proof (rule ccontr)
    assume "AddressHandle_family a \<noteq> AddressHandle_family b"
    with fam [of a] fam [of b] eq t(3) t'(3) show False
      by (auto simp: af_codes split: if_splits)
  qed
  with eq have "t = t'" by (auto split: if_splits)
  with f port t(4) t'(4) show ?thesis by simp
qed

theorem toString_injective_witness:
  "AddressHandle_port (Addr4 \<lparr>sin_family = AF_INET, sin_port = htons 80, sin_addr = [127, 0, 0, 1]\<rparr>) = 80"
proof -
  let ?a = "Addr4 \<lparr>sin_family = AF_INET, sin_port = htons 80, sin_addr = [127, 0, 0, 1]\<rparr>"
  have "AddressHandle_toString example_ntop [] ?a = Ok (''127.0.0.1:'' @ to_string (unat (AddressHandle_port ?a)))"
    by (simp add: AddressHandle_toString_def NtopHelper_ntop_def example_ntop_def ntop_size_def)
  from toString_injective [OF example_agree _ _ this this] show ?thesis by simp
qed

text \<open>
  The service of a lookup by number is the number, whatever lies behind it in memory; the host is
  the host only if a NUL follows it.
\<close>

lemma to_string_no_NUL: "CHR 0x00 \<notin> set (to_string n)"
proof
  assume "CHR 0x00 \<in> set (to_string n)"
  then obtain d :: nat where "d < 10" "CHR 0x00 = (char_of (48 + d) :: char)" using to_string_digits by blast
  then have "of_char CHR 0x00 = (48 + d) mod 256" by (metis of_char_of)
  with \<open>d < 10\<close> show False by simp
qed

lemma gai_port_service: "of_string (gr_service (Resolver_gai_port host host_memory port memory af)) = unat port"
  by (simp add: Resolver_gai_port_def Resolver_gai_request_def c_string_terminated to_string_no_NUL of_string_to_string)

lemma gai_node:
  "CHR 0x00 \<notin> set host \<Longrightarrow> gr_node (Resolver_gai_request host (CHR 0x00 # rest) port memory af) = host"
  by (simp add: Resolver_gai_request_def c_string_terminated)

lemma gai_node_reads_on:
  "gr_node (Resolver_gai_request ''example.org'' (''anization'' @ CHR 0x00 # rest) port memory af) = ''example.organization''"
  by (simp add: Resolver_gai_request_def c_string_def)

text \<open>A lookup is a request; it is settled when request and result are released exactly once.\<close>

definition gai_settled :: "'r gai_state \<Rightarrow> bool" where
  "gai_settled g \<longleftrightarrow> gai_deleted g = 1 \<and> length (gai_freed g) = 1 \<and> \<not> gai_outstanding g \<and> \<not> ai_req (gai_awaiter g)"

definition gai_outcome :: "('r \<Rightarrow> raw_sockaddr \<times> nat) \<Rightarrow> uv_status \<times> 'r \<Rightarrow> address_handle res" where
  "gai_outcome entry a = (if fst a = 0 then AddressHandle_of_addrinfo (fst (entry (snd a))) (snd (entry (snd a)))
     else Exn (gai_error (fst a)))"

lemmas gai_defs =
  Resolver_gai_start_def AddrinfoAwaiter_new_def AddrinfoAwaiter_await_suspend_def Resolver_onAddrinfo_def
  Resolver_gai_end_def AddrinfoAwaiter_await_resume_def AddrinfoAwaiter_destroy_def

text \<open>Lookups among each other: \<open>entry\<close> reads a result; libuv reports entries of their full size.\<close>

definition lookup_requests :: "('r \<Rightarrow> raw_sockaddr \<times> nat) \<Rightarrow> ('r gai_state, unit, uv_status \<times> 'r, address_handle) request_ops" where
  "lookup_requests entry = \<lparr>ro_start = (\<lambda>h. Resolver_gai_start h 0), ro_callback = (\<lambda>a. Resolver_onAddrinfo (fst a) (snd a)),
     ro_finish = (\<lambda>u. Resolver_gai_end entry), ro_cancel = AddrinfoAwaiter_destroy, ro_loop = gai_loop,
     ro_set_loop = (\<lambda>l g. g\<lparr>gai_loop := l\<rparr>), ro_in_frame = (\<lambda>u. False)\<rparr>"

definition lookup_completion :: "('r \<Rightarrow> raw_sockaddr \<times> nat) \<Rightarrow> uv_status \<times> 'r \<Rightarrow> bool" where
  "lookup_completion entry a \<longleftrightarrow> fst a \<noteq> UV_ECANCELED \<and>
     (case entry (snd a) of (Raw4 x, n) \<Rightarrow> 16 \<le> n | (Raw6 x, n) \<Rightarrow> 28 \<le> n | (RawOther f, n) \<Rightarrow> True)"

definition gai_awaiting :: "coro \<Rightarrow> 'r gai_state \<Rightarrow> bool" where
  "gai_awaiting h g \<longleftrightarrow> gai_awaiter g = \<lparr>ai_req = True, ai_data = True, ai_addrinfo = None, ai_status = None, ai_handle = Some h\<rparr> \<and>
     gai_outstanding g \<and> gai_deleted g = 0 \<and> gai_freed g = []"

definition gai_answered :: "uv_status \<times> 'r \<Rightarrow> 'r gai_state \<Rightarrow> bool" where
  "gai_answered a g \<longleftrightarrow> (\<exists>h. gai_awaiter g = \<lparr>ai_req = True, ai_data = True, ai_addrinfo = Some (snd a), ai_status = Some (fst a), ai_handle = h\<rparr>) \<and>
     \<not> gai_outstanding g \<and> gai_deleted g = 0 \<and> gai_freed g = []"

definition gai_abandoned :: "'r gai_state \<Rightarrow> bool" where
  "gai_abandoned g \<longleftrightarrow> \<not> ai_req (gai_awaiter g) \<and> \<not> ai_data (gai_awaiter g) \<and> gai_outstanding g \<and> gai_deleted g = 0 \<and> gai_freed g = []"

text \<open>The result is freed, the request was released to a callback that has come already.\<close>

definition gai_late :: "'r gai_state \<Rightarrow> bool" where
  "gai_late g \<longleftrightarrow> \<not> ai_req (gai_awaiter g) \<and> \<not> gai_outstanding g \<and> gai_deleted g = 0 \<and> length (gai_freed g) = 1"

lemmas gai_phases = gai_awaiting_def gai_answered_def gai_abandoned_def gai_late_def gai_settled_def

interpretation lookup: uv_request "lookup_requests entry" gai_awaiting gai_answered gai_abandoned "\<lambda>g. gai_settled" gai_late
  "lookup_completion entry" "\<lambda>u. gai_outcome entry" for entry
  by unfold_locales
     (auto simp: lookup_requests_def lookup_completion_def gai_defs gai_phases gai_outcome_def AddressHandle_of_addrinfo_def Let_def
        split: prod.splits raw_sockaddr.splits if_splits)

text \<open>
  Any number of lookups that libuv accepts, in any interleaving of callbacks, turns and
  destroyed promises: each returns the first address or throws the status, in the order of the
  callbacks. A request that ended, or was cancelled and called back, is deleted exactly once and its
  result freed exactly once.
\<close>

theorem lookups_answered:
  assumes "guarded_run (rp_step (lookup_requests entry)) (rp_guard (lookup_requests entry) (lookup_completion entry)) es rp_start"
  shows "\<exists>p. res_run (rp_step (lookup_requests entry)) es rp_start = (p, Ok ()) \<and>
    (\<exists>rest. rp_answers (\<lambda>u. gai_outcome entry) p = rp_results p @ rest \<and> map fst rest = rp_queue p) \<and>
    (\<forall>c < rp_next p. \<exists>g. rp_req p c = Some ((), g) \<and>
      (if rp_ended p c then gai_deleted g = 1 \<and> length (gai_freed g) = 1
       else gai_deleted g = 0 \<and> (gai_outstanding g \<or> c \<in> set (rp_queue p) \<or> c \<in> set (rp_late p))))"
proof -
  obtain p where p: "res_run (rp_step (lookup_requests entry)) es rp_start = (p, Ok ())"
    "\<exists>rest. rp_answers (\<lambda>u. gai_outcome entry) p = rp_results p @ rest \<and> map fst rest = rp_queue p"
    and fate: "\<forall>c < rp_next p. \<exists>j g. rp_req p c = Some (j, g) \<and> lookup.request_fate entry p c j g"
    using lookup.requests_answered [OF assms] by blast
  have "if rp_ended p c then gai_deleted g = 1 \<and> length (gai_freed g) = 1
      else gai_deleted g = 0 \<and> (gai_outstanding g \<or> c \<in> set (rp_queue p) \<or> c \<in> set (rp_late p))"
    if "lookup.request_fate entry p c j g" for c j g
    using that by (auto simp: lookup.request_fate_def rp_ended_def gai_phases split: if_splits option.splits)
  with p fate show ?thesis by fastforce
qed

text \<open>
  Two paths are not covered. A lookup that is cancelled between its callback and its
  resumption releases the request to nobody: it is never deleted. A lookup that \<open>uv_getaddrinfo\<close>
  refuses suspends all the same, with no callback to come.
\<close>

theorem gai_loses_request:
  fixes r :: 'r
  shows "(\<exists>g1. Resolver_onAddrinfo 0 r (Resolver_gai_start h 0 l) = (g1, Ok ()) \<and>
      gai_deleted (AddrinfoAwaiter_destroy g1) = 0 \<and> \<not> ai_req (gai_awaiter (AddrinfoAwaiter_destroy g1)) \<and>
      \<not> gai_outstanding (AddrinfoAwaiter_destroy g1)) \<and>
    \<not> gai_outstanding (Resolver_gai_start h UV_EINVAL l :: 'r gai_state) \<and>
    ai_handle (gai_awaiter (Resolver_gai_start h UV_EINVAL l :: 'r gai_state)) = Some h"
  by (simp add: Resolver_gai_start_def AddrinfoAwaiter_new_def AddrinfoAwaiter_await_suspend_def
      Resolver_onAddrinfo_def AddrinfoAwaiter_destroy_def uv_codes Let_def)

text \<open>
  The string constructor reads past the end of a view that is not followed by a NUL: the
  address ''127.0.0.1'', as a view into ''127.0.0.19'', is parsed as the longer one.
\<close>

theorem address_reads_past_view:
  "AddressHandle_of_string pton ''127.0.0.1'' (''9'' @ CHR 0x00 # memory) port scope =
   (case pton AF_INET ''127.0.0.19'' of
      None \<Rightarrow> Exn (UvcoMessage (''invalid IPv4 address: '' @ ''127.0.0.1''))
    | Some a \<Rightarrow> Ok (Addr4 \<lparr>sin_family = AF_INET, sin_port = htons port, sin_addr = a\<rparr>))"
  by (simp add: AddressHandle_of_string_def c_string_def)

end
