(* ===== verification/Connecting.thy ===== *)
theory Connecting
  imports Name_Resolution Stream_Server
begin

text \<open>
  Clients and servers over TCP and Unix sockets, and pipes: \<open>src/uvco/tcp.cc\<close>, \<open>uds.cc\<close>,
  \<open>uds_stream.cc\<close>, \<open>pipe.cc\<close>.

  Connecting is the same exchange for both kinds of socket; the awaiters differ in where they
  clean up. The state keeps the awaiter and, of libuv, who owns the connection request, whether
  its callback is outstanding, how often the socket was closed and how often the request was
  freed.
\<close>

section \<open>The connection request\<close>

record connect_state =
  cn_req :: bool
  cn_data :: bool
  cn_socket :: bool
  cn_handle :: handle
  cn_status :: "uv_status option"
  cn_outstanding :: bool
  cn_closes :: nat
  cn_freed :: nat
  cn_loop :: loop

definition ConnectAwaiter_new :: "loop \<Rightarrow> connect_state" where
  "ConnectAwaiter_new l = \<lparr>cn_req = True, cn_data = True, cn_socket = True, cn_handle = None, cn_status = None,
     cn_outstanding = False, cn_closes = 0, cn_freed = 0, cn_loop = l\<rparr>"

text \<open>\<open>closeHandle(socket_.release())\<close> (with \<open>uvCloseReset\<close> for TCP), whose argument must not be null.\<close>

definition close_socket :: "connect_state \<Rightarrow> connect_state \<times> unit res" where
  "close_socket s =
     (if cn_socket s then (s\<lparr>cn_socket := False, cn_closes := Suc (cn_closes s)\<rparr>, Ok ())
      else (s, Abort ''handle != nullptr''))"

text \<open>
  Leaving the frame of \<open>connect()\<close>: the \<open>OnExit\<close> guard, then the awaiter's destructor with its
  \<open>unique_ptr\<close> members.
\<close>

definition ConnectAwaiter_onExit :: "connect_state \<Rightarrow> connect_state" where
  "ConnectAwaiter_onExit s = (if cn_handle s \<noteq> None then s\<lparr>cn_data := False\<rparr> else s)"

definition ConnectAwaiter_destroy :: "connect_state \<Rightarrow> connect_state" where
  "ConnectAwaiter_destroy s =
     (let s1 = (if cn_socket s then fst (close_socket s) else s)
      in if cn_req s1 then s1\<lparr>cn_req := False, cn_freed := Suc (cn_freed s1)\<rparr> else s1)"

definition connect_leave :: "connect_state \<Rightarrow> connect_state" where
  "connect_leave s = ConnectAwaiter_destroy (ConnectAwaiter_onExit s)"

definition ConnectAwaiter_await_suspend :: "coro \<Rightarrow> connect_state \<Rightarrow> connect_state \<times> unit res" where
  "ConnectAwaiter_await_suspend h s =
     (if cn_handle s \<noteq> None then (s, Abort ''!handle_'') else (s\<lparr>cn_handle := Some h\<rparr>, Ok ()))"

section \<open>TcpClient\<close>

record tcp_client =
  tc_resolved :: "address_handle option"
  tc_host :: string
  tc_af_hint :: int
  tc_port :: u16

definition TcpClient_new_host :: "string \<Rightarrow> u16 \<Rightarrow> int \<Rightarrow> tcp_client" where
  "TcpClient_new_host host port af_hint =
     \<lparr>tc_resolved = None, tc_host = host, tc_af_hint = af_hint, tc_port = port\<rparr>"

definition TcpClient_new_address :: "address_handle \<Rightarrow> tcp_client" where
  "TcpClient_new_address a = \<lparr>tc_resolved = Some a, tc_host = [], tc_af_hint = 0, tc_port = 0\<rparr>"

definition TcpClient_move :: "tcp_client \<Rightarrow> tcp_client" where
  "TcpClient_move other =
     \<lparr>tc_resolved = None, tc_host = tc_host other, tc_af_hint = tc_af_hint other, tc_port = tc_port other\<rparr>"

definition TcpClient_move_assign :: "tcp_client \<Rightarrow> tcp_client \<Rightarrow> tcp_client" where
  "TcpClient_move_assign this other = this\<lparr>tc_host := tc_host other, tc_port := tc_port other\<rparr>"

text \<open>The address \<open>connect()\<close> uses; \<open>gai\<close> is the outcome of \<open>Resolver::gai\<close> on host, port and hint.\<close>

definition TcpClient_address :: "(string \<Rightarrow> u16 \<Rightarrow> int \<Rightarrow> address_handle res) \<Rightarrow> tcp_client \<Rightarrow> address_handle res" where
  "TcpClient_address gai c = (case tc_resolved c of
     Some a \<Rightarrow> Ok a | None \<Rightarrow> gai (tc_host c) (tc_port c) (tc_af_hint c))"

definition tcp_init_error :: "uv_status \<Rightarrow> exn" where
  "tcp_init_error st = UvcoStatus st ''TcpClient::connect() uv_tcp_init() failed''"

definition tcp_connect_error :: "uv_status \<Rightarrow> exn" where
  "tcp_connect_error st = UvcoStatus st ''TcpClient::connect() failed immediately''"

definition tcp_failed_error :: "uv_status \<Rightarrow> exn" where
  "tcp_failed_error st = UvcoStatus st ''TcpClient::connect() connection failed''"

text \<open>\<open>connect()\<close> from its awaiter on, up to its suspension.\<close>

definition TcpClient_connect_start ::
  "coro \<Rightarrow> uv_status \<Rightarrow> uv_status \<Rightarrow> loop \<Rightarrow> connect_state \<times> unit res" where
  "TcpClient_connect_start h initStatus connectStatus l =
     (let s = ConnectAwaiter_new l
      in if initStatus < 0 then (connect_leave s, Exn (tcp_init_error initStatus))
         else let s1 = s\<lparr>cn_req := False\<rparr>
              in if connectStatus < 0 then (connect_leave s1, Exn (tcp_connect_error connectStatus))
                 else ConnectAwaiter_await_suspend h (s1\<lparr>cn_outstanding := True\<rparr>))"

definition TcpConnectAwaiter_onConnect :: "uv_status \<Rightarrow> connect_state \<Rightarrow> connect_state" where
  "TcpConnectAwaiter_onConnect status s =
     (let s1 = s\<lparr>cn_status := Some status\<rparr>
      in case cn_handle s1 of
           None \<Rightarrow> s1
         | Some h \<Rightarrow> s1\<lparr>cn_loop := Loop_enqueue (Some h) (cn_loop s1), cn_handle := None\<rparr>)"

text \<open>The static callback owns the request and frees it.\<close>

definition TcpClient_onConnect :: "uv_status \<Rightarrow> connect_state \<Rightarrow> connect_state" where
  "TcpClient_onConnect status s =
     (let s1 = s\<lparr>cn_outstanding := False, cn_freed := Suc (cn_freed s)\<rparr>
      in if \<not> cn_data s1 then s1 else (TcpConnectAwaiter_onConnect status s1)\<lparr>cn_data := False\<rparr>)"

definition TcpConnectAwaiter_await_resume :: "connect_state \<Rightarrow> connect_state \<times> unit res" where
  "TcpConnectAwaiter_await_resume s = (case cn_status s of
     None \<Rightarrow> (s, Abort ''status_'')
   | Some st \<Rightarrow> (if st \<noteq> 0 then (s, Exn (tcp_failed_error st)) else (s\<lparr>cn_socket := False\<rparr>, Ok ())))"

text \<open>\<open>connect()\<close> from its resumption: \<open>Ok\<close> is a stream that owns the socket.\<close>

definition TcpClient_connect_end :: "connect_state \<Rightarrow> connect_state \<times> unit res" where
  "TcpClient_connect_end s = (case TcpConnectAwaiter_await_resume s of (s1, r) \<Rightarrow>
     (case r of
        Ok u \<Rightarrow> (connect_leave s1, Ok ())
      | Exn e \<Rightarrow> rbind (close_socket s1) (\<lambda>s2 u. (connect_leave s2, Exn e))
      | Abort m \<Rightarrow> (s1, Abort m)))"

section \<open>UnixStreamClient\<close>

text \<open>Its awaiter, whose status is 0 until the callback sets it.\<close>

definition UdsConnectAwaiter_new :: "loop \<Rightarrow> connect_state" where
  "UdsConnectAwaiter_new l = \<lparr>cn_req = True, cn_data = True, cn_socket = True, cn_handle = None, cn_status = Some 0,
     cn_outstanding = False, cn_closes = 0, cn_freed = 0, cn_loop = l\<rparr>"

definition UdsConnectAwaiter_destroy :: "connect_state \<Rightarrow> connect_state" where
  "UdsConnectAwaiter_destroy s =
     (let s1 = (if cn_socket s then fst (close_socket s) else s)
      in if cn_req s1 then s1\<lparr>cn_req := False, cn_freed := Suc (cn_freed s1)\<rparr> else s1)"

definition UdsConnectAwaiter_await_suspend :: "coro \<Rightarrow> connect_state \<Rightarrow> connect_state \<times> unit res" where
  "UdsConnectAwaiter_await_suspend h s =
     (if cn_handle s \<noteq> None then (s, Abort ''handle_ == nullptr'') else (s\<lparr>cn_handle := Some h\<rparr>, Ok ()))"

definition uds_onExit :: "connect_state \<Rightarrow> connect_state" where
  "uds_onExit s = (if cn_handle s \<noteq> None then s\<lparr>cn_data := False\<rparr> else s)"

definition uds_leave :: "connect_state \<Rightarrow> connect_state" where
  "uds_leave s = UdsConnectAwaiter_destroy (uds_onExit s)"

definition uds_connect_error :: "uv_status \<Rightarrow> exn" where
  "uds_connect_error st = UvcoStatus st ''UnixStreamClient::connect() failed immediately''"

definition uds_failed_error :: "uv_status \<Rightarrow> exn" where
  "uds_failed_error st = UvcoStatus st ''UnixStreamClient failed to connect''"

definition UnixStreamClient_connect_start :: "coro \<Rightarrow> uv_status \<Rightarrow> loop \<Rightarrow> connect_state \<times> unit res" where
  "UnixStreamClient_connect_start h connectStatus l =
     (let s = (UdsConnectAwaiter_new l)\<lparr>cn_req := False\<rparr>
      in if connectStatus \<noteq> 0
         then rbind (close_socket s) (\<lambda>s1 u. (uds_leave s1, Exn (uds_connect_error connectStatus)))
         else UdsConnectAwaiter_await_suspend h (s\<lparr>cn_outstanding := True\<rparr>))"

definition UnixStreamClient_onConnect :: "uv_status \<Rightarrow> connect_state \<Rightarrow> connect_state" where
  "UnixStreamClient_onConnect status s =
     (let s1 = s\<lparr>cn_outstanding := False, cn_freed := Suc (cn_freed s)\<rparr>
      in if \<not> cn_data s1 then s1
         else let s2 = s1\<lparr>cn_status := Some status\<rparr>
              in case cn_handle s2 of
                   None \<Rightarrow> s2
                 | Some h \<Rightarrow> s2\<lparr>cn_loop := Loop_enqueue (Some h) (cn_loop s2), cn_handle := None\<rparr>)"

definition UdsConnectAwaiter_await_resume :: "connect_state \<Rightarrow> connect_state \<times> unit res" where
  "UdsConnectAwaiter_await_resume s =
     (if cn_status s \<noteq> Some 0 then (s, Exn (uds_failed_error (the (cn_status s))))
      else (s\<lparr>cn_handle := None, cn_socket := False\<rparr>, Ok ()))"

definition UnixStreamClient_connect_end :: "connect_state \<Rightarrow> connect_state \<times> unit res" where
  "UnixStreamClient_connect_end s = (case UdsConnectAwaiter_await_resume s of (s1, r) \<Rightarrow>
     (case r of
        Ok u \<Rightarrow> (uds_leave s1, Ok ())
      | Exn e \<Rightarrow> rbind (close_socket s1) (\<lambda>s2 u. (uds_leave s2, Exn e))
      | Abort m \<Rightarrow> (s1, Abort m)))"

section \<open>Servers, names and pipes\<close>

definition TcpServer_new :: "bool \<Rightarrow> (bool \<Rightarrow> uv_status) \<Rightarrow> 'c server res" where
  "TcpServer_new ipv6Only uv_tcp_bind =
     (let status = uv_tcp_bind ipv6Only
      in if status \<noteq> 0 then Exn (UvcoStatus status ''TcpServer::bind()'') else Ok sv_start)"

definition UnixStreamServer_new :: "uv_status \<Rightarrow> 'c server res" where
  "UnixStreamServer_new bindStatus =
     (if bindStatus \<noteq> 0 then Exn (UvcoStatus bindStatus ''UnixStreamServer failed to bind'') else Ok sv_start)"

text \<open>
  \<open>getXname\<close>: \<open>getName\<close> fills a buffer of 1024 bytes and returns a status and the size of the
  name.
\<close>

definition getXname :: "(nat \<Rightarrow> uv_status \<times> string) \<Rightarrow> string res" where
  "getXname getName = (case getName 1024 of (status, path) \<Rightarrow>
     (if status \<noteq> 0 then Exn (UvcoStatus status ''UnixStream::getXName failed'') else Ok path))"

definition UnixStream_getSockName :: "(nat \<Rightarrow> uv_status \<times> string) \<Rightarrow> stream_base \<Rightarrow> string res" where
  "UnixStream_getSockName uv_pipe_getsockname s = (case StreamBase_stream s of
     Ok u \<Rightarrow> getXname uv_pipe_getsockname | Exn e \<Rightarrow> Exn e | Abort m \<Rightarrow> Abort m)"

definition UnixStream_getPeerName :: "(nat \<Rightarrow> uv_status \<times> string) \<Rightarrow> stream_base \<Rightarrow> string res" where
  "UnixStream_getPeerName uv_pipe_getpeername s = (case StreamBase_stream s of
     Ok u \<Rightarrow> getXname uv_pipe_getpeername | Exn e \<Rightarrow> Exn e | Abort m \<Rightarrow> Abort m)"

text \<open>
  The names of a TCP stream: libuv fills the zeroed storage or, when it fails, leaves it (\<open>None\<close>); its
  status is not looked at. The stream's pointer is not checked.
\<close>

definition TcpStream_name :: "raw_sockaddr option \<Rightarrow> stream_base \<Rightarrow> address_handle res" where
  "TcpStream_name filled s =
     (if sb_stream s then AddressHandle_of_sockaddr (case filled of None \<Rightarrow> RawOther AF_UNSPEC | Some a \<Rightarrow> a)
      else Abort ''null pointer'')"

definition TcpStream_getSockName :: "raw_sockaddr option \<Rightarrow> stream_base \<Rightarrow> address_handle res" where
  "TcpStream_getSockName filled s = TcpStream_name filled s"

definition TcpStream_getPeerName :: "raw_sockaddr option \<Rightarrow> stream_base \<Rightarrow> address_handle res" where
  "TcpStream_getPeerName filled s = TcpStream_name filled s"

text \<open>Options and modes: the calls made to libuv, whose statuses are not looked at.\<close>

datatype uv_option = OptKeepAlive int u32 | OptNoDelay int | OptChmod int

definition TcpStream_keepAlive :: "bool \<Rightarrow> u32 \<Rightarrow> stream_base \<Rightarrow> uv_option res" where
  "TcpStream_keepAlive enable delay s =
     map_res (\<lambda>u. OptKeepAlive (if enable then 1 else 0) delay) (StreamBase_stream s)"

definition TcpStream_noDelay :: "bool \<Rightarrow> stream_base \<Rightarrow> uv_option res" where
  "TcpStream_noDelay enable s = map_res (\<lambda>u. OptNoDelay (if enable then 1 else 0)) (StreamBase_stream s)"

definition UnixStreamServer_chmod :: "int \<Rightarrow> 'c server \<Rightarrow> uv_option res" where
  "UnixStreamServer_chmod mode s = (if sv_socket s then Ok (OptChmod mode) else Abort ''null pointer'')"

text \<open>
  \<open>pipe(loop)\<close>: the end to read from (descriptor 0 of the pair) first, then the end to write to. When
  \<open>uv_pipe\<close> fails (\<open>None\<close>) the zeroed pair is used; its status is not looked at.
\<close>

definition uvco_pipe :: "(int \<times> int) option \<Rightarrow> (stream_base \<times> int) \<times> (stream_base \<times> int)" where
  "uvco_pipe opened = (let fds = (case opened of None \<Rightarrow> (0, 0) | Some p \<Rightarrow> p) in
     ((StreamBase_new, fst fds), (StreamBase_new, snd fds)))"

section \<open>Properties\<close>

lemmas connect_defs =
  ConnectAwaiter_new_def close_socket_def ConnectAwaiter_onExit_def ConnectAwaiter_destroy_def connect_leave_def
  ConnectAwaiter_await_suspend_def TcpConnectAwaiter_onConnect_def

lemmas tcp_defs =
  TcpClient_connect_start_def TcpClient_onConnect_def TcpConnectAwaiter_await_resume_def TcpClient_connect_end_def

lemmas uds_defs =
  UnixStreamClient_connect_start_def UnixStreamClient_onConnect_def UdsConnectAwaiter_await_resume_def
  UnixStreamClient_connect_end_def UdsConnectAwaiter_new_def UdsConnectAwaiter_destroy_def UdsConnectAwaiter_await_suspend_def
  uds_onExit_def uds_leave_def

text \<open>
  What is owed at the end: the request was freed exactly once, no callback is outstanding, and
  the socket was closed exactly as often as said.
\<close>

definition settled :: "nat \<Rightarrow> connect_state \<Rightarrow> bool" where
  "settled closes s \<longleftrightarrow> cn_closes s = closes \<and> cn_freed s = 1 \<and> \<not> cn_outstanding s \<and> \<not> cn_socket s \<and> \<not> cn_req s"

definition tcp_outcome :: "uv_status \<Rightarrow> unit res" where
  "tcp_outcome st = (if st = 0 then Ok () else Exn (tcp_failed_error st))"

definition uds_outcome :: "uv_status \<Rightarrow> unit res" where
  "uds_outcome st = (if st = 0 then Ok () else Exn (uds_failed_error st))"

text \<open>The phases of an attempt, for both kinds of socket.\<close>

definition cn_awaiting :: "coro \<Rightarrow> connect_state \<Rightarrow> bool" where
  "cn_awaiting h s \<longleftrightarrow> \<not> cn_req s \<and> cn_data s \<and> cn_socket s \<and> cn_handle s = Some h \<and> cn_outstanding s \<and> cn_closes s = 0 \<and> cn_freed s = 0"

definition cn_answered :: "uv_status \<Rightarrow> connect_state \<Rightarrow> bool" where
  "cn_answered st s \<longleftrightarrow> \<not> cn_req s \<and> cn_socket s \<and> cn_handle s = None \<and> cn_status s = Some st \<and> \<not> cn_outstanding s \<and>
     cn_closes s = 0 \<and> cn_freed s = 1"

definition cn_abandoned :: "connect_state \<Rightarrow> bool" where
  "cn_abandoned s \<longleftrightarrow> \<not> cn_req s \<and> \<not> cn_data s \<and> \<not> cn_socket s \<and> cn_outstanding s \<and> cn_closes s = 1 \<and> cn_freed s = 0"

definition cn_settled :: "uv_status option \<Rightarrow> connect_state \<Rightarrow> bool" where
  "cn_settled g s \<longleftrightarrow> settled (if g = Some 0 then 0 else 1) s"

definition cn_late :: "connect_state \<Rightarrow> bool" where
  "cn_late s \<longleftrightarrow> settled 1 s"

lemmas cn_phases = cn_awaiting_def cn_answered_def cn_abandoned_def cn_settled_def cn_late_def settled_def

definition tcp_requests :: "(connect_state, unit, uv_status, unit) request_ops" where
  "tcp_requests = \<lparr>ro_start = (\<lambda>h l. fst (TcpClient_connect_start h 0 0 l)), ro_callback = (\<lambda>st s. (TcpClient_onConnect st s, Ok ())),
     ro_finish = (\<lambda>u. TcpClient_connect_end), ro_cancel = connect_leave, ro_loop = cn_loop, ro_set_loop = (\<lambda>l s. s\<lparr>cn_loop := l\<rparr>),
     ro_in_frame = (\<lambda>u. False)\<rparr>"

definition uds_requests :: "(connect_state, unit, uv_status, unit) request_ops" where
  "uds_requests = \<lparr>ro_start = (\<lambda>h l. fst (UnixStreamClient_connect_start h 0 l)), ro_callback = (\<lambda>st s. (UnixStreamClient_onConnect st s, Ok ())),
     ro_finish = (\<lambda>u. UnixStreamClient_connect_end), ro_cancel = uds_leave, ro_loop = cn_loop, ro_set_loop = (\<lambda>l s. s\<lparr>cn_loop := l\<rparr>),
     ro_in_frame = (\<lambda>u. False)\<rparr>"

interpretation tcp_pool: uv_request tcp_requests cn_awaiting cn_answered cn_abandoned cn_settled cn_late "\<lambda>st. True" "\<lambda>u. tcp_outcome"
  by unfold_locales (auto simp: tcp_requests_def connect_defs tcp_defs cn_phases tcp_outcome_def Let_def)

interpretation uds_pool: uv_request uds_requests cn_awaiting cn_answered cn_abandoned cn_settled cn_late "\<lambda>st. True" "\<lambda>u. uds_outcome"
  by unfold_locales (auto simp: uds_requests_def connect_defs uds_defs cn_phases uds_outcome_def Let_def)

text \<open>
  What becomes of an attempt: finished, its socket is open for a stream exactly if it succeeded, and
  was closed once otherwise; with its promise destroyed, the socket was closed once; unfinished,
  it is open. The request is freed exactly once, by the callback.
\<close>

definition connect_accounted :: "(connect_state, unit, uv_status, unit) rpool \<Rightarrow> coro \<Rightarrow> connect_state \<Rightarrow> bool" where
  "connect_accounted p c s \<longleftrightarrow>
     cn_freed s = (if rp_logged p c then 1 else 0) \<and> (cn_outstanding s \<longleftrightarrow> \<not> rp_logged p c) \<and>
     (case map_of (rp_results p) c of
        Some v \<Rightarrow> \<not> cn_socket s \<and> cn_closes s = (if v = Ok () then 0 else 1)
      | None \<Rightarrow>
          (if c \<in> set (rp_early p @ rp_late p) then \<not> cn_socket s \<and> cn_closes s = 1
           else cn_socket s \<and> cn_closes s = 0 \<and> (rp_logged p c \<longrightarrow> c \<in> set (rp_queue p))))"

lemma map_of_None_fst: "c \<notin> fst ` set xs \<Longrightarrow> map_of xs c = None"
  by (simp add: map_of_eq_None_iff)

lemma tcp_accounted: "tcp_pool.request_fate p c j s \<Longrightarrow> connect_accounted p c s"
  by (auto simp: tcp_pool.request_fate_def connect_accounted_def tcp_pool.logged_map_of cn_phases tcp_outcome_def map_of_None_fst
      split: if_splits option.splits)

lemma uds_accounted: "uds_pool.request_fate p c j s \<Longrightarrow> connect_accounted p c s"
  by (auto simp: uds_pool.request_fate_def connect_accounted_def uds_pool.logged_map_of cn_phases uds_outcome_def map_of_None_fst
      split: if_splits option.splits)


text \<open>Four attempts: one succeeds, one is refused, one is cancelled before its callback and one after it.\<close>

definition connect_traffic :: "(unit, uv_status) req_event list" where
  "connect_traffic = [ReqSubmit (), ReqSubmit (), ReqSubmit (), ReqSubmit (), ReqCallback 3 0, ReqCallback 1 (-111), ReqDrop 2,
     ReqDrop 3, ReqCallback 0 0, ReqCallback 2 UV_ECANCELED, ReqTurn, ReqTurn]"


text \<open>The same for Unix sockets.\<close>

lemma uds_connects_answered:
  assumes "guarded_run (rp_step uds_requests) (rp_guard uds_requests (\<lambda>st. True)) es rp_start"
  shows "\<exists>p. res_run (rp_step uds_requests) es rp_start = (p, Ok ()) \<and>
    (\<exists>rest. rp_answers (\<lambda>u. uds_outcome) p = rp_results p @ rest \<and> map fst rest = rp_queue p) \<and>
    (\<forall>c < rp_next p. \<exists>s. rp_req p c = Some ((), s) \<and> connect_accounted p c s)"
proof -
  obtain p where p: "res_run (rp_step uds_requests) es rp_start = (p, Ok ())"
    "\<exists>rest. rp_answers (\<lambda>u. uds_outcome) p = rp_results p @ rest \<and> map fst rest = rp_queue p"
    "\<forall>c < rp_next p. \<exists>j s. rp_req p c = Some (j, s) \<and> uds_pool.request_fate p c j s"
    using uds_pool.requests_answered [OF assms] by blast
  then show ?thesis using uds_accounted by fastforce
qed

text \<open>An attempt that \<open>uv_tcp_init\<close> refuses closes the socket and frees the request on its way out.\<close>

lemma tcp_init_refused:
  assumes "initStatus < 0"
  shows "\<exists>s. TcpClient_connect_start h initStatus connectStatus l = (s, Exn (tcp_init_error initStatus)) \<and> settled 1 s"
  using assms by (simp add: connect_defs tcp_defs settled_def Let_def)

text \<open>A Unix socket whose attempt libuv refuses is closed exactly once.\<close>

lemma uds_refused:
  "st \<noteq> 0 \<Longrightarrow> \<exists>s. UnixStreamClient_connect_start h st l = (s, Exn (uds_connect_error st)) \<and> cn_closes s = 1 \<and> \<not> cn_socket s"
  by (simp add: connect_defs uds_defs Let_def)

text \<open>
  A TCP attempt that \<open>uv_tcp_connect\<close> refuses closes the socket, but its request was released to
  a callback that does not come: it is never freed.
\<close>

lemma tcp_refused_leaks_request:
  assumes "0 \<le> initStatus" "connectStatus < 0"
  shows "\<exists>s. TcpClient_connect_start h initStatus connectStatus l = (s, Exn (tcp_connect_error connectStatus)) \<and>
    cn_closes s = 1 \<and> cn_freed s = 0 \<and> \<not> cn_req s \<and> \<not> cn_outstanding s"
  using assms by (simp add: connect_defs tcp_defs Let_def)

text \<open>
  Moving a client that was given an address loses the address: the moved client resolves the
  empty host name, port 0. Move assignment keeps the target's old address.
\<close>

theorem tcp_move_loses_address:
  "TcpClient_address gai (TcpClient_new_address a) = Ok a \<and>
   TcpClient_address gai (TcpClient_move (TcpClient_new_address a)) = gai [] 0 0 \<and>
   TcpClient_address gai (TcpClient_move_assign (TcpClient_new_address a) (TcpClient_new_address b)) = Ok a"
  by (simp add: TcpClient_address_def TcpClient_new_address_def TcpClient_move_def TcpClient_move_assign_def)

text \<open>
  The name of an open TCP stream is the address libuv reports; when libuv reports none, its status is
  lost, and the zeroed storage makes an exception about the address family.
\<close>

lemma tcp_stream_names:
  assumes "sb_stream s"
  shows "TcpStream_getPeerName (Some (AddressHandle_sockaddr a)) s = Ok a \<and>
    TcpStream_getSockName (Some (AddressHandle_sockaddr a)) s = Ok a \<and>
    TcpStream_getPeerName None s = AddressHandle_of_sockaddr (RawOther AF_UNSPEC) \<and>
    (\<exists>e. TcpStream_getPeerName None s = Exn e)"
  using assms
  by (cases a) (simp_all add: TcpStream_getPeerName_def TcpStream_getSockName_def TcpStream_name_def AddressHandle_of_sockaddr_def)

text \<open>
  \<open>noDelay(true)\<close> asks libuv for \<open>TCP_NODELAY\<close>, which switches Nagle's algorithm off. A closed stream has no
  options and no name: each of the operations stops the program.
\<close>

lemma closed_stream_operations:
  assumes "sb_stream s"
  shows "TcpStream_noDelay True s = Ok (OptNoDelay 1) \<and>
    (\<exists>m. TcpStream_noDelay b (fst (StreamBase_close s)) = Abort m) \<and>
    (\<exists>m. TcpStream_keepAlive b d (fst (StreamBase_close s)) = Abort m) \<and>
    (\<exists>m. TcpStream_getPeerName f (fst (StreamBase_close s)) = Abort m) \<and>
    (\<exists>m. UnixStream_getPeerName g (fst (StreamBase_close s)) = Abort m)"
  using assms
  by (simp add: TcpStream_noDelay_def TcpStream_keepAlive_def TcpStream_getPeerName_def TcpStream_name_def
      UnixStream_getPeerName_def StreamBase_close_def StreamBase_stream_def)

text \<open>
  The two ends of a pipe are the descriptors libuv made, the reading end first. When libuv could make none,
  both streams are opened on descriptor 0, the standard input.
\<close>

lemma pipe_ends:
  "map_prod snd snd (uvco_pipe (Some (rd, wr))) = (rd, wr)" "map_prod snd snd (uvco_pipe None) = (0, 0)"
  by (simp_all add: uvco_pipe_def Let_def)

end
