(* ===== verification/Udp_Socket.thy ===== *)
theory Udp_Socket
  imports Bounded_Queue Name_Resolution
begin

text \<open>
  \<open>src/uvco/udp.h\<close> and \<open>udp.cc\<close>: the class \<open>Udp\<close>.

  Of the libuv handle the model keeps whether the object still owns it, whether its data pointer
  refers to a receiving awaiter and whether receiving is started. The receive buffer is the
  \<open>BoundedQueue\<close> of the library. \<open>receiveMany()\<close> is a generator whose points are
  \<open>RmSuspended\<close> (in \<open>co_await awaiter\<close>), \<open>RmWoken\<close>, \<open>RmYielded\<close> (in \<open>co_yield\<close>) and its ends; the
  awaiter and the point are part of the state of the receiving socket.
\<close>

section \<open>State\<close>

datatype udp_item = UdpPacket string address_handle | UdpStatus uv_status

record recv_awaiter =
  ra_buffer :: "udp_item bqueue"
  ra_handle :: handle
  ra_stop :: bool

datatype rm_point = RmSuspended | RmWoken | RmYielded | RmDone | RmThrown exn | RmDropped

record udp =
  ud_udp :: bool
  ud_connected :: bool
  ud_data :: bool
  ud_receiving :: bool
  ud_awaiter :: recv_awaiter
  ud_point :: rm_point
  ud_loop :: loop
  ud_out :: "(string \<times> address_handle) list"
  ud_accepted :: "udp_item list"

definition packetQueueSize :: nat where
  "packetQueueSize = 128"

definition RecvAwaiter_new :: "nat \<Rightarrow> bool \<Rightarrow> recv_awaiter" where
  "RecvAwaiter_new queueSize stop_receiving =
     \<lparr>ra_buffer = BoundedQueue_new (\<lambda>n. n) queueSize, ra_handle = None, ra_stop = stop_receiving\<rparr>"

definition Udp_new :: udp where
  "Udp_new = \<lparr>ud_udp = True, ud_connected = False, ud_data = False, ud_receiving = False,
     ud_awaiter = RecvAwaiter_new packetQueueSize False, ud_point = RmDropped, ud_loop = Loop_init,
     ud_out = [], ud_accepted = []\<rparr>"

fun rm_over :: "rm_point \<Rightarrow> bool" where
  "rm_over RmDone = True"
| "rm_over (RmThrown e) = True"
| "rm_over RmDropped = True"
| "rm_over p = False"

definition recv_handle :: coro where
  "recv_handle = 0"

section \<open>Small operations\<close>

definition Udp_udpStopReceive :: "udp \<Rightarrow> udp \<times> unit res" where
  "Udp_udpStopReceive s = (if ud_udp s then (s\<lparr>ud_receiving := False\<rparr>, Ok ()) else (s, Abort ''udp_''))"

definition Udp_udpStartReceive :: "uv_status \<Rightarrow> udp \<Rightarrow> udp \<times> uv_status res" where
  "Udp_udpStartReceive status s =
     (if ud_udp s then (s\<lparr>ud_receiving := (status = 0 \<or> ud_receiving s)\<rparr>, Ok status) else (s, Abort ''udp_''))"

definition udp_closeHandle :: "udp \<Rightarrow> udp" where
  "udp_closeHandle s = s\<lparr>ud_udp := False, ud_data := False, ud_receiving := False\<rparr>"

definition Udp_destroy :: "udp \<Rightarrow> udp \<times> unit res" where
  "Udp_destroy s =
     (if ud_udp s then rbind (Udp_udpStopReceive s) (\<lambda>s1 u. (udp_closeHandle s1, Ok ())) else (s, Ok ()))"

definition udp_check :: "uv_status \<Rightarrow> string \<Rightarrow> unit res" where
  "udp_check status message = (if status \<noteq> 0 then Exn (UvcoStatus status message) else Ok ())"

definition Udp_setBroadcast :: "uv_status \<Rightarrow> unit res" where
  "Udp_setBroadcast status = udp_check status ''join multicast group''"

definition Udp_setTtl :: "uv_status \<Rightarrow> unit res" where
  "Udp_setTtl status = udp_check status ''join multicast group''"

definition Udp_setMulticastInterface :: "uv_status \<Rightarrow> unit res" where
  "Udp_setMulticastInterface status = udp_check status ''join multicast group''"

definition Udp_setMulticastLoop :: "uv_status \<Rightarrow> unit res" where
  "Udp_setMulticastLoop status = udp_check status ''join multicast group''"

definition Udp_joinMulticast :: "uv_status \<Rightarrow> unit res" where
  "Udp_joinMulticast status = udp_check status ''join multicast group''"

definition Udp_leaveMulticast :: "uv_status \<Rightarrow> unit res" where
  "Udp_leaveMulticast status = udp_check status ''join multicast group''"

definition Udp_getSockname :: "uv_status \<Rightarrow> raw_sockaddr \<Rightarrow> address_handle res" where
  "Udp_getSockname status sa =
     (if status < 0 then Exn (UvcoStatus status ''Error in getsockname'') else AddressHandle_of_sockaddr sa)"

definition Udp_getPeername :: "uv_status \<Rightarrow> raw_sockaddr \<Rightarrow> address_handle option res" where
  "Udp_getPeername status sa =
     (if status < 0 then (if status = UV_ENOTCONN then Ok None
                          else Exn (UvcoStatus status ''Error in getpeername''))
      else map_res Some (AddressHandle_of_sockaddr sa))"

text \<open>The address family that \<open>bind\<close> and \<open>connect\<close> ask the resolver for.\<close>

definition UV_UDP_IPV6ONLY :: u32 where
  "UV_UDP_IPV6ONLY = 1"

unbundle bit_operations_syntax

definition Udp_bind_hint :: "u32 \<Rightarrow> int" where
  "Udp_bind_hint flag = (if flag AND UV_UDP_IPV6ONLY \<noteq> 0 then AF_INET6 else 0)"

definition Udp_connect_hint :: "bool \<Rightarrow> int" where
  "Udp_connect_hint ipv6only = (if ipv6only then AF_INET6 else AF_UNSPEC)"

section \<open>Receiving\<close>

definition recv_error :: "uv_status \<Rightarrow> exn" where
  "recv_error st = UvcoStatus st ''Udp::RecvAwaiter_::await_resume: error during recv''"

definition RecvAwaiter_await_ready :: "recv_awaiter \<Rightarrow> bool" where
  "RecvAwaiter_await_ready a \<longleftrightarrow> \<not> BoundedQueue_empty (ra_buffer a)"

definition RecvAwaiter_await_suspend :: "coro \<Rightarrow> udp \<Rightarrow> udp \<times> unit res" where
  "RecvAwaiter_await_suspend h s =
     (if ud_data s then (s, Abort ''dataIsNull(&udp_)'')
      else if ra_handle (ud_awaiter s) \<noteq> None then (s\<lparr>ud_data := True\<rparr>, Abort ''!handle_'')
      else (s\<lparr>ud_data := True, ud_awaiter := (ud_awaiter s)\<lparr>ra_handle := Some h\<rparr>\<rparr>, Ok ()))"

definition RecvAwaiter_await_resume :: "udp \<Rightarrow> udp \<times> (string \<times> address_handle) option res" where
  "RecvAwaiter_await_resume s = (let s1 = s\<lparr>ud_data := False\<rparr> in
     if BoundedQueue_empty (ra_buffer (ud_awaiter s1)) then (s1, Ok None)
     else (case BoundedQueue_get (ra_buffer (ud_awaiter s1)) of (q, r) \<Rightarrow>
             (let s2 = s1\<lparr>ud_awaiter := (ud_awaiter s1)\<lparr>ra_buffer := q\<rparr>\<rparr>
              in case r of
                   Ok item \<Rightarrow> (case item of
                       UdpStatus st \<Rightarrow> (s2, Exn (recv_error st))
                     | UdpPacket p a \<Rightarrow> (s2, Ok (Some (p, a))))
                 | Exn e \<Rightarrow> (s2, Exn e)
                 | Abort m \<Rightarrow> (s2, Abort m))))"

text \<open>\<open>onReceiveOne\<close>: \<open>addr\<close> is null when libuv reports an error or wants its buffer back.\<close>

definition Udp_onReceiveOne :: "int \<Rightarrow> string \<Rightarrow> address_handle option \<Rightarrow> udp \<Rightarrow> udp \<times> unit res" where
  "Udp_onReceiveOne nread bytes addr s =
     (if \<not> ud_data s then (s\<lparr>ud_receiving := False\<rparr>, Ok ())
      else case addr of
        None \<Rightarrow> (s, Ok ())
      | Some a \<Rightarrow>
          (let s1 = (if ra_stop (ud_awaiter s) then s\<lparr>ud_receiving := False\<rparr> else s);
               item = (if 0 \<le> nread then UdpPacket (take (nat nread) bytes) a else UdpStatus nread);
               put = (if BoundedQueue_hasSpace (ra_buffer (ud_awaiter s1))
                      then (case BoundedQueue_put item (ra_buffer (ud_awaiter s1)) of (q, r) \<Rightarrow>
                              (s1\<lparr>ud_awaiter := (ud_awaiter s1)\<lparr>ra_buffer := q\<rparr>,
                                  ud_accepted := ud_accepted s1 @ [item]\<rparr>, r))
                      else (s1, Ok ()))
           in rbind put (\<lambda>s2 u.
                case ra_handle (ud_awaiter s2) of
                  None \<Rightarrow> (s2, Ok ())
                | Some h \<Rightarrow> (s2\<lparr>ud_awaiter := (ud_awaiter s2)\<lparr>ra_handle := None\<rparr>,
                                ud_loop := Loop_enqueue (Some h) (ud_loop s2), ud_point := RmWoken\<rparr>, Ok ()))))"

text \<open>What the same callback does with its buffer; \<open>chunk\<close> is the flag \<open>UV_UDP_MMSG_CHUNK\<close>.\<close>

definition Udp_onReceiveOne_buffer :: "bool \<Rightarrow> bool \<Rightarrow> address_handle option \<Rightarrow> nat option \<Rightarrow> nat set \<Rightarrow> nat set" where
  "Udp_onReceiveOne_buffer data chunk addr buf live =
     (if \<not> data then freeUvBuf buf live
      else case addr of
        None \<Rightarrow> (if \<not> chunk then freeUvBuf buf live else live)
      | Some a \<Rightarrow> (if \<not> chunk then freeUvBuf buf live else live))"

section \<open>receiveMany\<close>

text \<open>Leaving the generator: the \<open>OnExit\<close> guard.\<close>

definition rm_exit :: "rm_point \<Rightarrow> udp \<Rightarrow> udp \<times> unit res" where
  "rm_exit p s =
     (if ud_udp s then rbind (Udp_udpStopReceive s) (\<lambda>s1 u. (s1\<lparr>ud_data := False, ud_point := p\<rparr>, Ok ()))
      else (s\<lparr>ud_point := p\<rparr>, Ok ()))"

definition rm_resumed :: "udp \<Rightarrow> udp \<times> unit res" where
  "rm_resumed s = (case RecvAwaiter_await_resume s of (s1, r) \<Rightarrow>
     (case r of
        Ok None \<Rightarrow> rm_exit RmDone s1
      | Ok (Some p) \<Rightarrow> (s1\<lparr>ud_out := ud_out s1 @ [p], ud_point := RmYielded\<rparr>, Ok ())
      | Exn e \<Rightarrow> rm_exit (RmThrown e) s1
      | Abort m \<Rightarrow> (s1, Abort m)))"

text \<open>
  The head of the loop: \<open>uv_is_active\<close> holds while the socket receives or has sends under way
  (\<open>sending\<close>); it must not be called on a null handle.
\<close>

definition rm_loop :: "bool \<Rightarrow> udp \<Rightarrow> udp \<times> unit res" where
  "rm_loop sending s =
     (if \<not> ud_udp s then (s, Abort ''uv_is_active(nullptr)'')
      else if ud_receiving s \<or> sending
        then (if RecvAwaiter_await_ready (ud_awaiter s) then rm_resumed s
              else rbind (RecvAwaiter_await_suspend recv_handle s) (\<lambda>s1 u. (s1\<lparr>ud_point := RmSuspended\<rparr>, Ok ())))
      else rm_exit RmDone s)"

definition receive_many_error :: "uv_status \<Rightarrow> exn" where
  "receive_many_error st = UvcoStatus st ''receiveMany(): uv_udp_recv_start()''"

definition Udp_receiveMany :: "uv_status \<Rightarrow> udp \<Rightarrow> udp \<times> unit res" where
  "Udp_receiveMany status s =
     (if \<not> ud_udp s then (s, Abort ''handle != nullptr'')
      else if ud_data s then (s, Abort ''only one coroutine can receive from UDP socket at a time'')
      else rbind (Udp_udpStartReceive status
                    (s\<lparr>ud_awaiter := RecvAwaiter_new packetQueueSize False, ud_out := [], ud_accepted := []\<rparr>))
             (\<lambda>s1 st. if st \<noteq> 0 then rm_exit (RmThrown (receive_many_error st)) s1 else rm_loop False s1))"

section \<open>receiveOneFrom\<close>

definition receive_one_error :: "uv_status \<Rightarrow> exn" where
  "receive_one_error st = UvcoStatus st ''uv_udp_recv_start()''"

text \<open>Its \<open>OnExit\<close> guard resets the data pointer without a null check.\<close>

definition Udp_receiveOne_exit :: "udp \<Rightarrow> udp \<times> unit res" where
  "Udp_receiveOne_exit s = (if ud_udp s then (s\<lparr>ud_data := False\<rparr>, Ok ()) else (s, Abort ''handle != nullptr''))"

definition Udp_receiveOneFrom_start :: "coro \<Rightarrow> uv_status \<Rightarrow> udp \<Rightarrow> udp \<times> unit res" where
  "Udp_receiveOneFrom_start h status s =
     (if \<not> ud_udp s then (s, Abort ''handle != nullptr'')
      else if ud_data s then (s, Abort ''only one coroutine can receive from UDP socket at a time'')
      else rbind (Udp_udpStartReceive status (s\<lparr>ud_awaiter := RecvAwaiter_new 1 True\<rparr>)) (\<lambda>s1 st.
             if st \<noteq> 0 then rbind (Udp_receiveOne_exit s1) (\<lambda>s2 u. (s2, Exn (receive_one_error st)))
             else RecvAwaiter_await_suspend h s1))"

definition Udp_receiveOneFrom_end :: "udp \<Rightarrow> udp \<times> (string \<times> address_handle) res" where
  "Udp_receiveOneFrom_end s = (case RecvAwaiter_await_resume s of (s1, r) \<Rightarrow>
     (case r of
        Abort m \<Rightarrow> (s1, Abort m)
      | Exn e \<Rightarrow> rbind (Udp_receiveOne_exit s1) (\<lambda>s2 u. (s2, Exn e))
      | Ok None \<Rightarrow> rbind (Udp_receiveOne_exit s1) (\<lambda>s2 u. (s2, Exn (StdException ''bad optional access'')))
      | Ok (Some p) \<Rightarrow> rbind (Udp_receiveOne_exit s1) (\<lambda>s2 u. (s2, Ok p))))"

definition Udp_receiveOne_end :: "udp \<Rightarrow> udp \<times> string res" where
  "Udp_receiveOne_end s = (case Udp_receiveOneFrom_end s of (s1, r) \<Rightarrow> (s1, map_res fst r))"

section \<open>Closing, binding, connecting\<close>

text \<open>
  \<open>close()\<close>: an awaiter that waits is resumed on the spot; \<open>resume\<close> is what it does then.
\<close>

definition Udp_close_with :: "(udp \<Rightarrow> udp \<times> unit res) \<Rightarrow> udp \<Rightarrow> udp \<times> unit res" where
  "Udp_close_with resume s =
     (if \<not> ud_udp s then (s, Ok ())
      else rbind
        (if ud_data s
         then (case BoundedQueue_put (UdpStatus UV_ECANCELED) (ra_buffer (ud_awaiter s)) of (q, r) \<Rightarrow>
                 rbind (s\<lparr>ud_awaiter := (ud_awaiter s)\<lparr>ra_buffer := q\<rparr>\<rparr>, r) (\<lambda>s1 u.
                   case ra_handle (ud_awaiter s1) of
                     None \<Rightarrow> (s1, Ok ())
                   | Some h \<Rightarrow> resume (s1\<lparr>ud_awaiter := (ud_awaiter s1)\<lparr>ra_handle := None\<rparr>\<rparr>)))
         else (s, Ok ()))
        (\<lambda>s2 u. ((udp_closeHandle s2)\<lparr>ud_connected := False\<rparr>, Ok ())))"

definition Udp_close :: "udp \<Rightarrow> udp \<times> unit res" where
  "Udp_close s = Udp_close_with rm_resumed s"

definition bind_error :: "uv_status \<Rightarrow> exn" where
  "bind_error st = UvcoStatus st ''binding UDP socket''"

definition Udp_bind :: "uv_status \<Rightarrow> udp \<Rightarrow> udp \<times> unit res" where
  "Udp_bind status s =
     (if status \<noteq> 0 then rbind (Udp_close s) (\<lambda>s1 u. (s1, Exn (bind_error status))) else (s, Ok ()))"

definition udp_connect_error :: "uv_status \<Rightarrow> exn" where
  "udp_connect_error st = UvcoStatus st ''connecting UDP socket''"

definition Udp_connect :: "uv_status \<Rightarrow> udp \<Rightarrow> udp \<times> unit res" where
  "Udp_connect status s =
     (if status \<noteq> 0 then rbind (Udp_close s) (\<lambda>s1 u. (s1, Exn (udp_connect_error status)))
      else (s\<lparr>ud_connected := True\<rparr>, Ok ()))"

text \<open>The overloads that resolve a name first; \<open>gai\<close> is the resolver's outcome for a family hint.\<close>

definition Udp_bind_name :: "(int \<Rightarrow> address_handle res) \<Rightarrow> (address_handle \<Rightarrow> uv_status) \<Rightarrow> u32 \<Rightarrow> udp \<Rightarrow> udp \<times> unit res" where
  "Udp_bind_name gai uv_udp_bind flag s =
     rbind (s, gai (Udp_bind_hint flag)) (\<lambda>s1 a. Udp_bind (uv_udp_bind a) s1)"

definition Udp_connect_name :: "(int \<Rightarrow> address_handle res) \<Rightarrow> (address_handle \<Rightarrow> uv_status) \<Rightarrow> bool \<Rightarrow> udp \<Rightarrow> udp \<times> unit res" where
  "Udp_connect_name gai uv_udp_connect ipv6only s =
     rbind (s, gai (Udp_connect_hint ipv6only)) (\<lambda>s1 a. Udp_connect (uv_udp_connect a) s1)"

definition Udp_stopReceiveMany :: "udp \<Rightarrow> udp \<times> unit res" where
  "Udp_stopReceiveMany s = rbind (Udp_udpStopReceive s) (\<lambda>s1 u.
     if rm_over (ud_point s1) then (s1, Ok ())
     else rm_exit RmDropped (s1\<lparr>ud_loop := Loop_cancel recv_handle (ud_loop s1)\<rparr>))"

section \<open>Sending\<close>

text \<open>
  The request and the awaiter live in the frame of \<open>send()\<close>; \<open>sn_frame\<close> says that the frame still
  exists.
\<close>

record send_state =
  sn_frame :: bool
  sn_data :: bool
  sn_handle :: handle
  sn_status :: "uv_status option"
  sn_loop :: loop

definition send_start_error :: "uv_status \<Rightarrow> exn" where
  "send_start_error st = UvcoStatus st ''uv_udp_send() failed immediately''"

definition send_done_error :: "uv_status \<Rightarrow> exn" where
  "send_done_error st = UvcoStatus st ''uv_udp_send() failed while sending''"

definition SendAwaiter_await_ready :: "send_state \<Rightarrow> bool" where
  "SendAwaiter_await_ready s \<longleftrightarrow> sn_status s \<noteq> None"

definition SendAwaiter_await_suspend :: "coro \<Rightarrow> send_state \<Rightarrow> send_state \<times> unit res" where
  "SendAwaiter_await_suspend h s = (let s1 = s\<lparr>sn_data := True\<rparr> in
     if sn_handle s1 \<noteq> None then (s1, Abort ''!handle_'') else (s1\<lparr>sn_handle := Some h\<rparr>, Ok ()))"

definition Udp_send_start :: "coro \<Rightarrow> uv_status \<Rightarrow> loop \<Rightarrow> send_state \<times> unit res" where
  "Udp_send_start h status l =
     (let s = \<lparr>sn_frame = True, sn_data = False, sn_handle = None, sn_status = None, sn_loop = l\<rparr>
      in if status \<noteq> 0 then (s\<lparr>sn_frame := False\<rparr>, Exn (send_start_error status))
         else SendAwaiter_await_suspend h s)"

definition Udp_onSendDone :: "uv_status \<Rightarrow> send_state \<Rightarrow> send_state \<times> unit res" where
  "Udp_onSendDone status s =
     (if \<not> sn_frame s then (s, Abort ''use of a freed request'')
      else if \<not> sn_data s then (s, Ok ())
      else let s1 = s\<lparr>sn_status := Some status\<rparr>
           in case sn_handle s1 of
                None \<Rightarrow> (s1, Ok ())
              | Some h \<Rightarrow> (s1\<lparr>sn_handle := None, sn_loop := Loop_enqueue (Some h) (sn_loop s1)\<rparr>, Ok ()))"

definition SendAwaiter_await_resume :: "send_state \<Rightarrow> uv_status res" where
  "SendAwaiter_await_resume s = (case sn_status s of None \<Rightarrow> Abort ''status_'' | Some st \<Rightarrow> Ok st)"

text \<open>The awaiter's destructor and the end of the frame.\<close>

definition Udp_send_leave :: "send_state \<Rightarrow> send_state" where
  "Udp_send_leave s = s\<lparr>sn_data := False, sn_frame := False\<rparr>"

definition Udp_send_end :: "send_state \<Rightarrow> send_state \<times> unit res" where
  "Udp_send_end s = (case SendAwaiter_await_resume s of
     Ok st \<Rightarrow> (Udp_send_leave s, if st \<noteq> 0 then Exn (send_done_error st) else Ok ())
   | Exn e \<Rightarrow> (Udp_send_leave s, Exn e)
   | Abort m \<Rightarrow> (s, Abort m))"

section \<open>receiveMany among events\<close>

text \<open>
  \<open>RmCall\<close> starts a generator when there is none. libuv delivers packets while receiving is
  started; \<open>RmNext\<close> is a consumer that awaits the generator.
\<close>

datatype rm_event =
    RmCall uv_status | RmPacket int string "address_handle option" | RmTurn | RmNext bool | RmClose | RmStop

definition rm_fin :: "udp \<Rightarrow> coro \<Rightarrow> bool" where
  "rm_fin s c = rm_over (ud_point s)"

definition rm_step :: "rm_event \<Rightarrow> udp \<Rightarrow> udp \<times> unit res" where
  "rm_step ev s = (case ev of
     RmCall st \<Rightarrow> (if rm_over (ud_point s) then Udp_receiveMany st s else (s, Ok ()))
   | RmPacket nread bytes addr \<Rightarrow>
       (if ud_udp s \<and> ud_receiving s then Udp_onReceiveOne nread bytes addr s else (s, Ok ()))
   | RmTurn \<Rightarrow>
       (case Loop_getNext (rm_fin s) (ud_loop s) of (l, t) \<Rightarrow>
          (case t of
             noop_coroutine \<Rightarrow> (s\<lparr>ud_loop := l\<rparr>, Ok ())
           | Coro c \<Rightarrow> (if ud_point s = RmWoken then rm_resumed (s\<lparr>ud_loop := l\<rparr>)
                         else (s, Abort ''resume of a coroutine that is not suspended''))))
   | RmNext sending \<Rightarrow> (if ud_point s = RmYielded then rm_loop sending s else (s, Ok ()))
   | RmClose \<Rightarrow> Udp_close s
   | RmStop \<Rightarrow> Udp_stopReceiveMany s)"

abbreviation rm_run :: "rm_event list \<Rightarrow> udp \<Rightarrow> udp \<times> unit res" where
  "rm_run \<equiv> res_run rm_step"

text \<open>
  What the code needs of its environment: packets arrive only while the generator waits or is
  woken, not while it is suspended in \<open>co_yield\<close>; the generator is not awaited after \<open>close()\<close>;
  no call on a closed socket; no \<open>close()\<close> while the buffer is full.
\<close>

definition rm_polite :: "rm_event \<Rightarrow> udp \<Rightarrow> bool" where
  "rm_polite ev s = (case ev of
     RmCall st \<Rightarrow> ud_udp s
   | RmPacket nread bytes addr \<Rightarrow> ud_point s \<noteq> RmYielded
   | RmTurn \<Rightarrow> True
   | RmNext sending \<Rightarrow> ud_udp s
   | RmClose \<Rightarrow> ud_data s \<longrightarrow> BoundedQueue_hasSpace (ra_buffer (ud_awaiter s))
   | RmStop \<Rightarrow> ud_udp s)"

abbreviation rm_polite_run :: "rm_event list \<Rightarrow> udp \<Rightarrow> bool" where
  "rm_polite_run \<equiv> guarded_run rm_step rm_polite"

section \<open>The invariant\<close>

definition packets :: "(string \<times> address_handle) list \<Rightarrow> udp_item list" where
  "packets ps = map (\<lambda>(p, a). UdpPacket p a) ps"

definition rm_inv :: "udp \<Rightarrow> bool" where
  "rm_inv s \<longleftrightarrow> (let a = ud_awaiter s; p = ud_point s; q = bq_list (ra_buffer a) in
     bq_inv (ra_buffer a) \<and> bq_reserved (ra_buffer a) = packetQueueSize \<and>
     (ud_data s \<longleftrightarrow> ud_udp s \<and> (p = RmSuspended \<or> p = RmWoken)) \<and>
     (ud_receiving s \<longrightarrow> ud_udp s \<and> \<not> rm_over p) \<and>
     loop_pending (\<lambda>c. False) (ud_loop s) = (if p = RmWoken then [recv_handle] else []) \<and>
     (p = RmSuspended \<longrightarrow> ud_udp s \<and> q = []) \<and> (p = RmWoken \<longrightarrow> q \<noteq> []) \<and>
     \<not> ra_stop a \<and>
     (\<not> rm_over p \<longrightarrow> ra_handle a = (if p = RmSuspended then Some recv_handle else None)) \<and>
     (\<exists>rest. ud_accepted s = packets (ud_out s) @ rest \<and>
        (\<not> rm_over p \<longrightarrow> rest = q \<or> (\<not> ud_udp s \<and> q = rest @ [UdpStatus UV_ECANCELED]))))"

section \<open>Lemmas\<close>

lemma rm_fin_live: "\<not> rm_over (ud_point s) \<Longrightarrow> rm_fin s = (\<lambda>c. False)"
  by (auto simp: rm_fin_def)

lemma rm_fin_over: "rm_over (ud_point s) \<Longrightarrow> rm_fin s = (\<lambda>c. True)"
  by (auto simp: rm_fin_def)

lemma packets_snoc [simp]: "packets (ps @ [(p, a)]) = packets ps @ [UdpPacket p a]"
  by (simp add: packets_def)

text \<open>The generator resumes with something in its buffer.\<close>

lemma rm_resumed_inv:
  assumes q: "bq_inv (ra_buffer (ud_awaiter s))" "bq_reserved (ra_buffer (ud_awaiter s)) = packetQueueSize"
      "bq_list (ra_buffer (ud_awaiter s)) = x # xs"
    and "ud_receiving s \<longrightarrow> ud_udp s" "loop_pending (\<lambda>c. False) (ud_loop s) = []" "\<not> ra_stop (ud_awaiter s)"
      "ra_handle (ud_awaiter s) = None"
    and "ud_accepted s = packets (ud_out s) @ rest" "rest = x # xs \<or> (\<not> ud_udp s \<and> x # xs = rest @ [UdpStatus UV_ECANCELED]) \<or> (rest = [] \<and> x = UdpStatus UV_ECANCELED)"
  shows "\<exists>s'. rm_resumed s = (s', Ok ()) \<and> rm_inv s' \<and> ud_udp s' = ud_udp s \<and> ud_accepted s' = ud_accepted s \<and>
    (case x of UdpPacket p a \<Rightarrow> ud_point s' = RmYielded \<and> ud_out s' = ud_out s @ [(p, a)]
     | UdpStatus st \<Rightarrow> ud_point s' = RmThrown (recv_error st) \<and> ud_out s' = ud_out s)"
proof -
  from bq.get_some [OF q(1,3)] obtain q' where q': "BoundedQueue_get (ra_buffer (ud_awaiter s)) = (q', Ok x)"
    "bq_inv q'" "bq_list q' = xs" "bq_reserved q' = packetQueueSize" using q(2) by auto
  have ne: "\<not> BoundedQueue_empty (ra_buffer (ud_awaiter s))" using q(3) by (simp add: bq_empty_iff)
  show ?thesis
  proof (cases x)
    case (UdpPacket p a)
    have "rest = x # xs \<or> (\<not> ud_udp s \<and> x # xs = rest @ [UdpStatus UV_ECANCELED])" using assms(9) UdpPacket by auto
    then consider "rest = x # xs" | ys where "rest = x # ys" "xs = ys @ [UdpStatus UV_ECANCELED]" "\<not> ud_udp s"
      using UdpPacket by (cases rest) auto
    with UdpPacket q' ne assms(4-8) show ?thesis
      by cases (auto simp: rm_resumed_def RecvAwaiter_await_resume_def rm_inv_def Let_def)
  next
    case (UdpStatus st)
    with q' ne assms(4-8) show ?thesis
      by (auto simp: rm_resumed_def RecvAwaiter_await_resume_def rm_exit_def Udp_udpStopReceive_def rm_inv_def Let_def)
  qed
qed

lemma rm_loop_inv:
  assumes "ud_udp s" "bq_inv (ra_buffer (ud_awaiter s))" "bq_reserved (ra_buffer (ud_awaiter s)) = packetQueueSize"
    and "\<not> ud_data s" "loop_pending (\<lambda>c. False) (ud_loop s) = []" "\<not> ra_stop (ud_awaiter s)" "ra_handle (ud_awaiter s) = None"
    and "ud_accepted s = packets (ud_out s) @ bq_list (ra_buffer (ud_awaiter s))"
  shows "\<exists>s'. rm_loop sending s = (s', Ok ()) \<and> rm_inv s'"
proof (cases "ud_receiving s \<or> sending")
  case False
  with assms show ?thesis
    by (auto simp: rm_loop_def rm_exit_def Udp_udpStopReceive_def rm_inv_def Let_def)
next
  case True
  show ?thesis
  proof (cases "bq_list (ra_buffer (ud_awaiter s))")
    case Nil
    with True assms show ?thesis
      by (auto simp: rm_loop_def RecvAwaiter_await_ready_def RecvAwaiter_await_suspend_def bq_empty_iff rm_inv_def Let_def)
  next
    case (Cons x xs)
    then have "\<not> BoundedQueue_empty (ra_buffer (ud_awaiter s))" by (simp add: bq_empty_iff)
    with True assms rm_resumed_inv [OF assms(2,3) Cons _ assms(5,6,7,8)] Cons show ?thesis
      by (auto simp: rm_loop_def RecvAwaiter_await_ready_def)
  qed
qed

lemma rm_call_inv:
  assumes "rm_inv s" "ud_udp s" "rm_over (ud_point s)"
  shows "\<exists>s'. Udp_receiveMany st s = (s', Ok ()) \<and> rm_inv s'"
proof -
  let ?s = "s\<lparr>ud_awaiter := RecvAwaiter_new packetQueueSize False, ud_out := [], ud_accepted := [], ud_receiving := True\<rparr>"
  have n: "bq_inv (BoundedQueue_new (\<lambda>n. n) packetQueueSize :: udp_item bqueue)"
    "bq_list (BoundedQueue_new (\<lambda>n. n) packetQueueSize :: udp_item bqueue) = []"
    using bq_new_inv [of "\<lambda>n. n" packetQueueSize] by (simp_all add: packetQueueSize_def)
  have r: "bq_reserved (BoundedQueue_new (\<lambda>n. n) packetQueueSize :: udp_item bqueue) = packetQueueSize"
    by (simp add: BoundedQueue_new_def)
  have d: "\<not> ud_data s" "loop_pending (\<lambda>c. False) (ud_loop s) = []" using assms by (auto simp: rm_inv_def Let_def)
  show ?thesis
  proof (cases "st = 0")
    case True
    have "\<exists>s'. rm_loop False ?s = (s', Ok ()) \<and> rm_inv s'"
      by (rule rm_loop_inv) (use assms(2) n r d in \<open>auto simp: RecvAwaiter_new_def packets_def\<close>)
    with True assms(2) d show ?thesis by (simp add: Udp_receiveMany_def Udp_udpStartReceive_def)
  next
    case False
    with assms(2) n r d show ?thesis
      by (auto simp: Udp_receiveMany_def Udp_udpStartReceive_def rm_exit_def Udp_udpStopReceive_def rm_inv_def
          RecvAwaiter_new_def packets_def Let_def)
  qed
qed

lemma rm_packet_inv:
  assumes "rm_inv s" "ud_point s \<noteq> RmYielded"
  shows "\<exists>s'. rm_step (RmPacket n bs ad) s = (s', Ok ()) \<and> rm_inv s'"
proof (cases "ud_udp s \<and> ud_receiving s \<and> ad \<noteq> None")
  case False
  have "ud_receiving s \<Longrightarrow> ud_udp s \<Longrightarrow> ud_data s"
    using assms by (cases "ud_point s") (auto simp: rm_inv_def Let_def)
  with False assms(1) show ?thesis by (auto simp: rm_step_def Udp_onReceiveOne_def split: option.splits)
next
  case True
  then obtain a where a: "ad = Some a" "ud_udp s" "ud_receiving s" by auto
  have d: "ud_data s" "ud_point s = RmSuspended \<or> ud_point s = RmWoken" using a assms
    by (cases "ud_point s"; auto simp: rm_inv_def Let_def)+
  let ?item = "if 0 \<le> n then UdpPacket (take (nat n) bs) a else UdpStatus n"
  let ?q = "ra_buffer (ud_awaiter s)"
  have q: "bq_inv ?q" "bq_reserved ?q = packetQueueSize" using assms(1) by (simp_all add: rm_inv_def Let_def)
  show ?thesis
  proof (cases "length (bq_list ?q) < bq_reserved ?q")
    case True
    from bq.put_space [OF q(1) True, of ?item] obtain q' where q': "BoundedQueue_put ?item ?q = (q', Ok ())" "bq_inv q'"
      "bq_list q' = bq_list ?q @ [?item]" "bq_reserved q' = packetQueueSize" using q(2) by auto
    have "BoundedQueue_hasSpace ?q" using True q(1) by (simp add: bq_hasSpace_iff)
    with a d assms(1) q' show ?thesis
      by (elim disjE) (auto simp: rm_step_def Udp_onReceiveOne_def rm_inv_def loop_pending_enqueue Let_def)
  next
    case False
    then have "\<not> BoundedQueue_hasSpace ?q" using q(1) by (simp add: bq_hasSpace_iff)
    moreover from False have "bq_list ?q \<noteq> []" using q(2) by (auto simp: packetQueueSize_def simp del: bq_length_list)
    ultimately show ?thesis using a d assms(1)
      by (elim disjE) (auto simp: rm_step_def Udp_onReceiveOne_def rm_inv_def Let_def)
  qed
qed

lemma rm_inv_loop:
  "rm_inv s \<Longrightarrow> loop_pending (\<lambda>c. False) l = loop_pending (\<lambda>c. False) (ud_loop s) \<Longrightarrow> rm_inv (s\<lparr>ud_loop := l\<rparr>)"
  by (simp add: rm_inv_def Let_def)

lemma rm_turn_inv:
  assumes "rm_inv s"
  shows "\<exists>s'. rm_step RmTurn s = (s', Ok ()) \<and> rm_inv s'"
proof (cases "ud_point s = RmWoken")
  case True
  then have f: "rm_fin s = (\<lambda>c. False)" by (simp add: rm_fin_live)
  have "loop_pending (\<lambda>c. False) (ud_loop s) = [recv_handle]" using assms True by (simp add: rm_inv_def Let_def)
  then obtain l where l: "Loop_getNext (\<lambda>c. False) (ud_loop s) = (l, Coro recv_handle)" "loop_pending (\<lambda>c. False) l = []"
    using event_loop.nxt_some by blast
  obtain x xs where x: "bq_list (ra_buffer (ud_awaiter s)) = x # xs"
    using assms True by (cases "bq_list (ra_buffer (ud_awaiter s))") (auto simp: rm_inv_def Let_def)
  obtain rest where rest: "ud_accepted s = packets (ud_out s) @ rest"
    "rest = x # xs \<or> (\<not> ud_udp s \<and> x # xs = rest @ [UdpStatus UV_ECANCELED])"
    using assms True x by (auto simp: rm_inv_def Let_def)
  let ?s = "s\<lparr>ud_loop := l\<rparr>"
  have "bq_inv (ra_buffer (ud_awaiter ?s))" "bq_reserved (ra_buffer (ud_awaiter ?s)) = packetQueueSize"
    "ud_receiving ?s \<longrightarrow> ud_udp ?s" "\<not> ra_stop (ud_awaiter ?s)" "ra_handle (ud_awaiter ?s) = None"
    using assms True by (simp_all add: rm_inv_def Let_def)
  from rm_resumed_inv [OF this(1,2) _ this(3) _ this(4,5), of x xs rest] x l rest obtain s' where
    "rm_resumed ?s = (s', Ok ())" "rm_inv s'" by auto
  with True l f show ?thesis by (simp add: rm_step_def)
next
  case False
  have "loop_pending (rm_fin s) (ud_loop s) = []"
    using assms False by (cases "rm_over (ud_point s)") (auto simp: rm_fin_over rm_fin_live loop_pending_fin rm_inv_def Let_def)
  then obtain l where l: "Loop_getNext (rm_fin s) (ud_loop s) = (l, noop_coroutine)" "resumable (loop_scheduler l) = []"
    by (cases rule: loop_getNext_cases [of "rm_fin s" "ud_loop s"]) auto
  then have "loop_pending (\<lambda>c. False) l = []" by (simp add: loop_pending_def sched_pending_def List.map_filter_simps)
  moreover have "loop_pending (\<lambda>c. False) (ud_loop s) = []" using assms False by (simp add: rm_inv_def Let_def)
  ultimately show ?thesis using rm_inv_loop [OF assms, of l] l by (simp add: rm_step_def)
qed

lemma rm_closed:
  assumes "rm_inv s" "ud_point s = RmYielded \<or> rm_over (ud_point s)"
  shows "rm_inv ((udp_closeHandle s)\<lparr>ud_connected := False\<rparr>)"
  using assms by (cases "ud_point s") (auto simp: rm_inv_def udp_closeHandle_def Let_def)

lemma rm_close_inv:
  assumes inv: "rm_inv s" and space: "ud_data s \<longrightarrow> BoundedQueue_hasSpace (ra_buffer (ud_awaiter s))"
  shows "\<exists>s'. Udp_close s = (s', Ok ()) \<and> rm_inv s' \<and> \<not> ud_udp s' \<and>
    (ud_point s = RmSuspended \<longrightarrow> ud_point s' = RmThrown (recv_error UV_ECANCELED))"
proof (cases "ud_udp s \<and> ud_data s")
  case False
  have "ud_point s = RmYielded \<or> rm_over (ud_point s)" if "ud_udp s" using inv that False by (cases "ud_point s") (auto simp: rm_inv_def Let_def)
  moreover have "ud_point s \<noteq> RmSuspended" using inv False by (auto simp: rm_inv_def Let_def)
  ultimately show ?thesis using False inv rm_closed [OF inv]
    by (auto simp: Udp_close_def Udp_close_with_def) (auto simp: udp_closeHandle_def)
next
  case True
  let ?q = "ra_buffer (ud_awaiter s)"
  have q: "bq_inv ?q" "length (bq_list ?q) < bq_reserved ?q" "bq_reserved ?q = packetQueueSize"
    using inv space True by (auto simp: rm_inv_def bq_hasSpace_iff Let_def simp del: bq_length_list)
  from bq.put_space [OF q(1,2), of "UdpStatus UV_ECANCELED"] q(3) obtain q' where q':
    "BoundedQueue_put (UdpStatus UV_ECANCELED) ?q = (q', Ok ())" "bq_inv q'"
    "bq_list q' = bq_list ?q @ [UdpStatus UV_ECANCELED]" "bq_reserved q' = packetQueueSize" by auto
  have "ud_point s = RmSuspended \<or> ud_point s = RmWoken" using inv True by (simp add: rm_inv_def Let_def)
  then show ?thesis
  proof
    assume p: "ud_point s = RmSuspended"
    let ?s = "s\<lparr>ud_awaiter := (ud_awaiter s)\<lparr>ra_buffer := q', ra_handle := None\<rparr>\<rparr>"
    have e: "bq_list ?q = []" "ra_handle (ud_awaiter s) = Some recv_handle" "ud_accepted s = packets (ud_out s)"
      using inv p True by (auto simp: rm_inv_def Let_def)
    have "bq_inv (ra_buffer (ud_awaiter ?s))" "bq_reserved (ra_buffer (ud_awaiter ?s)) = packetQueueSize"
      "bq_list (ra_buffer (ud_awaiter ?s)) = [UdpStatus UV_ECANCELED]"
      "ud_receiving ?s \<longrightarrow> ud_udp ?s" "loop_pending (\<lambda>c. False) (ud_loop ?s) = []"
      "\<not> ra_stop (ud_awaiter ?s)" "ra_handle (ud_awaiter ?s) = None" "ud_accepted ?s = packets (ud_out ?s) @ []"
      using inv p q' e by (simp_all add: rm_inv_def Let_def)
    from rm_resumed_inv [OF this] obtain s' where s': "rm_resumed ?s = (s', Ok ())" "rm_inv s'"
      "ud_point s' = RmThrown (recv_error UV_ECANCELED)" by auto
    moreover have "rm_inv ((udp_closeHandle s')\<lparr>ud_connected := False\<rparr>)" using s'(2,3) by (simp add: rm_closed)
    moreover have "Udp_close s = ((udp_closeHandle s')\<lparr>ud_connected := False\<rparr>, Ok ())"
      using True q'(1) e(2) s'(1) by (simp add: Udp_close_def Udp_close_with_def)
    ultimately show ?thesis by (simp add: udp_closeHandle_def)
  next
    assume p: "ud_point s = RmWoken"
    with True inv q' show ?thesis
      by (auto simp: Udp_close_def Udp_close_with_def udp_closeHandle_def rm_inv_def Let_def)
  qed
qed

lemma rm_stop_inv:
  assumes "rm_inv s" "ud_udp s"
  shows "\<exists>s'. Udp_stopReceiveMany s = (s', Ok ()) \<and> rm_inv s'"
proof -
  have "loop_pending (\<lambda>c. False) (Loop_cancel recv_handle (ud_loop s)) = []"
    using assms(1) by (simp add: loop_pending_cancel rm_inv_def Let_def)
  with assms show ?thesis
    by (cases "rm_over (ud_point s)")
       (auto simp: Udp_stopReceiveMany_def Udp_udpStopReceive_def rm_exit_def rm_inv_def Let_def)
qed

lemma rm_step_inv:
  assumes "rm_inv s" "rm_polite e s"
  shows "\<exists>s'. rm_step e s = (s', Ok ()) \<and> rm_inv s'"
proof (cases e)
  case (RmCall st)
  with assms rm_call_inv [OF assms(1), of st] show ?thesis by (auto simp: rm_step_def rm_polite_def)
next
  case (RmPacket n bs ad)
  with assms rm_packet_inv [OF assms(1), of n bs ad] show ?thesis by (auto simp: rm_polite_def)
next
  case RmTurn
  with rm_turn_inv [OF assms(1)] show ?thesis by simp
next
  case (RmNext sending)
  show ?thesis
  proof (cases "ud_point s = RmYielded")
    case True
    have "\<exists>s'. rm_loop sending s = (s', Ok ()) \<and> rm_inv s'"
      by (rule rm_loop_inv) (use assms True RmNext in \<open>auto simp: rm_inv_def rm_polite_def Let_def\<close>)
    with RmNext True show ?thesis by (simp add: rm_step_def)
  qed (use assms RmNext in \<open>auto simp: rm_step_def\<close>)
next
  case RmClose
  with rm_close_inv [OF assms(1)] assms(2) show ?thesis by (auto simp: rm_step_def rm_polite_def)
next
  case RmStop
  with rm_stop_inv [OF assms(1)] assms(2) show ?thesis by (auto simp: rm_step_def rm_polite_def)
qed

lemma rm_start_inv: "rm_inv Udp_new"
  using bq_new_inv [of "\<lambda>n. n" packetQueueSize]
  by (simp add: rm_inv_def Udp_new_def RecvAwaiter_new_def packetQueueSize_def BoundedQueue_new_def Loop_init_def
      loop_pending_def sched_pending_def List.map_filter_simps packets_def Let_def)

interpretation receiving: guarded_system rm_step rm_polite rm_inv
  by unfold_locales (rule rm_step_inv)

section \<open>Properties\<close>


definition example_peer :: address_handle where
  "example_peer = AddressHandle_default"


text \<open>
  A packet that arrives while the generator is suspended in \<open>co_yield\<close> is lost, and it ends
  the generator: the callback takes the missing data pointer for a cancellation and stops the
  reception, so that the next request of the consumer finds an inactive handle.
\<close>

theorem udp_packet_while_yielded:
  "let r = rm_run [RmCall 0, RmPacket 2 ''ab'' (Some example_peer), RmTurn, RmPacket 2 ''cd'' (Some example_peer), RmNext False] Udp_new
   in snd r = Ok () \<and> ud_point (fst r) = RmDone \<and> ud_out (fst r) = [(''ab'', example_peer)] \<and>
      ud_accepted (fst r) = [UdpPacket ''ab'' example_peer]"
  by code_simp

text \<open>
  A generator that has yielded when the socket is closed, and is awaited again, asks libuv
  about a null handle.
\<close>

theorem udp_next_after_close:
  "snd (rm_run [RmCall 0, RmPacket 2 ''ab'' (Some example_peer), RmTurn, RmClose, RmNext False] Udp_new) =
     Abort ''uv_is_active(nullptr)''"
  by code_simp

text \<open>Closing ends a generator that waits, with a cancellation error for its consumer.\<close>

lemma udp_close_wakes_receiver:
  "rm_inv s \<Longrightarrow> ud_point s = RmSuspended \<Longrightarrow>
     \<exists>s'. Udp_close s = (s', Ok ()) \<and> ud_point s' = RmThrown (recv_error UV_ECANCELED)"
  using rm_close_inv [of s]
  by (auto simp: rm_inv_def bq_hasSpace_iff packetQueueSize_def Let_def simp del: bq_length_list)

text \<open>
  \<open>receiveOneFrom()\<close> returns the packet that libuv delivers, stops the reception and leaves no
  data pointer. If the socket is closed between the delivery and the resumption, \<open>close()\<close>
  throws because the one-element buffer is full, and the socket stays open.
\<close>

theorem udp_receiveOne_lifecycle:
  "\<exists>s1 s2 s3. Udp_receiveOneFrom_start 4 0 Udp_new = (s1, Ok ()) \<and>
     Udp_onReceiveOne (int (length bs)) bs (Some a) s1 = (s2, Ok ()) \<and>
     ud_loop s2 = Loop_enqueue (Some 4) Loop_init \<and> \<not> ud_receiving s2 \<and>
     Udp_receiveOneFrom_end s2 = (s3, Ok (bs, a)) \<and> \<not> ud_data s3 \<and>
     snd (Udp_close_with resume s2) = Exn queue_full \<and> ud_udp (fst (Udp_close_with resume s2))"
proof -
  let ?q = "BoundedQueue_new (\<lambda>n. n) 1 :: udp_item bqueue"
  have n: "bq_inv ?q" "bq_list ?q = []" "bq_reserved ?q = 1"
    using bq_new_inv [of "\<lambda>n. n" 1] by (simp_all add: BoundedQueue_new_def)
  from bq.put_space [OF n(1), of "UdpPacket bs a"] n obtain q1 where q1: "BoundedQueue_put (UdpPacket bs a) ?q = (q1, Ok ())"
    "bq_inv q1" "bq_list q1 = [UdpPacket bs a]" "bq_reserved q1 = 1" by (auto simp del: bq_length_list)
  from bq.get_some [OF q1(2,3)] obtain q2 where q2: "BoundedQueue_get q1 = (q2, Ok (UdpPacket bs a))" by auto
  have f: "BoundedQueue_put x q1 = (q1, Exn queue_full)" for x
    using bq.put_full [OF q1(2)] q1(3,4) by (simp del: bq_length_list)
  have "BoundedQueue_hasSpace ?q" "\<not> BoundedQueue_empty q1" using n q1
    by (simp_all add: bq_hasSpace_iff bq_empty_iff del: bq_length_list)
  with n q1 q2 f show ?thesis
    by (simp add: Udp_receiveOneFrom_start_def Udp_new_def Udp_udpStartReceive_def RecvAwaiter_await_suspend_def
        RecvAwaiter_new_def Udp_onReceiveOne_def Udp_receiveOneFrom_end_def RecvAwaiter_await_resume_def
        Udp_receiveOne_exit_def Udp_close_with_def Let_def)
qed

text \<open>
  A send that libuv accepts is resumed once and returns, or throws the status of its
  completion. The request is part of the frame: when the send is cancelled before its callback,
  libuv calls back with a freed request.
\<close>

theorem udp_send_lifecycle:
  "\<exists>s s1 s2. Udp_send_start h 0 l = (s, Ok ()) \<and> Udp_onSendDone st s = (s1, Ok ()) \<and>
     sn_loop s1 = Loop_enqueue (Some h) l \<and>
     Udp_send_end s1 = (s2, if st = 0 then Ok () else Exn (send_done_error st)) \<and>
     snd (Udp_onSendDone st (Udp_send_leave s)) = Abort ''use of a freed request''"
  by (simp add: Udp_send_start_def SendAwaiter_await_suspend_def Udp_onSendDone_def Udp_send_end_def SendAwaiter_await_resume_def Udp_send_leave_def
      Let_def)

text \<open>Errors that libuv reports without a sender address never reach the receiver.\<close>

lemma udp_error_ignored: "ud_data s \<Longrightarrow> Udp_onReceiveOne nread bytes None s = (s, Ok ())"
  by (simp add: Udp_onReceiveOne_def)

text \<open>Every callback for a whole buffer frees that buffer, and no other.\<close>

lemma udp_buffer_freed: "Udp_onReceiveOne_buffer data False addr (Some a) live = live - {a}"
  by (simp add: Udp_onReceiveOne_buffer_def freeUvBuf_def split: option.split)

text \<open>
  libuv reports a receive error without an address; the callback takes it for a request to free the
  buffer: nothing is stored and nobody is woken.
\<close>

lemma udp_receive_error_lost:
  assumes "ud_data s"
  shows "Udp_onReceiveOne UV_EINVAL bytes None s = (s, Ok ())"
  using assms by (simp add: Udp_onReceiveOne_def)

end
