(* ===== verification/Http_Server.thy ===== *)
theory Http_Server
  imports Name_Resolution
begin

text \<open>
  The HTTP server of \<open>src/uvco/examples/http_server.h\<close> and \<open>http_server.cc\<close>: reading and parsing a
  request, routing it, printing the response, and the loop of a connection.

  What the reads of a connection return is a list: a chunk of bytes (an empty one is end of file)
  or an exception; the end of the list is end of file. Handlers are functions from requests to
  outcomes, and \<open>wr\<close> is the outcome of writing a text to the stream.
\<close>

section \<open>Strings\<close>

definition CRLF :: string where
  "CRLF = [CHR 0x0D, CHR 0x0A]"

text \<open>\<open>std::string::find(pat)\<close>: the position of the first occurrence.\<close>

fun find_sub :: "string \<Rightarrow> string \<Rightarrow> nat option" where
  "find_sub pat [] = (if pat = [] then Some 0 else None)"
| "find_sub pat (c # s) =
     (if take (length pat) (c # s) = pat then Some 0 else map_option Suc (find_sub pat s))"

definition to_lower :: "char \<Rightarrow> char" where
  "to_lower c = (let n = of_char c :: nat in if 65 \<le> n \<and> n \<le> 90 then char_of (n + 32) else c)"

definition iequals :: "string \<Rightarrow> string \<Rightarrow> bool" where
  "iequals a b \<longleftrightarrow> map to_lower a = map to_lower b"

section \<open>Requests and responses\<close>

record http_request =
  rq_method :: string
  rq_path :: string
  rq_version :: string
  rq_headers :: "(string \<times> string) list"

record http_response =
  rs_code :: int
  rs_message :: string
  rs_headers :: "(string \<times> string) list"
  rs_body :: string

definition format_int :: "int \<Rightarrow> string" where
  "format_int i = (if i < 0 then ''-'' @ to_string (nat (- i)) else to_string (nat i))"

definition HttpResponse_new :: http_response where
  "HttpResponse_new = \<lparr>rs_code = 200, rs_message = ''OK'', rs_headers = [], rs_body = []\<rparr>"

definition header_line :: "string \<times> string \<Rightarrow> string" where
  "header_line h = fst h @ '': '' @ snd h @ CRLF"

text \<open>\<open>toString()\<close> also appends a header to the response.\<close>

definition HttpResponse_toString :: "http_response \<Rightarrow> http_response \<times> string" where
  "HttpResponse_toString r =
     (let r1 = r\<lparr>rs_headers := rs_headers r @ [(''Content-Length'', to_string (length (rs_body r)))]\<rparr>
      in (r1, ''HTTP/1.1 '' @ format_int (rs_code r1) @ '' '' @ rs_message r1 @ CRLF @
              concat (map header_line (rs_headers r1)) @ CRLF @ rs_body r1))"

section \<open>Routing\<close>

type_synonym http_handler = "http_request \<Rightarrow> http_response res"
type_synonym router = "string \<Rightarrow> http_handler option"

definition Router_addRoute :: "string \<Rightarrow> http_handler \<Rightarrow> router \<Rightarrow> router" where
  "Router_addRoute path h r = r(path \<mapsto> h)"

definition Router_getHandler :: "string \<Rightarrow> router \<Rightarrow> http_handler option" where
  "Router_getHandler path r = r path"

definition notFoundHandler :: http_handler where
  "notFoundHandler rq = Ok (HttpResponse_new\<lparr>rs_code := 404, rs_message := ''Not Found'', rs_body := ''Not Found''\<rparr>)"

section \<open>Reading and parsing\<close>

datatype read_item = Chunk string | ReadFails exn

definition MAX_HEADER_SIZE :: nat where
  "MAX_HEADER_SIZE = 8192"

fun readHeaders_loop :: "string \<Rightarrow> read_item list \<Rightarrow> read_item list \<times> string option res" where
  "readHeaders_loop buf [] = ([], Ok None)"
| "readHeaders_loop buf (i # is) =
     (if MAX_HEADER_SIZE < length buf then (i # is, Ok None)
      else (case i of
              ReadFails e \<Rightarrow> (is, Exn e)
            | Chunk c \<Rightarrow>
                (if c = [] then (is, Ok None)
                 else (case find_sub (CRLF @ CRLF) (buf @ c) of
                         Some k \<Rightarrow> (is, Ok (Some (take (k + 4) (buf @ c))))
                       | None \<Rightarrow> readHeaders_loop (buf @ c) is))))"

definition readHeaders :: "read_item list \<Rightarrow> read_item list \<times> string option res" where
  "readHeaders is = readHeaders_loop [] is"

definition parseRequestLine :: "string \<Rightarrow> (string \<times> string \<times> string) option" where
  "parseRequestLine line = (case find_sub '' '' line of
     None \<Rightarrow> None
   | Some methodEnd \<Rightarrow>
       (let method = take methodEnd line; line1 = drop (methodEnd + 1) line
        in case find_sub '' '' line1 of
             None \<Rightarrow> None
           | Some pathEnd \<Rightarrow>
               (let path = take pathEnd line1; version = drop (pathEnd + 1) line1
                in if method = [] \<or> path = [] \<or> version = [] then None else Some (method, path, version))))"

text \<open>\<open>parseHeaders\<close>; the argument is the block from the position \<open>start\<close> on.\<close>

function parseHeaders :: "string \<Rightarrow> (string \<times> string) list" where
  "parseHeaders block =
     (if block = [] then []
      else (case find_sub CRLF block of
              None \<Rightarrow> []
            | Some e \<Rightarrow>
                (let line = take e block
                 in if line = [] then parseHeaders (drop (e + 2) block)
                    else (case find_sub '': '' line of
                            None \<Rightarrow> parseHeaders (drop (e + 2) block)
                          | Some colonPos \<Rightarrow> (take colonPos line, drop (colonPos + 2) line) #
                              parseHeaders (drop (e + 2) block)))))"
  by pat_completeness auto
termination
  by (relation "measure length") auto

declare parseHeaders.simps [simp del]

definition parseRequest :: "string \<Rightarrow> http_request option" where
  "parseRequest text = (case find_sub CRLF text of
     None \<Rightarrow> None
   | Some e \<Rightarrow>
       (case parseRequestLine (take e text) of
          None \<Rightarrow> None
        | Some (m, p, v) \<Rightarrow>
            Some \<lparr>rq_method = m, rq_path = p, rq_version = v, rq_headers = parseHeaders (drop (e + 2) text)\<rparr>))"

section \<open>A connection\<close>

definition wants_keepalive :: "http_request \<Rightarrow> bool" where
  "wants_keepalive rq \<longleftrightarrow>
     (\<exists>h \<in> set (rq_headers rq). iequals (fst h) ''connection'' \<and> iequals (snd h) ''keep-alive'')"

definition bad_request :: http_response where
  "bad_request = HttpResponse_new\<lparr>rs_code := 400, rs_message := ''Bad Request'', rs_body := ''Bad Request''\<rparr>"

text \<open>\<open>handleBadRequest\<close>: the texts written, and the outcome. The stream is closed.\<close>

definition handleBadRequest :: "(string \<Rightarrow> unit res) \<Rightarrow> string list \<times> unit res" where
  "handleBadRequest wr = (let text = snd (HttpResponse_toString bad_request) in ([text], wr text))"

definition run_handler :: "router \<Rightarrow> http_request \<Rightarrow> http_response res" where
  "run_handler router rq = (case Router_getHandler (rq_path rq) router of
     Some h \<Rightarrow> h rq | None \<Rightarrow> notFoundHandler rq)"

definition response_text :: "bool \<Rightarrow> http_response \<Rightarrow> string" where
  "response_text keep r =
     snd (HttpResponse_toString (r\<lparr>rs_headers := rs_headers r @
       [(''Connection'', if keep then ''keep-alive'' else ''close'')]\<rparr>))"

lemma readHeaders_loop_shorter:
  "readHeaders_loop buf is = (is', Ok (Some h)) \<Longrightarrow> length is' < length is"
  by (induction buf "is" rule: readHeaders_loop.induct)
     (force split: if_splits read_item.splits option.splits)+

text \<open>\<open>connectionHandler\<close>: the texts written to the stream, in order, and the outcome.\<close>

function connectionHandler ::
  "router \<Rightarrow> (string \<Rightarrow> unit res) \<Rightarrow> read_item list \<Rightarrow> string list \<times> unit res" where
  "connectionHandler router wr is =
     (case readHeaders is of
        (is1, Exn e) \<Rightarrow> ([], Exn e)
      | (is1, Abort m) \<Rightarrow> ([], Abort m)
      | (is1, Ok None) \<Rightarrow> handleBadRequest wr
      | (is1, Ok (Some text)) \<Rightarrow>
          (case parseRequest text of
             None \<Rightarrow> handleBadRequest wr
           | Some rq \<Rightarrow>
               (case run_handler router rq of
                  Exn e \<Rightarrow> ([], Exn e)
                | Abort m \<Rightarrow> ([], Abort m)
                | Ok resp \<Rightarrow>
                    (let text = response_text (wants_keepalive rq) resp
                     in case wr text of
                          Exn e \<Rightarrow> ([text], Exn e)
                        | Abort m \<Rightarrow> ([text], Abort m)
                        | Ok u \<Rightarrow>
                            (if wants_keepalive rq
                             then (case connectionHandler router wr is1 of (out, r) \<Rightarrow> (text # out, r))
                             else ([text], Ok ()))))))"
  by pat_completeness auto
termination
  by (relation "measure (\<lambda>(router, wr, is). length is)") (auto simp: readHeaders_def dest: readHeaders_loop_shorter [OF sym])

declare connectionHandler.simps [simp del]

section \<open>Lemmas on searching\<close>

lemma find_sub_here: "pat \<noteq> [] \<Longrightarrow> find_sub pat (pat @ rest) = Some 0"
  by (cases pat) auto

lemma find_sub_first: "p \<notin> set a \<Longrightarrow> find_sub (p # ps) (a @ (p # ps) @ rest) = Some (length a)"
  by (induction a) auto

lemma find_sub_bound: "find_sub pat s = Some k \<Longrightarrow> k + length pat \<le> length s"
proof (induction s arbitrary: k)
  case (Cons c s)
  show ?case
  proof (cases "take (length pat) (c # s) = pat")
    case True
    then have "length pat \<le> length (c # s)" by (metis length_take min.cobounded1 nat_le_linear take_all_iff)
    with Cons.prems True show ?thesis by simp
  qed (use Cons in auto)
qed (auto split: if_splits)

lemma find_sub_append:
  assumes "find_sub pat s = Some k"
  shows "find_sub pat (s @ t) = Some k"
  using assms
proof (induction s arbitrary: k)
  case Nil
  then show ?case by (cases t) (auto split: if_splits)
next
  case (Cons c s)
  show ?case
  proof (cases "take (length pat) (c # s) = pat")
    case True
    then have "length pat \<le> length (c # s)" by (metis length_take min.cobounded1 nat_le_linear take_all_iff)
    with True have "take (length pat) ((c # s) @ t) = pat" by (simp only: take_append) simp
    with True Cons.prems show ?thesis by simp
  next
    case False
    with Cons.prems obtain j where j: "find_sub pat s = Some j" "k = Suc j" by auto
    have "length pat \<le> length s" using find_sub_bound [OF j(1)] by simp
    then have "take (length pat) (c # s @ t) = take (length pat) (c # s)"
      by (cases "length pat") auto
    with False Cons.IH [OF j(1)] j(2) show ?thesis by simp
  qed
qed

text \<open>A text of which only the whole contains the pattern.\<close>

lemma find_sub_prefix:
  assumes "find_sub pat (a @ b) = Some k" "k + length pat = length (a @ b)" "b \<noteq> []"
  shows "find_sub pat a = None"
proof (rule ccontr)
  assume "find_sub pat a \<noteq> None"
  then obtain j where j: "find_sub pat a = Some j" by auto
  with find_sub_append [OF j, of b] assms(1) have "j = k" by simp
  with find_sub_bound [OF j] assms(2,3) show False by simp
qed

lemma find_sub_skip:
  assumes "CHR 0x0D \<notin> set l" "rest \<noteq> []" "hd rest \<noteq> CHR 0x0D"
  shows "find_sub (CRLF @ CRLF) (l @ CRLF @ rest) = map_option (\<lambda>k. length l + 2 + k) (find_sub (CRLF @ CRLF) rest)"
  using assms(1)
proof (induction l)
  case Nil
  from assms(2,3) obtain c cs where "rest = c # cs" "c \<noteq> CHR 0x0D" by (cases rest) auto
  then show ?case by (cases "find_sub (CRLF @ CRLF) rest") (auto simp: CRLF_def option.map_comp comp_def)
next
  case (Cons c l)
  then show ?case by (cases "find_sub (CRLF @ CRLF) rest") (auto simp: CRLF_def option.map_comp comp_def)
qed

definition line_block :: "string list \<Rightarrow> string" where
  "line_block ls = concat (map (\<lambda>l. l @ CRLF) ls)"

lemma find_blank_line:
  assumes "ls \<noteq> []" "\<forall>l \<in> set ls. l \<noteq> [] \<and> CHR 0x0D \<notin> set l"
  shows "find_sub (CRLF @ CRLF) (line_block ls @ CRLF @ rest) = Some (length (line_block ls) - 2)"
  using assms
proof (induction ls)
  case (Cons l ls)
  show ?case
  proof (cases "ls = []")
    case True
    have "find_sub (CRLF @ CRLF) (l @ (CRLF @ CRLF) @ rest) = Some (length l)"
      using find_sub_first [of "CHR 0x0D" l "[CHR 0x0A, CHR 0x0D, CHR 0x0A]" rest] Cons.prems by (simp add: CRLF_def)
    with True show ?thesis by (simp add: line_block_def CRLF_def)
  next
    case False
    then obtain l2 ls2 where ls: "ls = l2 # ls2" by (cases ls) auto
    let ?rest = "line_block ls @ CRLF @ rest"
    have h: "?rest \<noteq> []" "hd ?rest \<noteq> CHR 0x0D" using Cons.prems ls
      by (auto simp: line_block_def CRLF_def hd_append split: list.split) (metis list.set_sel(1))
    have n: "2 \<le> length (line_block ls)" using ls by (simp add: line_block_def CRLF_def)
    have "find_sub (CRLF @ CRLF) (l @ CRLF @ ?rest) = Some (length l + 2 + (length (line_block ls) - 2))"
      using find_sub_skip [OF _ h, of l] Cons.IH [OF False] Cons.prems by simp
    with n show ?thesis by (simp add: line_block_def CRLF_def)
  qed
qed simp

section \<open>Requests on the wire\<close>

definition print_request :: "http_request \<Rightarrow> string" where
  "print_request rq = rq_method rq @ '' '' @ rq_path rq @ '' '' @ rq_version rq @ CRLF @
     concat (map header_line (rq_headers rq)) @ CRLF"

definition wf_header :: "string \<times> string \<Rightarrow> bool" where
  "wf_header h \<longleftrightarrow> CHR '':'' \<notin> set (fst h) \<and> CHR 0x0D \<notin> set (fst h) \<and> CHR 0x0D \<notin> set (snd h)"

definition wf_request :: "http_request \<Rightarrow> bool" where
  "wf_request rq \<longleftrightarrow> rq_method rq \<noteq> [] \<and> rq_path rq \<noteq> [] \<and> rq_version rq \<noteq> [] \<and>
     CHR '' '' \<notin> set (rq_method rq @ rq_path rq) \<and>
     CHR 0x0D \<notin> set (rq_method rq @ rq_path rq @ rq_version rq) \<and> (\<forall>h \<in> set (rq_headers rq). wf_header h)"

definition request_lines :: "http_request \<Rightarrow> string list" where
  "request_lines rq = (rq_method rq @ '' '' @ rq_path rq @ '' '' @ rq_version rq) #
     map (\<lambda>h. fst h @ '': '' @ snd h) (rq_headers rq)"

lemma print_request_block: "print_request rq = line_block (request_lines rq) @ CRLF"
proof -
  have "header_line = (\<lambda>h. (fst h @ '': '' @ snd h) @ CRLF)" by (simp add: fun_eq_iff header_line_def)
  then show ?thesis by (simp add: print_request_def request_lines_def line_block_def comp_def)
qed

lemma request_lines_ok: "wf_request rq \<Longrightarrow> \<forall>l \<in> set (request_lines rq). l \<noteq> [] \<and> CHR 0x0D \<notin> set l"
  by (auto simp: wf_request_def request_lines_def wf_header_def)

lemma print_request_find:
  assumes "wf_request rq"
  shows "find_sub (CRLF @ CRLF) (print_request rq @ extra) = Some (length (print_request rq) - 4)"
  using find_blank_line [OF _ request_lines_ok [OF assms], of extra]
  by (simp add: print_request_block request_lines_def) (simp add: CRLF_def)

lemma print_request_long: "4 \<le> length (print_request rq)"
  by (simp add: print_request_def CRLF_def)

lemma find_CRLF: "CHR 0x0D \<notin> set a \<Longrightarrow> find_sub CRLF (a @ CRLF @ rest) = Some (length a)"
  using find_sub_first [of "CHR 0x0D" a "[CHR 0x0A]" rest] by (simp add: CRLF_def)

lemma split_line:
  "take (length l) (l @ CRLF @ r) = l" "drop (length l + 2) (l @ CRLF @ r) = r" "l @ CRLF @ r \<noteq> []"
  by (simp_all add: CRLF_def)

lemma parseRequestLine_print:
  assumes "m \<noteq> []" "p \<noteq> []" "v \<noteq> []" "CHR '' '' \<notin> set m" "CHR '' '' \<notin> set p"
  shows "parseRequestLine (m @ '' '' @ p @ '' '' @ v) = Some (m, p, v)"
proof -
  have "find_sub '' '' (m @ '' '' @ p @ '' '' @ v) = Some (length m)" "find_sub '' '' (p @ '' '' @ v) = Some (length p)"
    using find_sub_first [of "CHR '' ''" m "[]"] find_sub_first [of "CHR '' ''" p "[]"] assms by simp_all
  with assms show ?thesis by (simp add: parseRequestLine_def)
qed

lemma parseHeaders_print: "\<forall>h \<in> set hs. wf_header h \<Longrightarrow> parseHeaders (concat (map header_line hs) @ CRLF) = hs"
proof (induction hs)
  case Nil
  have "parseHeaders CRLF = parseHeaders []"
    by (subst parseHeaders.simps) (simp add: CRLF_def)
  also have "\<dots> = []" by (subst parseHeaders.simps) simp
  finally show ?case by simp
next
  case (Cons h hs)
  obtain n v where h: "h = (n, v)" by (cases h)
  define l where "l = n @ '': '' @ v"
  let ?rest = "concat (map header_line hs) @ CRLF"
  have wf: "CHR '':'' \<notin> set n" "CHR 0x0D \<notin> set l" "l \<noteq> []" using Cons.prems h by (auto simp: wf_header_def l_def)
  have "find_sub '': '' l = Some (length n)"
    using find_sub_first [OF wf(1), of "'' ''" v] by (simp add: l_def)
  moreover have "take (length n) l = n" "drop (length n + 2) l = v" by (simp_all add: l_def)
  ultimately have "parseHeaders (l @ CRLF @ ?rest) = (n, v) # parseHeaders ?rest"
    using wf(3) by (subst parseHeaders.simps) (simp only: find_CRLF [OF wf(2)] split_line option.case if_False Let_def)
  moreover have "header_line h = l @ CRLF" by (simp add: header_line_def l_def h)
  ultimately show ?case using Cons h by simp
qed

lemma readHeaders_loop_chunks:
  assumes "cs \<noteq> []" "\<forall>c \<in> set cs. c \<noteq> []" "buf @ concat cs = text"
    and "find_sub (CRLF @ CRLF) text = Some (length text - 4)" "4 \<le> length text" "length text \<le> MAX_HEADER_SIZE"
  shows "readHeaders_loop buf (map Chunk cs @ rest) = (rest, Ok (Some text))"
  using assms
proof (induction cs arbitrary: buf)
  case (Cons c cs)
  have len: "\<not> MAX_HEADER_SIZE < length buf" using Cons.prems(3,6) by auto
  show ?case
  proof (cases "cs = []")
    case True
    with Cons.prems len show ?thesis by simp
  next
    case False
    then have "concat cs \<noteq> []" using Cons.prems(2) by (cases cs) auto
    moreover have "find_sub (CRLF @ CRLF) ((buf @ c) @ concat cs) = Some (length text - 4)" using Cons.prems(3,4) by simp
    moreover have "length text - 4 + length (CRLF @ CRLF) = length ((buf @ c) @ concat cs)"
      using Cons.prems(3,5) by (auto simp: CRLF_def)
    ultimately have "find_sub (CRLF @ CRLF) (buf @ c) = None" by (intro find_sub_prefix)
    moreover have "readHeaders_loop (buf @ c) (map Chunk cs @ rest) = (rest, Ok (Some text))"
      using Cons.IH [OF False, of "buf @ c"] Cons.prems by simp
    ultimately show ?thesis using Cons.prems(2) len by simp
  qed
qed simp

lemma parseRequest_print:
  assumes "wf_request rq"
  shows "parseRequest (print_request rq) = Some rq"
proof -
  define l where "l = rq_method rq @ '' '' @ rq_path rq @ '' '' @ rq_version rq"
  let ?h = "concat (map header_line (rq_headers rq)) @ CRLF"
  have p: "print_request rq = l @ CRLF @ ?h" by (simp add: print_request_def l_def)
  have "CHR 0x0D \<notin> set l" using assms by (auto simp: wf_request_def l_def)
  then have f: "find_sub CRLF (l @ CRLF @ ?h) = Some (length l)" by (rule find_CRLF)
  have "parseRequestLine l = Some (rq_method rq, rq_path rq, rq_version rq)"
    unfolding l_def using assms by (intro parseRequestLine_print) (auto simp: wf_request_def)
  moreover have "parseHeaders ?h = rq_headers rq" using assms by (simp add: parseHeaders_print wf_request_def)
  ultimately show ?thesis by (simp only: p parseRequest_def f split_line option.case prod.case) simp
qed

section \<open>Properties\<close>

text \<open>
  C23: Parsing inverts printing: a request whose parts contain no carriage return, no space in
  method and path and no colon in header names is parsed back exactly, headers in order.
\<close>

theorem http_parse_print:
  assumes "wf_request rq"
  shows "parseRequest (print_request rq) = Some rq"
  by (rule parseRequest_print [OF assms])

definition example_request :: http_request where
  "example_request = \<lparr>rq_method = ''GET'', rq_path = ''/'', rq_version = ''HTTP/1.1'',
     rq_headers = [(''Host'', ''a''), (''Connection'', ''Keep-Alive'')]\<rparr>"

lemma example_request_wf: "wf_request example_request"
  by (simp add: wf_request_def wf_header_def example_request_def)

theorem http_parse_print_witness:
  "parseRequest (print_request example_request) = Some example_request"
  by (rule http_parse_print [OF example_request_wf])

text \<open>A request on the wire: cut anywhere into non-empty chunks, and within the limit.\<close>

definition valid_exchange :: "http_request \<times> string list \<Rightarrow> bool" where
  "valid_exchange x \<longleftrightarrow> wf_request (fst x) \<and> snd x \<noteq> [] \<and> (\<forall>c \<in> set (snd x). c \<noteq> []) \<and>
     concat (snd x) = print_request (fst x) \<and> length (print_request (fst x)) \<le> MAX_HEADER_SIZE"

lemma readHeaders_exchange:
  assumes "valid_exchange (rq, cs)"
  shows "readHeaders (map Chunk cs @ rest) = (rest, Ok (Some (print_request rq)))"
  unfolding readHeaders_def
  using assms print_request_find [of rq "[]"] print_request_long [of rq]
  by (intro readHeaders_loop_chunks) (auto simp: valid_exchange_def)

lemma parseRequest_exchange: "valid_exchange (rq, cs) \<Longrightarrow> parseRequest (print_request rq) = Some rq"
  by (simp add: parseRequest_print valid_exchange_def)

lemma connection_step:
  assumes "valid_exchange (rq, cs)" "run_handler router rq = Ok resp" "wr (response_text (wants_keepalive rq) resp) = Ok ()"
  shows "connectionHandler router wr (map Chunk cs @ rest) =
    (if wants_keepalive rq
     then (case connectionHandler router wr rest of (out, r) \<Rightarrow> (response_text True resp # out, r))
     else ([response_text False resp], Ok ()))"
  using assms
  by (subst connectionHandler.simps) (simp add: readHeaders_exchange parseRequest_exchange Let_def)

lemma connection_serves:
  assumes "\<forall>x \<in> set (ks @ [z]). valid_exchange x" "\<forall>x \<in> set ks. wants_keepalive (fst x)" "\<not> wants_keepalive (fst z)"
    and "\<And>rq. run_handler router rq = Ok (resp rq)" "\<And>text. wr text = Ok ()"
  shows "connectionHandler router wr (concat (map (\<lambda>x. map Chunk (snd x)) (ks @ [z])) @ rest) =
    (map (\<lambda>x. response_text (wants_keepalive (fst x)) (resp (fst x))) (ks @ [z]), Ok ())"
  using assms(1,2)
proof (induction ks)
  case Nil
  with assms(3) connection_step [OF _ assms(4,5), of "fst z" "snd z"] show ?case by simp
next
  case (Cons x ks)
  then have "valid_exchange (fst x, snd x)" "wants_keepalive (fst x)" by auto
  with Cons connection_step [OF _ assms(4,5), of "fst x" "snd x"] show ?case by simp
qed

text \<open>
  A connection on which well-formed keep-alive requests are followed by one that is not
  keep-alive, each cut into chunks at any place, answers each with the handler's response, in
  order, and then closes; nothing that follows is read.
\<close>

theorem http_connection_serves:
  assumes "\<forall>x \<in> set (ks @ [z]). valid_exchange x" "\<forall>x \<in> set ks. wants_keepalive (fst x)" "\<not> wants_keepalive (fst z)"
    and "\<And>rq. run_handler router rq = Ok (resp rq)" "\<And>text. wr text = Ok ()"
  shows "connectionHandler router wr (concat (map (\<lambda>x. map Chunk (snd x)) (ks @ [z])) @ rest) =
    (map (\<lambda>x. response_text (wants_keepalive (fst x)) (resp (fst x))) (ks @ [z]), Ok ())"
  by (rule connection_serves [OF assms])

definition example_last :: http_request where
  "example_last = \<lparr>rq_method = ''GET'', rq_path = ''/b'', rq_version = ''HTTP/1.1'', rq_headers = []\<rparr>"

theorem http_connection_serves_witness:
  "snd (connectionHandler (\<lambda>path. None) (\<lambda>text. Ok ())
     ([Chunk (print_request example_request), Chunk (print_request example_last)])) = Ok ()"
proof -
  let ?ks = "[(example_request, [print_request example_request])]" and ?z = "(example_last, [print_request example_last])"
  have "\<forall>x \<in> set (?ks @ [?z]). valid_exchange x"
    by (auto simp: valid_exchange_def example_request_wf MAX_HEADER_SIZE_def)
       (simp_all add: example_last_def example_request_def wf_request_def print_request_def header_line_def CRLF_def)
  moreover have "\<forall>x \<in> set ?ks. wants_keepalive (fst x)"
    by (simp add: wants_keepalive_def example_request_def) code_simp
  moreover have "\<not> wants_keepalive (fst ?z)" by (simp add: wants_keepalive_def example_last_def)
  moreover have "run_handler (\<lambda>path. None) rq =
      Ok (HttpResponse_new\<lparr>rs_code := 404, rs_message := ''Not Found'', rs_body := ''Not Found''\<rparr>)" for rq
    by (simp add: run_handler_def Router_getHandler_def notFoundHandler_def)
  ultimately show ?thesis
    using http_connection_serves [of ?ks ?z "\<lambda>path. None"
        "\<lambda>rq. HttpResponse_new\<lparr>rs_code := 404, rs_message := ''Not Found'', rs_body := ''Not Found''\<rparr>" "\<lambda>text. Ok ()" "[]"]
    by simp
qed

text \<open>
  Bytes that arrive in the same read as the end of a request are thrown away: of two requests
  that the client sends at once, the second is not answered; the connection reports a bad
  request when the client has nothing more to send.
\<close>

theorem http_pipelined_request_lost:
  assumes "wf_request rq" "wants_keepalive rq" "run_handler router rq = Ok resp" "\<And>text. wr text = Ok ()"
  shows "connectionHandler router wr [Chunk (print_request rq @ extra)] =
    ([response_text True resp, snd (HttpResponse_toString bad_request)], Ok ())"
proof -
  have "print_request rq @ extra \<noteq> []" using print_request_long [of rq] by (cases "print_request rq") auto
  then have r: "readHeaders [Chunk (print_request rq @ extra)] = ([], Ok (Some (print_request rq)))"
    using print_request_find [OF assms(1), of extra] print_request_long [of rq] by (simp add: readHeaders_def)
  have e: "connectionHandler router wr [] = ([snd (HttpResponse_toString bad_request)], Ok ())"
    using assms(4) by (subst connectionHandler.simps) (simp add: readHeaders_def handleBadRequest_def)
  show ?thesis using assms
    by (subst connectionHandler.simps) (simp add: r e parseRequest_print Let_def)
qed

theorem http_pipelined_request_lost_witness:
  "connectionHandler (\<lambda>path. None) (\<lambda>text. Ok ()) [Chunk (print_request example_request @ print_request example_last)] =
    ([response_text True (HttpResponse_new\<lparr>rs_code := 404, rs_message := ''Not Found'', rs_body := ''Not Found''\<rparr>),
      snd (HttpResponse_toString bad_request)], Ok ())"
proof (rule http_pipelined_request_lost [OF example_request_wf])
  show "wants_keepalive example_request" by (simp add: wants_keepalive_def example_request_def) code_simp
  show "run_handler (\<lambda>path. None) example_request =
      Ok (HttpResponse_new\<lparr>rs_code := 404, rs_message := ''Not Found'', rs_body := ''Not Found''\<rparr>)"
    by (simp add: run_handler_def Router_getHandler_def notFoundHandler_def)
qed simp

text \<open>
  A printed response can be taken apart again: the first blank line separates the headers from
  exactly the body, and the last header announces the body's length.
\<close>

theorem http_response_body:
  assumes "CHR 0x0D \<notin> set (rs_message r)" "\<forall>h \<in> set (rs_headers r). CHR 0x0D \<notin> set (fst h) \<and> CHR 0x0D \<notin> set (snd h)"
  shows "\<exists>k. find_sub (CRLF @ CRLF) (snd (HttpResponse_toString r)) = Some k \<and>
    drop (k + 4) (snd (HttpResponse_toString r)) = rs_body r \<and>
    of_string (snd (last (rs_headers (fst (HttpResponse_toString r))))) = length (rs_body r)"
proof -
  define hs where "hs = rs_headers r @ [(''Content-Length'', to_string (length (rs_body r)))]"
  define ls where "ls = (''HTTP/1.1 '' @ format_int (rs_code r) @ '' '' @ rs_message r) #
    map (\<lambda>h. fst h @ '': '' @ snd h) hs"
  have d: "CHR 0x0D \<notin> set (to_string n)" for n
  proof
    assume "CHR 0x0D \<in> set (to_string n)"
    then obtain m :: nat where "m < 10" "CHR 0x0D = (char_of (48 + m) :: char)" using to_string_digits by blast
    then have "of_char CHR 0x0D = (48 + m) mod 256" by (metis of_char_of)
    with \<open>m < 10\<close> show False by simp
  qed
  have ok: "\<forall>l \<in> set ls. l \<noteq> [] \<and> CHR 0x0D \<notin> set l"
    using assms d by (auto simp: ls_def hs_def format_int_def)
  have "header_line = (\<lambda>h. (fst h @ '': '' @ snd h) @ CRLF)" by (simp add: fun_eq_iff header_line_def)
  then have t: "snd (HttpResponse_toString r) = line_block ls @ CRLF @ rs_body r"
    by (simp add: HttpResponse_toString_def ls_def hs_def line_block_def comp_def header_line_def Let_def)
  have "2 \<le> length (line_block ls)" by (simp add: ls_def line_block_def CRLF_def)
  then have "drop (length (line_block ls) - 2 + 4) (line_block ls @ CRLF @ rs_body r) = rs_body r"
    by (simp add: CRLF_def)
  moreover have "ls \<noteq> []" by (simp add: ls_def)
  moreover have "of_string (snd (last (rs_headers (fst (HttpResponse_toString r))))) = length (rs_body r)"
    by (simp add: HttpResponse_toString_def of_string_to_string Let_def)
  ultimately show ?thesis using find_blank_line [OF _ ok, of "rs_body r"] t by simp
qed

theorem http_response_body_witness:
  "\<exists>k. find_sub (CRLF @ CRLF) (snd (HttpResponse_toString bad_request)) = Some k \<and>
    drop (k + 4) (snd (HttpResponse_toString bad_request)) = ''Bad Request''"
  using http_response_body [of bad_request] by (auto simp: bad_request_def HttpResponse_new_def)

text \<open>Printing twice announces the length twice.\<close>

lemma toString_twice:
  "length (filter (\<lambda>h. fst h = ''Content-Length'') (rs_headers (fst (HttpResponse_toString (fst (HttpResponse_toString r)))))) =
   length (filter (\<lambda>h. fst h = ''Content-Length'') (rs_headers r)) + 2"
  by (simp add: HttpResponse_toString_def Let_def)

text \<open>The route added last for a path is the one that is found; other paths keep theirs.\<close>

lemma route_found:
  "Router_getHandler path (Router_addRoute path h r) = Some h"
  "path' \<noteq> path \<Longrightarrow> Router_getHandler path' (Router_addRoute path h r) = Router_getHandler path' r"
  by (simp_all add: Router_getHandler_def Router_addRoute_def)

end
