(* ===== verification/Http_Service.thy ===== *)
theory Http_Service
  imports Http_Server Stream_Server Combinators
begin

text \<open>
  \<open>httpServer\<close> of \<open>src/uvco/examples/http_server.cc\<close> as a whole: the listener of a TCP server, the
  loop that takes connections from it and adds a \<open>connectionHandler\<close> for each to a task set, and
  the handlers, all interleaved.

  A handler is a state machine from one suspension to the next (a read, a route's handler, a write), and
  is shown to do what \<open>connectionHandler\<close> does on the bytes of its connection. The service
  is an event system: listener events, the loop's body, handler events and the ends of tasks in any order.
\<close>

section \<open>A connection handler between suspensions\<close>

text \<open>
  Suspended in a read (with what has been read), in the route's handler, in the write of a response (keep-alive or
  not), in the write of the error response; or over.
\<close>

datatype conn_point =
    CReading string | CHandling http_request | CWriting bool string | CRejecting string | COver "unit res"

text \<open>A read returns, the route's handler returns, a write returns.\<close>

datatype conn_event = CnRead read_item | CnHandled | CnWritten

definition conn_reject :: "conn_point \<times> string list" where
  "conn_reject = (let text = snd (HttpResponse_toString bad_request) in (CRejecting text, [text]))"

text \<open>The head of the loop of \<open>readHeaders\<close>.\<close>

definition conn_read :: "string \<Rightarrow> conn_point \<times> string list" where
  "conn_read buf = (if MAX_HEADER_SIZE < length buf then conn_reject else (CReading buf, []))"

text \<open>From one suspension of \<open>connectionHandler\<close> to the next, with the texts handed to \<open>write\<close>.\<close>

fun conn_step :: "router \<Rightarrow> (string \<Rightarrow> unit res) \<Rightarrow> conn_event \<Rightarrow> conn_point \<Rightarrow> conn_point \<times> string list" where
  "conn_step router wr (CnRead i) (CReading buf) = (case i of
     ReadFails e \<Rightarrow> (COver (Exn e), [])
   | Chunk c \<Rightarrow>
       (if c = [] then conn_reject
        else (case find_sub (CRLF @ CRLF) (buf @ c) of
                None \<Rightarrow> conn_read (buf @ c)
              | Some k \<Rightarrow>
                  (case parseRequest (take (k + 4) (buf @ c)) of
                     None \<Rightarrow> conn_reject
                   | Some rq \<Rightarrow> (CHandling rq, [])))))"
| "conn_step router wr CnHandled (CHandling rq) = (case run_handler router rq of
     Exn e \<Rightarrow> (COver (Exn e), [])
   | Abort m \<Rightarrow> (COver (Abort m), [])
   | Ok resp \<Rightarrow> (let text = response_text (wants_keepalive rq) resp in (CWriting (wants_keepalive rq) text, [text])))"
| "conn_step router wr CnWritten (CWriting keep text) = (case wr text of
     Exn e \<Rightarrow> (COver (Exn e), [])
   | Abort m \<Rightarrow> (COver (Abort m), [])
   | Ok u \<Rightarrow> if keep then conn_read [] else (COver (Ok ()), []))"
| "conn_step router wr CnWritten (CRejecting text) = (COver (wr text), [])"
| "conn_step router wr ev p = (p, [])"

fun conn_enabled :: "conn_event \<Rightarrow> conn_point \<Rightarrow> bool" where
  "conn_enabled (CnRead i) (CReading buf) = True"
| "conn_enabled CnHandled (CHandling rq) = True"
| "conn_enabled CnWritten (CWriting keep text) = True"
| "conn_enabled CnWritten (CRejecting text) = True"
| "conn_enabled ev p = False"

fun conn_items :: "conn_event list \<Rightarrow> read_item list" where
  "conn_items [] = []"
| "conn_items (CnRead i # es) = i # conn_items es"
| "conn_items (e # es) = conn_items es"

section \<open>The handler is connectionHandler\<close>

text \<open>What \<open>connectionHandler\<close> still does from a point on, given what its reads will return.\<close>

definition after_headers :: "router \<Rightarrow> (string \<Rightarrow> unit res) \<Rightarrow> read_item list \<times> string option res \<Rightarrow> string list \<times> unit res" where
  "after_headers router wr x = (case x of
     (is, Exn e) \<Rightarrow> ([], Exn e)
   | (is, Abort m) \<Rightarrow> ([], Abort m)
   | (is, Ok None) \<Rightarrow> handleBadRequest wr
   | (is, Ok (Some text)) \<Rightarrow>
       (case parseRequest text of
          None \<Rightarrow> handleBadRequest wr
        | Some rq \<Rightarrow>
            (case run_handler router rq of
               Exn e \<Rightarrow> ([], Exn e)
             | Abort m \<Rightarrow> ([], Abort m)
             | Ok resp \<Rightarrow>
                 (let text = response_text (wants_keepalive rq) resp
                  in case wr text of
                       Exn e \<Rightarrow> ([text], Exn e)
                     | Abort m \<Rightarrow> ([text], Abort m)
                     | Ok u \<Rightarrow>
                         (if wants_keepalive rq
                          then (case connectionHandler router wr is of (out, r) \<Rightarrow> (text # out, r))
                          else ([text], Ok ()))))))"

lemma connectionHandler_headers: "connectionHandler router wr is = after_headers router wr (readHeaders_loop [] is)"
  by (subst connectionHandler.simps) (simp add: after_headers_def readHeaders_def)

definition write_rest :: "router \<Rightarrow> (string \<Rightarrow> unit res) \<Rightarrow> bool \<Rightarrow> string \<Rightarrow> read_item list \<Rightarrow> string list \<times> unit res" where
  "write_rest router wr keep text is = (case wr text of
     Exn e \<Rightarrow> ([], Exn e)
   | Abort m \<Rightarrow> ([], Abort m)
   | Ok u \<Rightarrow> if keep then connectionHandler router wr is else ([], Ok ()))"

fun conn_rest :: "router \<Rightarrow> (string \<Rightarrow> unit res) \<Rightarrow> conn_point \<Rightarrow> read_item list \<Rightarrow> string list \<times> unit res" where
  "conn_rest router wr (CReading buf) is = after_headers router wr (readHeaders_loop buf is)"
| "conn_rest router wr (CHandling rq) is = (case run_handler router rq of
     Exn e \<Rightarrow> ([], Exn e)
   | Abort m \<Rightarrow> ([], Abort m)
   | Ok resp \<Rightarrow>
       (let text = response_text (wants_keepalive rq) resp
        in map_prod ((@) [text]) id (write_rest router wr (wants_keepalive rq) text is)))"
| "conn_rest router wr (CWriting keep text) is = write_rest router wr keep text is"
| "conn_rest router wr (CRejecting text) is = ([], wr text)"
| "conn_rest router wr (COver r) is = ([], r)"

lemma map_prod_Nil [simp]: "map_prod ((@) []) id x = x"
  by (cases x) simp

lemma rejected_rest:
  "conn_reject = (p, ts) \<Longrightarrow> after_headers router wr (is', Ok None) = map_prod ((@) ts) id (conn_rest router wr p is)"
  "conn_reject = (p, ts) \<Longrightarrow> parseRequest text = None \<Longrightarrow>
     after_headers router wr (is', Ok (Some text)) = map_prod ((@) ts) id (conn_rest router wr p is)"
  by (auto simp: after_headers_def handleBadRequest_def conn_reject_def Let_def)

lemma readHeaders_limit: "MAX_HEADER_SIZE < length buf \<Longrightarrow> \<exists>is'. readHeaders_loop buf is = (is', Ok None)"
  by (cases "is") auto

lemma conn_read_rest:
  assumes "conn_read buf = (p, ts)"
  shows "after_headers router wr (readHeaders_loop buf is) = map_prod ((@) ts) id (conn_rest router wr p is)"
proof (cases "MAX_HEADER_SIZE < length buf")
  case True
  with assms readHeaders_limit [OF True, of "is"] rejected_rest(1) show ?thesis by (auto simp: conn_read_def)
qed (use assms in \<open>auto simp: conn_read_def\<close>)

lemma parsed_rest:
  assumes "parseRequest text = Some rq"
  shows "after_headers router wr (is, Ok (Some text)) = conn_rest router wr (CHandling rq) is"
  using assms by (auto simp: after_headers_def write_rest_def Let_def split: res.split prod.split)

text \<open>A reader never starts with a buffer over the limit.\<close>

definition conn_wf :: "conn_point \<Rightarrow> bool" where
  "conn_wf p = (case p of CReading buf \<Rightarrow> length buf \<le> MAX_HEADER_SIZE | _ \<Rightarrow> True)"

lemma conn_step_rest:
  assumes "conn_enabled ev p" "conn_wf p" "conn_step router wr ev p = (p', ts)"
  shows "conn_rest router wr p (conn_items [ev] @ is) = map_prod ((@) ts) id (conn_rest router wr p' is)"
  using assms
proof (cases "(ev, p)" rule: conn_enabled.cases)
  case (1 i buf)
  show ?thesis
  proof (cases i)
    case (Chunk c)
    with 1 assms conn_read_rest [of "buf @ c" p' ts router wr "is"] rejected_rest(1) [of p' ts router wr] rejected_rest(2) [of p' ts _ router wr] parsed_rest
    show ?thesis by (auto simp: conn_wf_def split: if_splits option.splits)
  qed (use 1 assms in \<open>auto simp: conn_wf_def after_headers_def\<close>)
next
  case (3 keep t)
  with assms conn_read_rest [of "[]" p' ts router wr "is"] connectionHandler_headers [of router wr "is"]
  show ?thesis by (auto simp: write_rest_def split: res.splits if_splits)
qed (use assms in \<open>auto simp: Let_def split: res.splits\<close>)

lemma conn_read_wf: "conn_read buf = (p, ts) \<Longrightarrow> conn_wf p"
  by (auto simp: conn_read_def conn_reject_def conn_wf_def Let_def split: if_splits)

lemma conn_step_wf:
  assumes "conn_wf p" "conn_step router wr ev p = (p', ts)"
  shows "conn_wf p'"
proof -
  have r: "conn_reject = (p', ts) \<Longrightarrow> conn_wf p'" by (auto simp: conn_reject_def conn_wf_def Let_def)
  show ?thesis using assms r
    by (cases "(router, wr, ev, p)" rule: conn_step.cases)
       (auto simp: Let_def conn_wf_def dest: conn_read_wf [unfolded conn_wf_def] split: read_item.splits if_splits option.splits res.splits)
qed

section \<open>The service\<close>

text \<open>
  A handler with its connection, the texts it has written, the events it has seen, whether its
  task has ended in the task set, and whether it was destroyed before it was over.
\<close>

record 'c hconn =
  hc_stream :: 'c
  hc_point :: conn_point
  hc_out :: "string list"
  hc_log :: "conn_event list"
  hc_reaped :: bool
  hc_cancelled :: bool

text \<open>\<open>httpServer\<close> is suspended in \<open>streamPromise.next()\<close>, over, or its promise was dropped.\<close>

datatype http_point = HsWaiting | HsOver "unit res" | HsDropped

record 'c hservice =
  hv_server :: "'c server"
  hv_tasks :: taskset
  hv_conns :: "'c hconn list"
  hv_point :: http_point

definition httpServer_start :: "uv_status \<Rightarrow> 'c server \<Rightarrow> 'c hservice \<times> unit res" where
  "httpServer_start listenStatus sv = (case StreamServerBase_listen listenStatus sv of (sv1, r) \<Rightarrow>
     (\<lparr>hv_server = sv1, hv_tasks = TaskSet_create, hv_conns = [], hv_point = HsWaiting\<rparr>, r))"

text \<open>\<open>next()\<close> has a stream: the loop's body, up to the next \<open>next()\<close>.\<close>

definition httpServer_take :: "'c \<Rightarrow> 'c hservice \<Rightarrow> 'c hservice" where
  "httpServer_take c s = (case conn_read [] of (p, out) \<Rightarrow>
     (case TaskSet_add None (hv_tasks s, sv_loop (hv_server s)) of ((ts, l), k) \<Rightarrow>
        s\<lparr>hv_server := (hv_server s)\<lparr>sv_loop := l\<rparr>, hv_tasks := ts,
          hv_conns := hv_conns s @ [\<lparr>hc_stream = c, hc_point = p, hc_out = out, hc_log = [],
            hc_reaped = False, hc_cancelled = False\<rparr>]\<rparr>))"

text \<open>
  The frame of \<open>httpServer\<close> is left: the task set goes, and with it every handler that has not
  finished.
\<close>

definition hc_over :: "'c hconn \<Rightarrow> bool" where
  "hc_over h = (case hc_point h of COver r \<Rightarrow> True | _ \<Rightarrow> False)"

definition httpServer_leave :: "http_point \<Rightarrow> 'c hservice \<Rightarrow> 'c hservice" where
  "httpServer_leave p s = s\<lparr>hv_point := p,
     hv_conns := map (\<lambda>(i, h). if word_of_nat i \<in> set (TaskSet_destroy (hv_tasks s)) \<and> \<not> hc_over h
                                  then h\<lparr>hc_cancelled := True\<rparr> else h)
       (List.enumerate 0 (hv_conns s))\<rparr>"

text \<open>\<open>next()\<close> is empty when the listener has returned, and throws what it has thrown.\<close>

definition httpServer_end :: "'c hservice \<Rightarrow> 'c hservice" where
  "httpServer_end s = (case sv_point (hv_server s) of
     LsDone \<Rightarrow> httpServer_leave (HsOver (Ok ())) s
   | LsThrown e \<Rightarrow> httpServer_leave (HsOver (Exn e)) s
   | _ \<Rightarrow> s)"

datatype 'c hv_event =
    HvServer "'c sv_event" | HvTake | HvConn nat conn_event | HvReap nat | HvEnd | HvDrop

text \<open>The listener has a stream that the loop has not taken.\<close>

definition hv_offered :: "'c hservice \<Rightarrow> bool" where
  "hv_offered s \<longleftrightarrow> length (hv_conns s) < length (sv_out (hv_server s))"

definition hv_conn :: "router \<Rightarrow> (string \<Rightarrow> unit res) \<Rightarrow> nat \<Rightarrow> conn_event \<Rightarrow> 'c hservice \<Rightarrow> 'c hservice \<times> unit res" where
  "hv_conn router wr i ev s = (let h = hv_conns s ! i in
     case conn_step router wr ev (hc_point h) of (p, out) \<Rightarrow>
       (s\<lparr>hv_conns := (hv_conns s)[i := h\<lparr>hc_point := p, hc_out := hc_out h @ out, hc_log := hc_log h @ [ev]\<rparr>]\<rparr>,
        case p of COver (Abort m) \<Rightarrow> Abort m | _ \<Rightarrow> Ok ()))"

definition hv_reap :: "nat \<Rightarrow> 'c hservice \<Rightarrow> 'c hservice" where
  "hv_reap i s = (let h = hv_conns s ! i; r = (case hc_point h of COver (Exn e) \<Rightarrow> Inr e | _ \<Rightarrow> Inl ()) in
     case TaskSet_wrap_end (word_of_nat i) r (hv_tasks s, sv_loop (hv_server s)) of (ts, l) \<Rightarrow>
       s\<lparr>hv_server := (hv_server s)\<lparr>sv_loop := l\<rparr>, hv_tasks := ts,
         hv_conns := (hv_conns s)[i := h\<lparr>hc_reaped := True\<rparr>]\<rparr>)"

definition hv_step :: "router \<Rightarrow> (string \<Rightarrow> unit res) \<Rightarrow> 'c hv_event \<Rightarrow> 'c hservice \<Rightarrow> 'c hservice \<times> unit res" where
  "hv_step router wr ev s = (case ev of
     HvServer e \<Rightarrow> (case sv_step e (hv_server s) of (sv, r) \<Rightarrow> (s\<lparr>hv_server := sv\<rparr>, r))
   | HvTake \<Rightarrow>
       (if hv_point s = HsWaiting \<and> hv_offered s
        then (httpServer_take (sv_out (hv_server s) ! length (hv_conns s)) s, Ok ()) else (s, Ok ()))
   | HvConn i e \<Rightarrow> hv_conn router wr i e s
   | HvReap i \<Rightarrow> (hv_reap i s, Ok ())
   | HvEnd \<Rightarrow> (if hv_point s = HsWaiting \<and> \<not> hv_offered s then (httpServer_end s, Ok ()) else (s, Ok ()))
   | HvDrop \<Rightarrow>
       (if hv_point s = HsWaiting
        then (case sv_step SvDrop (hv_server (httpServer_leave HsDropped s)) of (sv, r) \<Rightarrow>
                ((httpServer_leave HsDropped s)\<lparr>hv_server := sv\<rparr>, r))
        else (s, Ok ())))"

text \<open>
  The rules. The listener is resumed from \<open>co_yield\<close> when \<open>httpServer\<close> has taken the stream; it keeps to
  the rules of the listener otherwise. A handler moves when what it waits for happens; its task
  ends once. The 64-bit counter of the task set does not wrap.
\<close>

definition hv_guard :: "'c hv_event \<Rightarrow> 'c hservice \<Rightarrow> bool" where
  "hv_guard ev s = (let n = length (hv_conns s) in case ev of
     HvServer e \<Rightarrow> sv_polite e (hv_server s) \<and>
       (case e of SvListen st \<Rightarrow> False | SvDrop \<Rightarrow> False | SvNext \<Rightarrow> hv_point s = HsWaiting \<and> \<not> hv_offered s | _ \<Rightarrow> True)
   | HvTake \<Rightarrow> ts_counter (hv_tasks s) + 1 \<noteq> 0
   | HvConn i e \<Rightarrow> i < n \<and> hv_point s = HsWaiting \<and> conn_enabled e (hc_point (hv_conns s ! i))
   | HvReap i \<Rightarrow> i < n \<and> hv_point s = HsWaiting \<and> hc_over (hv_conns s ! i) \<and> \<not> hc_reaped (hv_conns s ! i)
   | HvEnd \<Rightarrow> True
   | HvDrop \<Rightarrow> sv_polite SvDrop (hv_server s))"

definition hv_start :: "'c hservice" where
  "hv_start = fst (httpServer_start 0 sv_start)"

section \<open>The invariant of the service\<close>

text \<open>Whatever a handler will still read, it has written what \<open>connectionHandler\<close> writes so far.\<close>

definition conn_ok :: "router \<Rightarrow> (string \<Rightarrow> unit res) \<Rightarrow> 'c hconn \<Rightarrow> bool" where
  "conn_ok router wr h \<longleftrightarrow> conn_wf (hc_point h) \<and> (\<forall>m. hc_point h \<noteq> COver (Abort m)) \<and>
     (\<forall>is. connectionHandler router wr (conn_items (hc_log h) @ is) =
        map_prod ((@) (hc_out h)) id (conn_rest router wr (hc_point h) is))"

definition hv_unreaped :: "'c hconn list \<Rightarrow> u64 set" where
  "hv_unreaped hs = word_of_nat ` {i. i < length hs \<and> \<not> hc_reaped (hs ! i)}"

definition tasks_ok :: "'c hconn list \<Rightarrow> taskset \<Rightarrow> bool" where
  "tasks_ok hs ts \<longleftrightarrow> length hs < 2 ^ 64 \<and> ts_ok (length hs) ts \<and> ts_active ts = hv_unreaped hs \<and>
     wp_waiters (ts_onEmpty ts) = [] \<and> ts_callback ts = None \<and>
     set (ts_errors ts) = {(None, word_of_nat i, e) | i e. i < length hs \<and> hc_reaped (hs ! i) \<and> hc_point (hs ! i) = COver (Exn e)}"

definition hv_inv :: "router \<Rightarrow> (string \<Rightarrow> unit res) \<Rightarrow> 'c hservice \<Rightarrow> bool" where
  "hv_inv router wr s \<longleftrightarrow> (let hs = hv_conns s; sv = hv_server s in
     sv_inv sv \<and> length hs \<le> length (sv_out sv) \<and> map hc_stream hs = take (length hs) (sv_out sv) \<and>
     (\<forall>h \<in> set hs. conn_ok router wr h \<and> (hc_reaped h \<longrightarrow> hc_over h)) \<and>
     (if hv_point s = HsWaiting then tasks_ok hs (hv_tasks s) \<and> (\<forall>h \<in> set hs. \<not> hc_cancelled h)
      else (\<forall>h \<in> set hs. hc_cancelled h = (\<not> hc_over h))))"

section \<open>Its preservation\<close>

lemma ls_iter_out: "ls_iter i g s = (s', r) \<Longrightarrow> \<exists>ys. sv_out s' = sv_out s @ ys"
  by (auto simp: ls_iter_def ls_suspend_def ConnectionAwaiter_destroy_def ConnectionAwaiter_await_suspend_def Let_def
      split: if_splits slot.splits)

lemma ls_resumed_out: "ls_resumed s = (s', r) \<Longrightarrow> \<exists>ys. sv_out s' = sv_out s @ ys"
  using ls_iter_out by (fastforce simp: ls_resumed_def ConnectionAwaiter_destroy_def split: if_splits)

lemma stop_out:
  assumes "ConnectionAwaiter_stop s = (s', r)"
  shows "\<exists>ys. sv_out s' = sv_out s @ ys"
proof (cases "caw_handle (sv_awaiter s)")
  case (Some h)
  with assms ls_resumed_out [of "s\<lparr>sv_awaiter := (sv_awaiter s)\<lparr>caw_stopped := True, caw_handle := None\<rparr>\<rparr>" s' r] show ?thesis
    by (auto simp: ConnectionAwaiter_stop_def Let_def split: if_splits)
qed (use assms in \<open>auto simp: ConnectionAwaiter_stop_def Let_def split: if_splits\<close>)

text \<open>Streams that were yielded stay yielded.\<close>

lemma sv_step_out:
  assumes "sv_step e s = (s', r)" "\<forall>st. e \<noteq> SvListen st"
  shows "\<exists>ys. sv_out s' = sv_out s @ ys"
proof (cases e)
  case SvTurn
  obtain l t where n: "Loop_getNext (sv_fin s) (sv_loop s) = (l, t)" by (cases "Loop_getNext (sv_fin s) (sv_loop s)")
  with SvTurn assms ls_resumed_out [of "s\<lparr>sv_loop := l\<rparr>" s' r] show ?thesis
    by (auto simp: sv_step_def split: transfer.splits if_splits)
next
  case SvNext
  with assms ls_iter_out [of _ _ s s' r] show ?thesis by (auto simp: sv_step_def split: ls_point.splits)
next
  case SvClose
  obtain s1 r1 where c: "(if sv_socket s \<and> sv_data s then ConnectionAwaiter_stop s else (s, Ok ())) = (s1, r1)" by fastforce
  then have "\<exists>ys. sv_out s1 = sv_out s @ ys" using stop_out [of s s1 r1] by (auto split: if_splits)
  with SvClose assms c show ?thesis
    by (cases r1) (auto simp: sv_step_def StreamServerBase_close_def split: if_splits)
qed (use assms in \<open>auto simp: sv_step_def StreamServerBase_onNewConnection_def ConnectionAwaiter_destroy_def Let_def
       split: if_splits option.splits\<close>)

lemma sv_inv_same_loop: "sv_inv s \<Longrightarrow> sv_inv (s\<lparr>sv_loop := sv_loop s\<rparr>)"
  by simp

text \<open>One step of a handler.\<close>

lemma conn_new_ok: "conn_read [] = (p, out) \<Longrightarrow>
    conn_ok router wr \<lparr>hc_stream = c, hc_point = p, hc_out = out, hc_log = [], hc_reaped = False, hc_cancelled = False\<rparr>"
  by (auto simp: conn_ok_def conn_read_def conn_wf_def connectionHandler_headers)

lemma conn_items_snoc: "conn_items (es @ [e]) = conn_items es @ conn_items [e]"
  by (induction es rule: conn_items.induct) auto

lemma conn_step_no_abort:
  assumes "\<And>rq m. run_handler router rq \<noteq> Abort m" "\<And>t m. wr t \<noteq> Abort m"
    and "conn_step router wr ev p = (p', out)" "conn_enabled ev p"
  shows "p' \<noteq> COver (Abort m)"
  using assms
  by (cases "(router, wr, ev, p)" rule: conn_step.cases)
     (auto simp: conn_read_def conn_reject_def Let_def split: read_item.splits if_splits option.splits res.splits)

lemma conn_event_ok:
  assumes "\<And>rq m. run_handler router rq \<noteq> Abort m" "\<And>t m. wr t \<noteq> Abort m"
    and h: "conn_ok router wr h" "conn_enabled ev (hc_point h)" "conn_step router wr ev (hc_point h) = (p, out)"
  shows "conn_ok router wr (h\<lparr>hc_point := p, hc_out := hc_out h @ out, hc_log := hc_log h @ [ev]\<rparr>)"
proof -
  have "connectionHandler router wr (conn_items (hc_log h @ [ev]) @ is) =
      map_prod ((@) (hc_out h @ out)) id (conn_rest router wr p is)" for "is"
  proof -
    have "connectionHandler router wr (conn_items (hc_log h @ [ev]) @ is) =
        map_prod ((@) (hc_out h)) id (conn_rest router wr (hc_point h) (conn_items [ev] @ is))"
      using h(1) by (simp only: conn_items_snoc conn_ok_def append_assoc)
    also have "\<dots> = map_prod ((@) (hc_out h)) id (map_prod ((@) out) id (conn_rest router wr p is))"
      using conn_step_rest [OF h(2) _ h(3)] h(1) by (simp only: conn_ok_def)
    finally show ?thesis by (cases "conn_rest router wr p is") simp
  qed
  moreover have "conn_wf p" using conn_step_wf [OF _ h(3)] h(1) by (simp add: conn_ok_def)
  ultimately show ?thesis using conn_step_no_abort [OF assms(1,2) h(3,2)] by (simp add: conn_ok_def)
qed

lemma enabled_not_over: "conn_enabled ev (hc_point h) \<Longrightarrow> \<not> hc_over h"
  by (cases "(ev, hc_point h)" rule: conn_enabled.cases) (auto simp: hc_over_def)

text \<open>The task set follows the handlers.\<close>

lemma tasks_conn:
  assumes "tasks_ok hs ts" "i < length hs" "\<not> hc_reaped (hs ! i)" "\<not> hc_reaped h"
  shows "tasks_ok (hs[i := h]) ts"
proof -
  have "hc_reaped (hs[i := h] ! k) = hc_reaped (hs ! k)" for k
    using assms(2-4) by (cases "k = i") auto
  moreover have "hc_reaped (hs ! k) \<and> hc_point (hs[i := h] ! k) = x \<longleftrightarrow> hc_reaped (hs ! k) \<and> hc_point (hs ! k) = x" for k x
    using assms(2,3) by (cases "k = i") auto
  ultimately show ?thesis using assms(1) by (simp add: tasks_ok_def hv_unreaped_def)
qed

lemma tasks_take:
  assumes "tasks_ok hs ts" "Suc (length hs) < 2 ^ 64" "\<not> hc_reaped h" "TaskSet_add None (ts, l) = ((ts', l'), k)"
  shows "tasks_ok (hs @ [h]) ts' \<and> l' = l"
proof -
  have ok: "ts_ok (length hs) ts" and n: "length hs < 2 ^ 64" using assms(1) by (simp_all add: tasks_ok_def)
  have t: "ts' = ts_insert (ts_counter ts) (ts\<lparr>ts_counter := ts_counter ts + 1\<rparr>)" "l' = l"
    using assms(4) by (auto simp: TaskSet_add_def Let_def)
  have "{i. i < length (hs @ [h]) \<and> \<not> hc_reaped ((hs @ [h]) ! i)} =
      insert (length hs) {i. i < length hs \<and> \<not> hc_reaped (hs ! i)}"
    using assms(3) by (auto simp: nth_append)
  then have "hv_unreaped (hs @ [h]) = insert (word_of_nat (length hs)) (hv_unreaped hs)" by (simp add: hv_unreaped_def)
  moreover have "{(None, word_of_nat i, e) | i e. i < length (hs @ [h]) \<and> hc_reaped ((hs @ [h]) ! i) \<and> hc_point ((hs @ [h]) ! i) = COver (Exn e)} =
      {(None :: nat option, word_of_nat i :: u64, e) | i e. i < length hs \<and> hc_reaped (hs ! i) \<and> hc_point (hs ! i) = COver (Exn e)}"
    using assms(3) by (auto simp: nth_append less_Suc_eq; metis)
  ultimately show ?thesis
    using TaskSet_add_pending [OF ok n, of l] assms(1,2,4) t
    by (simp add: tasks_ok_def ts_insert_def)
qed

lemma counter_bound:
  assumes "tasks_ok hs ts" "ts_counter ts + 1 \<noteq> 0"
  shows "Suc (length hs) < 2 ^ 64"
proof -
  have "ts_counter ts = word_of_nat (length hs)" "length hs < 2 ^ 64" using assms(1) by (simp_all add: tasks_ok_def ts_ok_def)
  moreover have "word_of_nat (2 ^ 64 - 1) + 1 = (0 :: u64)" by simp
  ultimately show ?thesis using assms(2) by (cases "length hs = 2 ^ 64 - 1") auto
qed

lemma word_of_nat_inj:
  assumes "i < 2 ^ 64" "k < 2 ^ 64"
  shows "(word_of_nat i :: u64) = word_of_nat k \<longleftrightarrow> i = k"
proof -
  have "unat (word_of_nat j :: u64) = j" if "j < 2 ^ 64" for j using that by (simp add: unat_of_nat take_bit_nat_eq_self)
  with assms show ?thesis by metis
qed

lemma tasks_reap:
  assumes t: "tasks_ok hs ts" and i: "i < length hs" "\<not> hc_reaped (hs ! i)" "hc_over (hs ! i)"
    and r: "r = (case hc_point (hs ! i) of COver (Exn e) \<Rightarrow> Inr e | _ \<Rightarrow> Inl ())"
    and w: "TaskSet_wrap_end (word_of_nat i) r (ts, l) = (ts', l')"
  shows "tasks_ok (hs[i := (hs ! i)\<lparr>hc_reaped := True\<rparr>]) ts' \<and> l' = l"
proof -
  let ?hs = "hs[i := (hs ! i)\<lparr>hc_reaped := True\<rparr>]"
  have ok: "ts_ok (length hs) ts" and n: "length hs < 2 ^ 64" and wf: "ts_wf (length hs) ts"
    using t by (simp_all add: tasks_ok_def ts_ok_def)
  have act: "word_of_nat i \<in> ts_active ts" using t i by (auto simp: tasks_ok_def hv_unreaped_def)
  have nth: "?hs ! k = (if k = i then (hs ! i)\<lparr>hc_reaped := True\<rparr> else hs ! k)" if "k < length hs" for k
    using that by simp
  have "{k. k < length ?hs \<and> \<not> hc_reaped (?hs ! k)} = {k. k < length hs \<and> \<not> hc_reaped (hs ! k)} - {i}"
    using i(1) by (auto simp: nth_list_update split: if_splits)
  moreover have "inj_on (word_of_nat :: nat \<Rightarrow> u64) {k. k < length hs}"
    using n by (intro inj_onI) (simp add: word_of_nat_inj)
  then have "(word_of_nat :: nat \<Rightarrow> u64) ` ({k. k < length hs \<and> \<not> hc_reaped (hs ! k)} - {i}) =
      word_of_nat ` {k. k < length hs \<and> \<not> hc_reaped (hs ! k)} - word_of_nat ` {i}"
    using i(1) by (intro inj_on_image_set_diff [of _ "{k. k < length hs}"]) auto
  ultimately have u: "hv_unreaped ?hs = hv_unreaped hs - {word_of_nat i}" by (simp add: hv_unreaped_def)
  have e: "set (ts_errors ts') = set (ts_errors ts) \<union> {(None, word_of_nat i, e) | e. hc_point (hs ! i) = COver (Exn e)}"
    using wrap_end_errors(1) [of "word_of_nat i" r ts l] w r t i(3)
    by (auto simp: tasks_ok_def hc_over_def split: conn_point.splits res.splits)
  have "set (ts_errors ts') =
      {(None, word_of_nat k, e) | k e. k < length ?hs \<and> hc_reaped (?hs ! k) \<and> hc_point (?hs ! k) = COver (Exn e)}"
  proof -
    have "k < length ?hs \<and> hc_reaped (?hs ! k) \<and> hc_point (?hs ! k) = x \<longleftrightarrow>
        k < length hs \<and> hc_reaped (hs ! k) \<and> hc_point (hs ! k) = x \<or> k = i \<and> hc_point (hs ! i) = x" for k x
      using nth i by (cases "k = i") auto
    then show ?thesis using t unfolding e tasks_ok_def by auto
  qed
  then show ?thesis
    using TaskSet_finish_ok [OF ok n act, of r l] wrap_end_spec(4,5) [OF wf n, of "word_of_nat i" r l]
      wrap_end_errors(2) [of "word_of_nat i" r ts l] w t u n
    by (simp add: tasks_ok_def)
qed

text \<open>Leaving the frame cancels exactly the handlers that are not over.\<close>

lemma leave_conns:
  assumes "tasks_ok (hv_conns s) (hv_tasks s)" "\<forall>h \<in> set (hv_conns s). (hc_reaped h \<longrightarrow> hc_over h) \<and> \<not> hc_cancelled h"
  shows "hv_conns (httpServer_leave p s) = map (\<lambda>h. h\<lparr>hc_cancelled := \<not> hc_over h\<rparr>) (hv_conns s)"
proof (rule nth_equalityI)
  show "length (hv_conns (httpServer_leave p s)) = length (map (\<lambda>h. h\<lparr>hc_cancelled := \<not> hc_over h\<rparr>) (hv_conns s))"
    by (simp add: httpServer_leave_def)
  fix i assume "i < length (hv_conns (httpServer_leave p s))"
  then have i: "i < length (hv_conns s)" by (simp add: httpServer_leave_def)
  have a: "hc_reaped (hv_conns s ! i) \<longrightarrow> hc_over (hv_conns s ! i)" "\<not> hc_cancelled (hv_conns s ! i)"
    using assms(2) i by simp_all
  have "\<not> hc_over (hv_conns s ! i) \<Longrightarrow> word_of_nat i \<in> ts_active (hv_tasks s)"
    using a assms(1) i by (auto simp: tasks_ok_def hv_unreaped_def)
  moreover have "(hv_conns s ! i)\<lparr>hc_cancelled := False\<rparr> = hv_conns s ! i" using a(2) by (cases "hv_conns s ! i") simp
  ultimately show "hv_conns (httpServer_leave p s) ! i = map (\<lambda>h. h\<lparr>hc_cancelled := \<not> hc_over h\<rparr>) (hv_conns s) ! i"
    using i by (cases "hc_over (hv_conns s ! i)") (auto simp: httpServer_leave_def TaskSet_destroy_def ts_active_def nth_enumerate_eq)
qed

lemma conn_ok_more:
  "conn_ok router wr (h\<lparr>hc_reaped := b\<rparr>) = conn_ok router wr h" "conn_ok router wr (h\<lparr>hc_cancelled := b\<rparr>) = conn_ok router wr h"
  "hc_over (h\<lparr>hc_reaped := b\<rparr>) = hc_over h" "hc_over (h\<lparr>hc_cancelled := b\<rparr>) = hc_over h"
  by (simp_all add: conn_ok_def hc_over_def)

lemma leave_inv:
  assumes "hv_inv router wr s" "hv_point s = HsWaiting" "p \<noteq> HsWaiting"
  shows "hv_inv router wr (httpServer_leave p s)"
proof -
  have c: "hv_conns (httpServer_leave p s) = map (\<lambda>h. h\<lparr>hc_cancelled := \<not> hc_over h\<rparr>) (hv_conns s)"
    using assms(1,2) by (intro leave_conns) (auto simp: hv_inv_def Let_def)
  have "map hc_stream (hv_conns (httpServer_leave p s)) = map hc_stream (hv_conns s)" by (simp add: c)
  moreover have "hv_server (httpServer_leave p s) = hv_server s" "hv_point (httpServer_leave p s) = p"
    by (simp_all add: httpServer_leave_def)
  ultimately show ?thesis using assms c by (auto simp: hv_inv_def Let_def conn_ok_more comp_def)
qed

lemma server_inv:
  assumes "hv_inv router wr s" "sv_polite e (hv_server s)" "\<forall>st. e \<noteq> SvListen st"
  shows "\<exists>sv. sv_step e (hv_server s) = (sv, Ok ()) \<and> hv_inv router wr (s\<lparr>hv_server := sv\<rparr>)"
proof -
  obtain sv where sv: "sv_step e (hv_server s) = (sv, Ok ())" "sv_inv sv"
    using sv_step_inv [of "hv_server s" e] assms(1,2) by (auto simp: hv_inv_def Let_def)
  obtain ys where "sv_out sv = sv_out (hv_server s) @ ys" using sv_step_out [OF sv(1) assms(3)] by blast
  with sv assms(1) show ?thesis by (auto simp: hv_inv_def Let_def)
qed

lemma update_conn:
  assumes "hv_inv router wr s" "i < length (hv_conns s)" "hv_point s = HsWaiting"
    and h: "hc_stream h = hc_stream (hv_conns s ! i)" "conn_ok router wr h" "hc_reaped h \<longrightarrow> hc_over h" "\<not> hc_cancelled h"
    and "tasks_ok ((hv_conns s)[i := h]) ts"
  shows "hv_inv router wr (s\<lparr>hv_tasks := ts, hv_conns := (hv_conns s)[i := h]\<rparr>)"
proof -
  have "map hc_stream ((hv_conns s)[i := h]) = map hc_stream (hv_conns s)"
    using h(1) assms(2) by (metis list_update_id map_update nth_map)
  moreover have "\<forall>x \<in> set ((hv_conns s)[i := h]). conn_ok router wr x \<and> (hc_reaped x \<longrightarrow> hc_over x) \<and> \<not> hc_cancelled x"
    using assms(1,3) h(2-4) set_update_subset_insert [of "hv_conns s" i h] by (auto simp: hv_inv_def Let_def)
  ultimately show ?thesis using assms(1,3,8) by (auto simp: hv_inv_def Let_def)
qed

lemma hv_step_inv:
  assumes ab: "\<And>rq m. run_handler router rq \<noteq> Abort m" "\<And>t m. wr t \<noteq> Abort m"
    and s: "hv_inv router wr s" "hv_guard ev s"
  shows "\<exists>s'. hv_step router wr ev s = (s', Ok ()) \<and> hv_inv router wr s'"
proof (cases ev)
  case (HvServer e)
  then have "sv_polite e (hv_server s)" "\<forall>st. e \<noteq> SvListen st"
    using s(2) by (auto simp: hv_guard_def Let_def split: sv_event.splits)
  from server_inv [OF s(1) this] HvServer show ?thesis by (auto simp: hv_step_def)
next
  case HvTake
  show ?thesis
  proof (cases "hv_point s = HsWaiting \<and> hv_offered s")
    case True
    obtain p out where p: "conn_read [] = (p, out)" by fastforce
    obtain ts l k where a: "TaskSet_add None (hv_tasks s, sv_loop (hv_server s)) = ((ts, l), k)" by (metis prod.collapse)
    let ?h = "\<lparr>hc_stream = sv_out (hv_server s) ! length (hv_conns s), hc_point = p, hc_out = out, hc_log = [],
      hc_reaped = False, hc_cancelled = False\<rparr>"
    have t: "tasks_ok (hv_conns s) (hv_tasks s)" using s(1) True by (simp add: hv_inv_def Let_def)
    have "tasks_ok (hv_conns s @ [?h]) ts \<and> l = sv_loop (hv_server s)"
      using s(2) HvTake by (intro tasks_take [OF t _ _ a] counter_bound [OF t]) (simp_all add: hv_guard_def Let_def)
    then show ?thesis using HvTake True s(1) conn_new_ok [OF p, of router wr] p a
      by (auto simp: hv_step_def httpServer_take_def hv_inv_def hv_offered_def take_Suc_conv_app_nth Let_def)
  qed (use HvTake s(1) in \<open>auto simp: hv_step_def\<close>)
next
  case (HvConn i e)
  let ?h = "hv_conns s ! i"
  obtain p out where p: "conn_step router wr e (hc_point ?h) = (p, out)" by fastforce
  have g: "i < length (hv_conns s)" "hv_point s = HsWaiting" "conn_enabled e (hc_point ?h)"
    using s(2) HvConn by (simp_all add: hv_guard_def Let_def)
  have h: "conn_ok router wr ?h" "\<not> hc_reaped ?h" "\<not> hc_cancelled ?h" "tasks_ok (hv_conns s) (hv_tasks s)"
    using s(1) g enabled_not_over [OF g(3)] by (auto simp: hv_inv_def Let_def)
  let ?h' = "?h\<lparr>hc_point := p, hc_out := hc_out ?h @ out, hc_log := hc_log ?h @ [e]\<rparr>"
  have "hv_inv router wr (s\<lparr>hv_tasks := hv_tasks s, hv_conns := (hv_conns s)[i := ?h']\<rparr>)"
    using h by (intro update_conn [OF s(1) g(1,2)] conn_event_ok [OF ab _ g(3) p] tasks_conn g(1)) simp_all
  moreover have "p \<noteq> COver (Abort m)" for m using conn_step_no_abort [OF ab p g(3)] .
  ultimately show ?thesis
    using HvConn p by (auto simp: hv_step_def hv_conn_def Let_def split: conn_point.splits res.splits)
next
  case (HvReap i)
  let ?h = "hv_conns s ! i"
  have g: "i < length (hv_conns s)" "hv_point s = HsWaiting" "hc_over ?h" "\<not> hc_reaped ?h"
    using s(2) HvReap by (simp_all add: hv_guard_def Let_def)
  have h: "conn_ok router wr ?h" "\<not> hc_cancelled ?h" "tasks_ok (hv_conns s) (hv_tasks s)"
    using s(1) g by (auto simp: hv_inv_def Let_def)
  let ?r = "case hc_point ?h of COver (Exn e) \<Rightarrow> Inr e | _ \<Rightarrow> Inl ()"
  obtain ts l where w: "TaskSet_wrap_end (word_of_nat i) ?r (hv_tasks s, sv_loop (hv_server s)) = (ts, l)" by fastforce
  note t = tasks_reap [OF h(3) g(1,4,3) refl w]
  have "hv_inv router wr (s\<lparr>hv_tasks := ts, hv_conns := (hv_conns s)[i := ?h\<lparr>hc_reaped := True\<rparr>]\<rparr>)"
    using h g t by (intro update_conn [OF s(1) g(1,2)]) (simp_all add: conn_ok_more)
  then show ?thesis using HvReap w t by (auto simp: hv_step_def hv_reap_def Let_def)
next
  case HvEnd
  then show ?thesis using s(1) leave_inv [OF s(1)]
    by (auto simp: hv_step_def httpServer_end_def split: ls_point.splits)
next
  case HvDrop
  show ?thesis
  proof (cases "hv_point s = HsWaiting")
    case True
    have "hv_server (httpServer_leave HsDropped s) = hv_server s" by (simp add: httpServer_leave_def)
    with server_inv [OF leave_inv [OF s(1) True], of HsDropped SvDrop] s(2) True HvDrop show ?thesis
      by (auto simp: hv_step_def hv_guard_def Let_def)
  qed (use HvDrop s(1) in \<open>auto simp: hv_step_def\<close>)
qed

interpretation http_service: guarded_system "hv_step router wr" hv_guard
  "\<lambda>s. hv_inv router wr s \<and> (\<forall>rq m. run_handler router rq \<noteq> Abort m) \<and> (\<forall>t m. wr t \<noteq> Abort m)"
  by unfold_locales (use hv_step_inv in blast)

lemma hv_start_inv: "hv_inv router wr hv_start"
proof -
  have "sv_polite (SvListen 0) sv_start" by (simp add: sv_polite_def sv_start_def)
  then obtain s where "sv_step (SvListen 0) (sv_start :: 'a server) = (s, Ok ())" "sv_inv s"
    using sv_step_inv [OF sv_start_inv] by blast
  then have "sv_inv (hv_server (hv_start :: 'a hservice))"
    by (simp add: hv_start_def httpServer_start_def sv_step_def sv_start_def split: prod.split)
  moreover have "hv_conns (hv_start :: 'a hservice) = []" "hv_tasks (hv_start :: 'a hservice) = TaskSet_create"
    "hv_point (hv_start :: 'a hservice) = HsWaiting"
    by (simp_all add: hv_start_def httpServer_start_def split: prod.split)
  ultimately show ?thesis
    by (simp add: hv_inv_def tasks_ok_def hv_unreaped_def ts_ok_def ts_wf_def ts_active_def TaskSet_create_def
        WaitPoint_init_def Let_def)
qed

section \<open>Properties\<close>


text \<open>Two connections: the first asks for a page that does not exist, the second is still open.\<close>

definition example_service_run :: "nat hv_event list" where
  "example_service_run = [HvServer (SvConnection 0 0 7), HvServer (SvConnection 0 0 8), HvServer SvTurn, HvTake, HvServer SvNext,
     HvTake, HvConn 0 (CnRead (Chunk (''GET /b HTTP/1.1'' @ CRLF @ CRLF))), HvConn 0 CnHandled, HvConn 0 CnWritten, HvReap 0,
     HvServer SvNext, HvServer SvClose, HvEnd]"


text \<open>
  A server that is closed between the arrival of a connection in \<open>co_yield\<close> and the next \<open>next()\<close>: the loop of
  \<open>httpServer\<close> asks for another connection, the listener suspends on the closed socket, and nothing is
  scheduled that could resume either.
\<close>

lemma http_close_while_yielded_hangs:
  "(let (s, r) = res_run (hv_step (\<lambda>path. None) (\<lambda>t. Ok ()))
      [HvServer (SvConnection 0 0 (7 :: nat)), HvServer SvTurn, HvTake, HvServer SvClose, HvServer SvNext, HvEnd] hv_start
    in r = Ok () \<and> hv_point s = HsWaiting \<and> sv_point (hv_server s) = LsSuspended \<and> sv_mem (hv_server s) = SockClosing \<and>
       loop_pending (\<lambda>c. False) (sv_loop (hv_server s)) = [])"
  by code_simp

end
