(* ===== verification/Ownership.thy ===== *)
theory Ownership
  imports Multi_Promise "HOL-Library.Multiset"
begin

text \<open>
  Ownership of resources. A \<open>File\<close> owns a descriptor, a promise owns a coroutine; both can be
  moved, assigned and destroyed. The interface \<open>accounting\<close> extends an event system by an account of
  the resources: each event changes it by what it acquires, so that after any run every resource
  is owned once or was released once.

  The objects here are the promises of \<open>src/uvco/promise/\<close>: \<open>Promise<T>\<close>, \<open>Promise<void>\<close> and
  \<open>MultiPromise<T>\<close>, with their coroutines scheduled, run and ended on the event loop in between.
  Files are in \<open>File_System\<close>.
\<close>

section \<open>Promise objects\<close>

text \<open>A promise object of one of the three kinds, with the core it points to or null.\<close>

datatype 'v pobj = ValueP "'v core option" | VoidP "vcore option" | GenP "'v mcore option"

datatype promise_kind = KValue | KVoid | KGen

definition option_list :: "'a option \<Rightarrow> 'a list" where
  "option_list x = (case x of None \<Rightarrow> [] | Some y \<Rightarrow> [y])"

text \<open>The coroutine that the object owns, and whether its core is not finished.\<close>

fun obj_frame :: "'v pobj \<Rightarrow> coro list" where
  "obj_frame (ValueP (Some c)) = option_list (pc_coroutine c)"
| "obj_frame (VoidP (Some c)) = option_list (vc_coroutine c)"
| "obj_frame (GenP (Some c)) = option_list (pc_coroutine c)"
| "obj_frame _ = []"

fun obj_unfinished :: "'v pobj \<Rightarrow> bool" where
  "obj_unfinished (ValueP (Some c)) = (pc_state c \<noteq> Finished)"
| "obj_unfinished (VoidP (Some c)) = (vc_state c \<noteq> Finished)"
| "obj_unfinished (GenP (Some c)) = (pc_state c \<noteq> Finished)"
| "obj_unfinished _ = False"

text \<open>\<open>done()\<close> of the coroutine: it is at its final suspension point.\<close>

fun obj_done :: "'v pobj \<Rightarrow> bool" where
  "obj_done (GenP (Some c)) = mc_terminated c"
| "obj_done x = (\<not> obj_unfinished x)"

fun obj_call :: "promise_kind \<Rightarrow> coro \<Rightarrow> 'v pobj" where
  "obj_call KValue self = ValueP (Coroutine_get_return_object (fst (Coroutine_initial_suspend self PromiseCore_init)))"
| "obj_call KVoid self = VoidP (VoidCoroutine_get_return_object (VoidCoroutine_initial_suspend self VoidCore_init))"
| "obj_call KGen self = GenP (Generator_get_return_object (fst (Generator_initial_suspend self MultiPromiseCore_init)))"

fun obj_move :: "'v pobj \<Rightarrow> 'v pobj \<times> 'v pobj" where
  "obj_move (ValueP p) = map_prod ValueP ValueP (Promise_move p)"
| "obj_move (VoidP p) = map_prod VoidP VoidP (VoidPromise_move p)"
| "obj_move (GenP p) = map_prod GenP GenP (MultiPromise_move p)"

text \<open>Assignments between objects of different kinds do not compile.\<close>

fun obj_assign :: "bool \<Rightarrow> 'v pobj \<Rightarrow> 'v pobj \<Rightarrow> loop \<Rightarrow> ('v pobj \<times> 'v pobj) \<times> loop \<times> coro option" where
  "obj_assign same (ValueP p) (ValueP q) l = map_prod (map_prod ValueP ValueP) id (Promise_move_assign same p q l)"
| "obj_assign same (VoidP p) (VoidP q) l = map_prod (map_prod VoidP VoidP) id (VoidPromise_move_assign same p q l)"
| "obj_assign same (GenP p) (GenP q) l = map_prod (map_prod GenP GenP) id (MultiPromise_move_assign same p q l)"
| "obj_assign same x y l = ((x, y), l, None)"

text \<open>The destructor; the object is gone afterwards, here a null pointer.\<close>

fun obj_destroy :: "'v pobj \<Rightarrow> loop \<Rightarrow> 'v pobj \<times> loop \<times> coro option" where
  "obj_destroy (ValueP p) l = (ValueP None, Promise_destroy p l)"
| "obj_destroy (VoidP p) l = (VoidP None, VoidPromise_destroy p l)"
| "obj_destroy (GenP p) l = (GenP None, MultiPromise_destroy p l)"

fun obj_cancel :: "'v pobj \<Rightarrow> loop \<Rightarrow> 'v pobj \<times> loop \<times> coro option" where
  "obj_cancel (GenP p) l = map_prod GenP id (MultiPromise_cancel p l)"
| "obj_cancel x l = (x, l, None)"

text \<open>
  The caller awaits the promise: the handle is stored (and a suspended generator resumed). The caller is
  a coroutine outside of the objects, number 0. Then the coroutine returns, throws or yields, and the
  caller takes the result.
\<close>

definition the_caller :: coro where
  "the_caller = 0"

fun obj_await :: "'v pobj \<Rightarrow> loop \<Rightarrow> ('v pobj \<times> loop) \<times> unit res" where
  "obj_await (ValueP (Some c)) l = (case PromiseCore_setHandle (Some the_caller) c of (c1, r) \<Rightarrow> ((ValueP (Some c1), l), r))"
| "obj_await (VoidP (Some c)) l = (case VoidCore_setHandle (Some the_caller) c of (c1, r) \<Rightarrow> ((VoidP (Some c1), l), r))"
| "obj_await (GenP (Some c)) l = (case MultiPromiseCore_setHandle (Some the_caller) c of (c1, r) \<Rightarrow>
     rbind ((GenP (Some c1), l), r) (\<lambda>_ _.
       case MultiPromiseCore_resumeGenerator (c1, l) of ((c2, l2), r2) \<Rightarrow> ((GenP (Some c2), l2), r2)))"
| "obj_await x l = ((x, l), Abort ''null pointer'')"

fun obj_end :: "'v + exn \<Rightarrow> 'v pobj \<Rightarrow> loop \<Rightarrow> ('v pobj \<times> loop) \<times> unit res" where
  "obj_end v (ValueP (Some c)) l = (case core_finish v (c, l) of ((c1, l1), r) \<Rightarrow> ((ValueP (Some c1), l1), r))"
| "obj_end v (VoidP (Some c)) l =
     (case vcore_finish (case v of Inl x \<Rightarrow> Inl () | Inr e \<Rightarrow> Inr e) (c, l) of ((c1, l1), r) \<Rightarrow> ((VoidP (Some c1), l1), r))"
| "obj_end v (GenP (Some c)) l =
     (case (case v of Inl x \<Rightarrow> Generator_return_void (c, l) | Inr e \<Rightarrow> Generator_unhandled_exception e (c, l)) of
        ((c1, l1), r) \<Rightarrow> ((GenP (Some c1), l1), r))"
| "obj_end v x l = ((x, l), Abort ''null pointer'')"

fun obj_yield :: "'v \<Rightarrow> 'v pobj \<Rightarrow> loop \<Rightarrow> ('v pobj \<times> loop) \<times> unit res" where
  "obj_yield v (GenP (Some c)) l = (case Generator_yield_value v (c, l) of ((c1, l1), r) \<Rightarrow>
     rbind ((GenP (Some c1), l1), r) (\<lambda>_ _.
       case YieldAwaiter_await_suspend c1 of (c2, r2) \<Rightarrow> ((GenP (Some c2), l1), r2)))"
| "obj_yield v x l = ((x, l), Abort ''null pointer'')"

fun obj_take :: "'v pobj \<Rightarrow> 'v pobj" where
  "obj_take (ValueP (Some c)) = ValueP (Some (fst (PromiseAwaiter_await_resume c)))"
| "obj_take (VoidP (Some c)) = VoidP (Some (fst (VoidAwaiter_await_resume c)))"
| "obj_take (GenP p) = GenP (fst (MultiPromiseAwaiter_await_resume p))"
| "obj_take x = x"

section \<open>Programs of promise objects\<close>

text \<open>Promises by number, the loop, and the coroutines whose \<open>destroy()\<close> was called, in order.\<close>

record 'v promise_objs =
  po_objs :: "'v pobj list"
  po_loop :: loop
  po_destroyed :: "coro list"

datatype 'v promise_act =
    PromiseCalled promise_kind coro
  | PromiseMoved nat
  | PromiseMoveAssigned nat nat
  | PromiseDestroyed nat
  | PromiseCancelled nat
  | PromiseAwaited nat
  | PromiseTaken nat
  | CoroutineScheduled nat
  | CoroutineEnded nat "'v + exn"
  | CoroutineYielded nat 'v
  | NextResumed

definition po_put :: "nat \<Rightarrow> ('v pobj \<times> loop) \<times> unit res \<Rightarrow> 'v promise_objs \<Rightarrow> 'v promise_objs \<times> unit res" where
  "po_put i r w = (case r of ((x, l), a) \<Rightarrow> (w\<lparr>po_objs := (po_objs w)[i := x], po_loop := l\<rparr>, a))"

definition po_release :: "nat \<Rightarrow> 'v pobj \<times> loop \<times> coro option \<Rightarrow> 'v promise_objs \<Rightarrow> 'v promise_objs \<times> unit res" where
  "po_release i r w = (case r of (x, l, d) \<Rightarrow>
     (w\<lparr>po_objs := (po_objs w)[i := x], po_loop := l, po_destroyed := po_destroyed w @ option_list d\<rparr>, Ok ()))"

definition po_fin :: "'v promise_objs \<Rightarrow> coro \<Rightarrow> bool" where
  "po_fin w c = list_ex (\<lambda>x. obj_frame x = [c] \<and> obj_done x) (po_objs w)"

definition promise_step :: "'v promise_act \<Rightarrow> 'v promise_objs \<Rightarrow> 'v promise_objs \<times> unit res" where
  "promise_step e w = (case e of
     PromiseCalled k c \<Rightarrow> (w\<lparr>po_objs := po_objs w @ [obj_call k c]\<rparr>, Ok ())
   | PromiseMoved j \<Rightarrow>
       (case obj_move (po_objs w ! j) of (new, old) \<Rightarrow> (w\<lparr>po_objs := (po_objs w)[j := old] @ [new]\<rparr>, Ok ()))
   | PromiseMoveAssigned i j \<Rightarrow>
       (case obj_assign (i = j) (po_objs w ! i) (po_objs w ! j) (po_loop w) of ((this, other), l, d) \<Rightarrow>
          (w\<lparr>po_objs := (po_objs w)[i := this, j := other], po_loop := l,
             po_destroyed := po_destroyed w @ option_list d\<rparr>, Ok ()))
   | PromiseDestroyed i \<Rightarrow> po_release i (obj_destroy (po_objs w ! i) (po_loop w)) w
   | PromiseCancelled i \<Rightarrow> po_release i (obj_cancel (po_objs w ! i) (po_loop w)) w
   | PromiseAwaited i \<Rightarrow> po_put i (obj_await (po_objs w ! i) (po_loop w)) w
   | PromiseTaken i \<Rightarrow> po_put i ((obj_take (po_objs w ! i), po_loop w), Ok ()) w
   | CoroutineScheduled i \<Rightarrow>
       (w\<lparr>po_loop := Loop_enqueue (Some (hd (obj_frame (po_objs w ! i)))) (po_loop w)\<rparr>, Ok ())
   | CoroutineEnded i r \<Rightarrow> po_put i (obj_end r (po_objs w ! i) (po_loop w)) w
   | CoroutineYielded i v \<Rightarrow> po_put i (obj_yield v (po_objs w ! i) (po_loop w)) w
   | NextResumed \<Rightarrow> (w\<lparr>po_loop := fst (Loop_getNext (po_fin w) (po_loop w))\<rparr>, Ok ()))"

text \<open>
  The rules: coroutines have fresh numbers; objects of one kind are assigned to each other; a promise is
  awaited at most once, a generator when it has nothing to deliver; only an unfinished
  coroutine is scheduled, and one that ends or yields is running, not in the ready queue.
\<close>

definition po_owned :: "'v promise_objs \<Rightarrow> coro list" where
  "po_owned w = concat (map obj_frame (po_objs w))"

abbreviation po_pending :: "loop \<Rightarrow> coro set" where
  "po_pending l \<equiv> set (loop_pending (\<lambda>c. False) l)"

fun same_kind :: "'v pobj \<Rightarrow> 'v pobj \<Rightarrow> bool" where
  "same_kind (ValueP p) (ValueP q) = True"
| "same_kind (VoidP p) (VoidP q) = True"
| "same_kind (GenP p) (GenP q) = True"
| "same_kind x y = False"

fun obj_awaitable :: "'v pobj \<Rightarrow> bool" where
  "obj_awaitable (ValueP (Some c)) = (pc_state c = Init)"
| "obj_awaitable (VoidP (Some c)) = (vc_state c = Init)"
| "obj_awaitable (GenP (Some c)) = (pc_state c \<noteq> WaitedOn \<and> \<not> MultiPromiseAwaiter_await_ready (Some c))"
| "obj_awaitable _ = False"

definition obj_running :: "loop \<Rightarrow> 'v pobj \<Rightarrow> bool" where
  "obj_running l x \<longleftrightarrow> obj_unfinished x \<and> set (obj_frame x) \<inter> po_pending l = {}"

definition promise_guard :: "'v promise_act \<Rightarrow> 'v promise_objs \<Rightarrow> bool" where
  "promise_guard e w = (let n = length (po_objs w); x = (\<lambda>i. po_objs w ! i) in case e of
     PromiseCalled k c \<Rightarrow> c \<noteq> the_caller \<and> c \<notin> set (po_owned w) \<and> c \<notin> set (po_destroyed w)
   | PromiseMoved j \<Rightarrow> j < n
   | PromiseMoveAssigned i j \<Rightarrow> i < n \<and> j < n \<and> same_kind (x i) (x j)
   | PromiseDestroyed i \<Rightarrow> i < n
   | PromiseCancelled i \<Rightarrow> i < n
   | PromiseAwaited i \<Rightarrow> i < n \<and> obj_awaitable (x i)
   | PromiseTaken i \<Rightarrow> i < n
   | CoroutineScheduled i \<Rightarrow> i < n \<and> obj_unfinished (x i)
   | CoroutineEnded i r \<Rightarrow> i < n \<and> obj_running (po_loop w) (x i)
   | CoroutineYielded i v \<Rightarrow> i < n \<and> obj_running (po_loop w) (x i) \<and> (case x i of GenP p \<Rightarrow> True | _ \<Rightarrow> False)
   | NextResumed \<Rightarrow> True)"

definition promise_called :: "'v promise_act \<Rightarrow> coro list" where
  "promise_called e = (case e of PromiseCalled k c \<Rightarrow> [c] | _ \<Rightarrow> [])"

section \<open>The interface\<close>

locale accounting = guarded_system step guard inv
  for step :: "'e \<Rightarrow> 's \<Rightarrow> 's \<times> unit res" and guard :: "'e \<Rightarrow> 's \<Rightarrow> bool" and inv :: "'s \<Rightarrow> bool" +
  fixes account :: "'s \<Rightarrow> 'r multiset"
    and acquired :: "'e \<Rightarrow> 'r list"
  assumes step_account: "inv s \<Longrightarrow> guard e s \<Longrightarrow> step e s = (s', Ok ()) \<Longrightarrow> account s' = account s + mset (acquired e)"
begin

lemma run_account:
  "inv s \<Longrightarrow> guarded_run step guard es s \<Longrightarrow>
     \<exists>s'. res_run step es s = (s', Ok ()) \<and> inv s' \<and> account s' = account s + mset (concat (map acquired es))"
proof (induction es arbitrary: s)
  case (Cons e es)
  then obtain s1 where s1: "step e s = (s1, Ok ())" "inv s1" using step_keeps [of s e] by auto
  with Cons.prems Cons.IH [OF s1(2)] step_account [of s e s1] show ?case by (auto simp: ac_simps)
qed simp

end

text \<open>Changing one of several owners.\<close>

lemma held_update:
  fixes g :: "'a \<Rightarrow> 'b multiset"
  assumes "i < length xs"
  shows "sum_list (map g (xs[i := v])) + g (xs ! i) = sum_list (map g xs) + g v"
  using assms
proof (induction xs arbitrary: i)
  case (Cons x xs)
  then show ?case by (cases i) (auto simp: ac_simps)
qed simp

text \<open>Moving what \<open>j\<close> owns to \<open>i\<close>, which gives up what it owned.\<close>

lemma held_move:
  fixes g :: "'a \<Rightarrow> 'b multiset"
  assumes "i < length xs" "j < length xs" "i \<noteq> j" "g null = {#}"
  shows "sum_list (map g (xs[i := xs ! j, j := null])) + g (xs ! i) = sum_list (map g xs)"
proof -
  let ?ys = "xs[i := xs ! j]"
  have "sum_list (map g (?ys[j := null])) + g (xs ! j) = sum_list (map g ?ys)"
    using held_update [of j ?ys g null] assms(2-4) by simp
  then have "sum_list (map g (?ys[j := null])) + g (xs ! i) + g (xs ! j) = sum_list (map g ?ys) + g (xs ! i)"
    by (simp only: ac_simps)
  also have "\<dots> = sum_list (map g xs) + g (xs ! j)" by (rule held_update [OF assms(1)])
  finally show ?thesis by simp
qed

section \<open>The invariant\<close>

text \<open>Every core has its coroutine and at most the caller waits for it; a generator is suspended only while its core is finished.\<close>

fun obj_inv :: "'v pobj \<Rightarrow> bool" where
  "obj_inv (ValueP (Some c)) = (core_inv c \<and> pc_coroutine c \<noteq> None \<and> pc_waiting c \<in> {None, Some the_caller})"
| "obj_inv (VoidP (Some c)) = (vcore_inv c \<and> vc_coroutine c \<noteq> None \<and> vc_waiting c \<in> {None, Some the_caller})"
| "obj_inv (GenP (Some c)) = (core_inv c \<and> pc_coroutine c \<noteq> None \<and> pc_waiting c \<in> {None, Some the_caller} \<and>
     (mc_suspended c \<longrightarrow> pc_state c = Finished) \<and> (mc_terminated c \<longrightarrow> pc_state c = Finished))"
| "obj_inv _ = True"

definition obj_live :: "'v pobj \<Rightarrow> coro set" where
  "obj_live x = (if obj_unfinished x then set (obj_frame x) else {})"

definition po_live :: "'v promise_objs \<Rightarrow> coro set" where
  "po_live w = \<Union> (obj_live ` set (po_objs w))"

definition po_inv :: "'v promise_objs \<Rightarrow> bool" where
  "po_inv w \<longleftrightarrow> (\<forall>x \<in> set (po_objs w). obj_inv x) \<and> distinct (po_owned w @ po_destroyed w) \<and>
     the_caller \<notin> set (po_owned w @ po_destroyed w) \<and> po_pending (po_loop w) \<subseteq> insert the_caller (po_live w)"

text \<open>What an operation on a core may do to its object and the ready queue.\<close>

definition obj_keeps :: "'v pobj \<times> loop \<Rightarrow> 'v pobj \<times> loop \<Rightarrow> bool" where
  "obj_keeps xl xl' = (case (xl, xl') of ((x, l), (x', l')) \<Rightarrow>
     obj_inv x' \<and> obj_frame x' = obj_frame x \<and>
     po_pending l' \<subseteq> insert the_caller (po_pending l \<union> obj_live x') \<and> (obj_live x - obj_live x') \<inter> po_pending l = {})"

lemmas pending_simps = loop_pending_enqueue loop_pending_cancel

lemmas core_ops = PromiseCore_setHandle_def VoidCore_setHandle_def MultiPromiseCore_setHandle_def
  MultiPromiseCore_resumeGenerator_def PromiseCore_resume_def VoidCore_resume_def core_finish_def vcore_finish_def
  Coroutine_return_value_def Coroutine_unhandled_exception_def PromiseCore_except_def
  VoidCoroutine_return_void_def VoidCoroutine_unhandled_exception_def VoidCore_except_def
  Generator_return_void_def Generator_unhandled_exception_def Generator_yield_value_def
  MultiPromiseCore_setTerminated_def MultiPromiseCore_isTerminated_def
  YieldAwaiter_await_suspend_def MultiPromiseCore_suspendGenerator_def
  PromiseAwaiter_await_resume_def VoidAwaiter_await_resume_def MultiPromiseAwaiter_await_resume_def
  MultiPromiseAwaiter_await_ready_def

lemma obj_await_keeps:
  assumes "obj_inv x" "obj_awaitable x"
  shows "snd (obj_await x l) = Ok () \<and> obj_keeps (x, l) (fst (obj_await x l))"
  using assms
  by (cases "(x, l)" rule: obj_await.cases)
     (auto simp: obj_keeps_def obj_live_def core_ops core_inv_def vcore_inv_def option_list_def pending_simps split: option.splits)

lemma obj_end_keeps:
  assumes "obj_inv x" "obj_running l x"
  shows "snd (obj_end r x l) = Ok () \<and> obj_keeps (x, l) (fst (obj_end r x l))"
  using assms
  by (cases "(r, x, l)" rule: obj_end.cases; cases r)
     (simp_all add: obj_keeps_def obj_live_def obj_running_def core_ops core_inv_def vcore_inv_def option_list_def pending_simps
        split: option.splits promise_state.splits, auto, metis promise_state.exhaust)

lemma obj_yield_keeps:
  assumes "obj_inv x" "obj_running l x" "case x of GenP p \<Rightarrow> True | _ \<Rightarrow> False"
  shows "snd (obj_yield v x l) = Ok () \<and> obj_keeps (x, l) (fst (obj_yield v x l))"
  using assms
  by (cases "(v, x, l)" rule: obj_yield.cases)
     (auto simp: obj_keeps_def obj_live_def obj_running_def core_ops core_inv_def option_list_def pending_simps split: option.splits)

lemma obj_take_keeps:
  assumes "obj_inv x"
  shows "obj_keeps (x, l) (obj_take x, l)"
  using assms
  by (cases x rule: obj_take.cases)
     (auto simp: obj_keeps_def obj_live_def core_ops core_inv_def vcore_inv_def VoidCore_stale_def VoidCore_ready_def
       split: option.splits sum.splits if_splits)

text \<open>Giving up the coroutine: it is destroyed and off the ready queue.\<close>

definition obj_releases :: "'v pobj \<times> loop \<Rightarrow> 'v pobj \<times> loop \<times> coro option \<Rightarrow> bool" where
  "obj_releases xl r = (case (xl, r) of ((x, l), (x', l', d)) \<Rightarrow>
     obj_inv x' \<and> mset (obj_frame x') + mset (option_list d) = mset (obj_frame x) \<and>
     po_pending l' \<subseteq> po_pending l - (obj_live x - obj_live x'))"

lemmas release_ops = PromiseCore_destroyCoroutine_def VoidCore_destroyCoroutine_def MultiPromise_cancel_def
  MultiPromise_destroy_def MultiPromiseCore_cancelGenerator_def MultiPromiseCore_setTerminated_def
  Promise_destroy_def VoidPromise_destroy_def obj_releases_def obj_live_def

lemma obj_destroy_releases: "obj_inv x \<Longrightarrow> obj_releases (x, l) (obj_destroy x l)"
  by (cases x rule: obj_inv.cases) (auto simp: release_ops option_list_def pending_simps Let_def split: option.splits)

lemma obj_cancel_releases: "obj_inv x \<Longrightarrow> obj_releases (x, l) (obj_cancel x l)"
  by (cases x rule: obj_inv.cases) (auto simp: release_ops option_list_def pending_simps Let_def split: option.splits)

text \<open>An assignment is the destruction of the target and a move into it.\<close>

lemma obj_assign_moves:
  assumes "same_kind x y" "obj_inv x"
  obtains null l' d where "obj_assign False x y l = ((y, null), l', d)" "obj_inv null" "obj_frame null = []"
    "obj_live null = {}" "obj_releases (x, l) (null, l', d)"
proof -
  have "\<exists>null l' d. obj_assign False x y l = ((y, null), l', d) \<and> obj_inv null \<and> obj_frame null = [] \<and>
      obj_live null = {} \<and> obj_releases (x, l) (null, l', d)"
    using assms
    by (cases "(x, y)" rule: same_kind.cases; cases x rule: obj_inv.cases)
       (auto simp: release_ops Promise_move_assign_def VoidPromise_move_assign_def MultiPromise_move_assign_def
         option_list_def pending_simps split: option.splits)
  then show ?thesis using that by blast
qed

lemma obj_assign_self: "same_kind x x \<Longrightarrow> obj_assign True x x l = ((x, x), l, None)"
  by (cases x) (auto simp: Promise_move_assign_def VoidPromise_move_assign_def MultiPromise_move_assign_def)

lemma obj_move_moves:
  obtains null where "obj_move x = (x, null)" "obj_inv null" "obj_frame null = []" "obj_live null = {}"
  by (cases x) (auto simp: Promise_move_def VoidPromise_move_def MultiPromise_move_def obj_live_def)

lemma obj_call_owns:
  "obj_inv (obj_call k c)" "obj_frame (obj_call k c) = [c]"
  by (cases k; simp add: Coroutine_get_return_object_def VoidCoroutine_get_return_object_def Generator_get_return_object_def
      Coroutine_initial_suspend_def VoidCoroutine_initial_suspend_def Generator_initial_suspend_def PromiseCore_setRunning_def
      VoidCore_setRunning_def PromiseCore_init_def VoidCore_init_def MultiPromiseCore_init_def core_inv_def vcore_inv_def
      option_list_def)+

text \<open>Replacing one object of several.\<close>

lemma subset_via: "J \<subseteq> N \<Longrightarrow> M \<subseteq> N \<union> J \<Longrightarrow> A \<subseteq> M \<union> (I - J) \<Longrightarrow> A \<subseteq> N \<union> I"
  by blast

lemma pending_via:
  assumes "P \<subseteq> insert t (Q \<union> X)" "(I - X) \<inter> Q = {}" "Q \<subseteq> insert t L" "L \<subseteq> N \<union> (I - X)" "X \<subseteq> N"
  shows "P \<subseteq> insert t N"
  using assms by blast

lemma release_via: "P \<subseteq> Q - (I - X) \<Longrightarrow> Q \<subseteq> insert t L \<Longrightarrow> L \<subseteq> N \<union> (I - X) \<Longrightarrow> P \<subseteq> insert t N"
  by blast

lemma mset_via:
  fixes a b c s s' :: "'a multiset"
  assumes "a + b = c" "s' + c = s + a"
  shows "s' + b = s"
proof -
  have "s' + (a + b) = s + a" using assms by simp
  then have "(s' + b) + a = s + a" by (simp only: ac_simps)
  then show ?thesis by (simp only: add_right_cancel)
qed

lemma live_update:
  assumes "i < length xs"
  shows "\<Union> (obj_live ` set xs) \<subseteq> \<Union> (obj_live ` set (xs[i := x])) \<union> (obj_live (xs ! i) - obj_live x)"
proof
  fix c assume "c \<in> \<Union> (obj_live ` set xs)"
  then obtain k where k: "k < length xs" "c \<in> obj_live (xs ! k)" by (auto simp: in_set_conv_nth)
  show "c \<in> \<Union> (obj_live ` set (xs[i := x])) \<union> (obj_live (xs ! i) - obj_live x)"
  proof (cases "c \<in> obj_live x")
    case True
    with assms show ?thesis using set_update_memI [of i xs x] by blast
  next
    case False
    show ?thesis
    proof (cases "k = i")
      case True
      with k False show ?thesis by simp
    next
      case k_i: False
      then have "xs ! k \<in> set (xs[i := x])" using k(1) by (metis length_list_update nth_list_update_neq nth_mem)
      with k(2) show ?thesis by blast
    qed
  qed
qed

lemma live_move:
  assumes "i < length xs" "j < length xs" "i \<noteq> j" "obj_live null = {}"
  shows "\<Union> (obj_live ` set xs) \<subseteq> \<Union> (obj_live ` set (xs[i := xs ! j, j := null])) \<union> obj_live (xs ! i)"
proof -
  have "obj_live (xs ! j) \<subseteq> \<Union> (obj_live ` set (xs[i := xs ! j, j := null]))"
    using set_update_memI [of i "xs[j := null]" "xs ! j"] assms(1,3) by (auto simp: list_update_swap)
  moreover have "\<Union> (obj_live ` set (xs[i := xs ! j])) \<subseteq>
      \<Union> (obj_live ` set (xs[i := xs ! j, j := null])) \<union> obj_live (xs ! j)"
    using live_update [of j "xs[i := xs ! j]" null] assms(2-4) by simp
  ultimately show ?thesis using live_update [OF assms(1), of "xs ! j"] by (rule_tac subset_via)
qed

lemma owned_sum: "mset (po_owned w) = sum_list (map (\<lambda>x. mset (obj_frame x)) (po_objs w))"
proof -
  have "mset (concat (map obj_frame xs)) = sum_list (map (\<lambda>x. mset (obj_frame x)) xs)" for xs :: "'a pobj list"
    by (induction xs) simp_all
  then show ?thesis by (simp add: po_owned_def)
qed

text \<open>What a step must give for the invariant and the account.\<close>

definition step_ok :: "'v promise_act \<Rightarrow> 'v promise_objs \<Rightarrow> 'v promise_objs \<Rightarrow> bool" where
  "step_ok e w w' \<longleftrightarrow> (\<forall>x \<in> set (po_objs w'). obj_inv x) \<and>
     mset (po_owned w' @ po_destroyed w') = mset (po_owned w @ po_destroyed w) + mset (promise_called e) \<and>
     po_pending (po_loop w') \<subseteq> insert the_caller (po_live w')"

definition po_frames :: "'v pobj list \<Rightarrow> coro multiset" where
  "po_frames xs = sum_list (map (\<lambda>x. mset (obj_frame x)) xs)"

lemma step_okI:
  assumes "\<forall>x \<in> set (po_objs w'). obj_inv x" "po_pending (po_loop w') \<subseteq> insert the_caller (\<Union> (obj_live ` set (po_objs w')))"
    "po_frames (po_objs w') + mset ds = po_frames (po_objs w) + mset (promise_called e)"
    "po_destroyed w' = po_destroyed w @ ds"
  shows "step_ok e w w'"
proof -
  have "po_frames (po_objs w') + (mset (po_destroyed w) + mset ds) =
      po_frames (po_objs w') + mset ds + mset (po_destroyed w)" by (simp only: ac_simps)
  also have "\<dots> = po_frames (po_objs w) + mset (po_destroyed w) + mset (promise_called e)"
    unfolding assms(3) by (simp only: ac_simps)
  finally show ?thesis using assms(1,2,4) by (simp add: step_ok_def owned_sum po_frames_def po_live_def)
qed

lemma step_ok_inv:
  assumes "po_inv w" "promise_guard e w" "step_ok e w w'"
  shows "po_inv w'"
proof -
  have "distinct (promise_called e @ po_owned w @ po_destroyed w)" "the_caller \<notin> set (promise_called e @ po_owned w @ po_destroyed w)"
    using assms(1,2) by (auto simp: po_inv_def promise_guard_def promise_called_def split: promise_act.splits)
  moreover have "mset (po_owned w' @ po_destroyed w') = mset (promise_called e @ po_owned w @ po_destroyed w)"
    using assms(3) by (simp add: step_ok_def ac_simps)
  ultimately show ?thesis
    using assms(3) mset_eq_imp_distinct_iff mset_eq_setD unfolding po_inv_def step_ok_def by metis
qed

lemma put_ok:
  assumes "po_inv w" "i < length (po_objs w)" "snd r = Ok ()" "obj_keeps (po_objs w ! i, po_loop w) (fst r)"
    "promise_called e = []"
  shows "\<exists>w'. po_put i r w = (w', Ok ()) \<and> step_ok e w w'"
proof -
  obtain x l where r: "r = ((x, l), Ok ())" using assms(3) by (metis prod.collapse)
  let ?xs = "po_objs w"
  note k = assms(4) [unfolded r obj_keeps_def fst_conv prod.case]
  have "po_frames (?xs[i := x]) = po_frames ?xs"
    using held_update [OF assms(2), of "\<lambda>x. mset (obj_frame x)" x] k by (simp add: po_frames_def)
  moreover have "po_pending l \<subseteq> insert the_caller (\<Union> (obj_live ` set (?xs[i := x])))"
  proof (rule pending_via)
    show "po_pending l \<subseteq> insert the_caller (po_pending (po_loop w) \<union> obj_live x)"
      "(obj_live (?xs ! i) - obj_live x) \<inter> po_pending (po_loop w) = {}" using k by simp_all
    show "po_pending (po_loop w) \<subseteq> insert the_caller (\<Union> (obj_live ` set ?xs))"
      using assms(1) by (simp add: po_inv_def po_live_def)
    show "obj_live x \<subseteq> \<Union> (obj_live ` set (?xs[i := x]))" using set_update_memI [OF assms(2), of x] by blast
  qed (rule live_update [OF assms(2)])
  moreover have "\<forall>y \<in> set (?xs[i := x]). obj_inv y"
    using k assms(1) set_update_subset_insert [of ?xs i x] unfolding po_inv_def by blast
  ultimately show ?thesis using assms(5) step_okI [of "w\<lparr>po_objs := ?xs[i := x], po_loop := l\<rparr>" "[]" w e]
    by (simp add: po_put_def r)
qed

lemma release_ok:
  assumes "po_inv w" "i < length (po_objs w)" "obj_releases (po_objs w ! i, po_loop w) r" "promise_called e = []"
  shows "\<exists>w'. po_release i r w = (w', Ok ()) \<and> step_ok e w w'"
proof -
  obtain x l d where r: "r = (x, l, d)" by (metis prod.collapse)
  let ?xs = "po_objs w"
  note k = assms(3) [unfolded r obj_releases_def prod.case]
  have "po_frames (?xs[i := x]) + mset (option_list d) = po_frames ?xs"
    using mset_via [OF _ held_update [OF assms(2), of "\<lambda>x. mset (obj_frame x)" x]] k by (simp add: po_frames_def)
  moreover have "po_pending l \<subseteq> insert the_caller (\<Union> (obj_live ` set (?xs[i := x])))"
  proof (rule release_via)
    show "po_pending l \<subseteq> po_pending (po_loop w) - (obj_live (?xs ! i) - obj_live x)" using k by simp
    show "po_pending (po_loop w) \<subseteq> insert the_caller (\<Union> (obj_live ` set ?xs))"
      using assms(1) by (simp add: po_inv_def po_live_def)
  qed (rule live_update [OF assms(2)])
  moreover have "\<forall>y \<in> set (?xs[i := x]). obj_inv y"
    using k assms(1) set_update_subset_insert [of ?xs i x] unfolding po_inv_def by blast
  ultimately show ?thesis
    using assms(4) step_okI [of "w\<lparr>po_objs := ?xs[i := x], po_loop := l, po_destroyed := po_destroyed w @ option_list d\<rparr>"
        "option_list d" w e]
    by (simp add: po_release_def r)
qed

lemma assign_ok:
  assumes "po_inv w" "i < length (po_objs w)" "j < length (po_objs w)" "same_kind (po_objs w ! i) (po_objs w ! j)"
  shows "\<exists>w'. promise_step (PromiseMoveAssigned i j) w = (w', Ok ()) \<and> step_ok (PromiseMoveAssigned i j) w w'"
proof (cases "i = j")
  case True
  with assms show ?thesis
    by (auto simp: promise_step_def obj_assign_self step_ok_def po_inv_def po_live_def po_owned_def promise_called_def option_list_def)
next
  case False
  let ?xs = "po_objs w"
  have "obj_inv (?xs ! i)" using assms(1,2) by (simp add: po_inv_def)
  then obtain null l d where a: "obj_assign False (?xs ! i) (?xs ! j) (po_loop w) = ((?xs ! j, null), l, d)"
    and null: "obj_inv null" "obj_frame null = []" "obj_live null = {}"
    and rel: "obj_releases (?xs ! i, po_loop w) (null, l, d)"
    using obj_assign_moves [OF assms(4)] by blast
  let ?ys = "?xs[i := ?xs ! j, j := null]"
  note k = rel [unfolded obj_releases_def prod.case]
  have "po_frames ?ys + mset (option_list d) = po_frames ?xs"
    using held_move [OF assms(2,3) False, of "\<lambda>x. mset (obj_frame x)" null] null(2) k by (simp add: po_frames_def)
  moreover have "po_pending l \<subseteq> insert the_caller (\<Union> (obj_live ` set ?ys))"
  proof (rule release_via)
    show "po_pending l \<subseteq> po_pending (po_loop w) - (obj_live (?xs ! i) - obj_live null)" using k by simp
    show "po_pending (po_loop w) \<subseteq> insert the_caller (\<Union> (obj_live ` set ?xs))"
      using assms(1) by (simp add: po_inv_def po_live_def)
    show "\<Union> (obj_live ` set ?xs) \<subseteq> \<Union> (obj_live ` set ?ys) \<union> (obj_live (?xs ! i) - obj_live null)"
      using live_move [where null = null, OF assms(2,3) False null(3)] null(3) by simp
  qed
  moreover have "set ?ys \<subseteq> insert null (set ?xs)"
    using set_update_subset_insert [of "?xs[i := ?xs ! j]" j null] set_update_subset_insert [of ?xs i "?xs ! j"]
      nth_mem [OF assms(3)] by blast
  then have "\<forall>y \<in> set ?ys. obj_inv y" using assms(1) null(1) unfolding po_inv_def by blast
  ultimately have "step_ok (PromiseMoveAssigned i j) w
      (w\<lparr>po_objs := ?ys, po_loop := l, po_destroyed := po_destroyed w @ option_list d\<rparr>)"
    by (intro step_okI [where ds = "option_list d"]) (simp_all add: promise_called_def)
  with False a show ?thesis by (simp add: promise_step_def)
qed

lemma move_ok:
  assumes "po_inv w" "j < length (po_objs w)"
  shows "\<exists>w'. promise_step (PromiseMoved j) w = (w', Ok ()) \<and> step_ok (PromiseMoved j) w w'"
proof -
  let ?xs = "po_objs w"
  obtain null where a: "obj_move (?xs ! j) = (?xs ! j, null)" and null: "obj_inv null" "obj_frame null = []" "obj_live null = {}"
    by (rule obj_move_moves)
  have "po_frames (?xs[j := null] @ [?xs ! j]) = po_frames ?xs"
    using held_update [OF assms(2), of "\<lambda>x. mset (obj_frame x)" null] null(2) by (simp add: po_frames_def)
  moreover have "\<Union> (obj_live ` set ?xs) \<subseteq> \<Union> (obj_live ` set (?xs[j := null] @ [?xs ! j]))"
    using live_update [OF assms(2), of null] null(3) by (simp add: Un_commute)
  then have "po_pending (po_loop w) \<subseteq> insert the_caller (\<Union> (obj_live ` set (?xs[j := null] @ [?xs ! j])))"
    using assms(1) unfolding po_inv_def po_live_def by (meson insert_mono subset_trans)
  moreover have "\<forall>y \<in> set (?xs[j := null]). obj_inv y" "obj_inv (?xs ! j)"
    using assms null(1) set_update_subset_insert [of ?xs j null] unfolding po_inv_def by (blast, simp)
  ultimately have "step_ok (PromiseMoved j) w (w\<lparr>po_objs := ?xs[j := null] @ [?xs ! j]\<rparr>)"
    by (intro step_okI [where ds = "[]"]) (auto simp: promise_called_def)
  with a show ?thesis by (simp add: promise_step_def)
qed

lemma unfinished_frame: "obj_inv x \<Longrightarrow> obj_unfinished x \<Longrightarrow> obj_frame x = [hd (obj_frame x)]"
  by (cases x rule: obj_unfinished.cases) (auto simp: option_list_def)

lemma promise_step_ok:
  assumes "po_inv w" "promise_guard e w"
  shows "\<exists>w'. promise_step e w = (w', Ok ()) \<and> step_ok e w w'"
proof -
  have inv: "i < length (po_objs w) \<Longrightarrow> obj_inv (po_objs w ! i)" for i using assms(1) by (simp add: po_inv_def)
  show ?thesis
  proof (cases e)
    case (PromiseCalled k c)
    with assms obj_call_owns [of k c] show ?thesis
      by (auto simp: promise_step_def step_ok_def po_inv_def po_live_def po_owned_def promise_called_def)
  next
    case (CoroutineScheduled i)
    with assms(2) inv [of i] have "obj_live (po_objs w ! i) = set (obj_frame (po_objs w ! i))" "po_objs w ! i \<in> set (po_objs w)"
      "obj_frame (po_objs w ! i) = [hd (obj_frame (po_objs w ! i))]"
      using unfinished_frame [of "po_objs w ! i"] by (simp_all add: promise_guard_def obj_live_def)
    then have "hd (obj_frame (po_objs w ! i)) \<in> po_live w" unfolding po_live_def by (metis UN_I list.set_intros(1))
    with assms(1) CoroutineScheduled show ?thesis
      by (auto simp: promise_step_def step_ok_def po_inv_def po_live_def po_owned_def promise_called_def pending_simps)
  next
    case NextResumed
    obtain pre where "loop_pending (\<lambda>c. False) (po_loop w) = pre @ loop_pending (\<lambda>c. False) (fst (Loop_getNext (po_fin w) (po_loop w)))"
      using loop_getNext_suffix [of "po_fin w" "po_loop w"] by (metis prod.collapse)
    with assms(1) NextResumed show ?thesis
      by (auto simp: promise_step_def step_ok_def po_inv_def po_live_def po_owned_def promise_called_def)
  next
    case (PromiseMoved j)
    with assms move_ok show ?thesis by (simp add: promise_guard_def Let_def)
  next
    case (PromiseMoveAssigned i j)
    with assms show ?thesis using assign_ok [of w i j] by (simp add: promise_guard_def Let_def)
  qed (use assms inv in \<open>auto simp: promise_step_def promise_guard_def Let_def promise_called_def
         obj_await_keeps obj_end_keeps obj_yield_keeps
         intro!: put_ok release_ok obj_destroy_releases obj_cancel_releases obj_take_keeps\<close>)
qed

interpretation promise_objects: accounting promise_step promise_guard po_inv
  "\<lambda>w. mset (po_owned w @ po_destroyed w)" promise_called
proof unfold_locales
  fix w :: "'v promise_objs" and e w'
  assume w: "po_inv w" "promise_guard e w"
  show "\<exists>w'. promise_step e w = (w', Ok ()) \<and> po_inv w'"
    using promise_step_ok [OF w] step_ok_inv [OF w] by blast
  assume "promise_step e w = (w', Ok ())"
  then show "mset (po_owned w' @ po_destroyed w') = mset (po_owned w @ po_destroyed w) + mset (promise_called e)"
    using promise_step_ok [OF w] by (auto simp: step_ok_def)
qed

section \<open>Properties\<close>

definition po_start :: "'v promise_objs" where
  "po_start = \<lparr>po_objs = [], po_loop = Loop_init, po_destroyed = []\<rparr>"



end
