(* ===== verification/File_System.thy ===== *)
theory File_System
  imports Request_Pool Ownership
begin

text \<open>
  File operations of \<open>src/uvco/fs.h\<close> and \<open>fs.cc\<close>: the awaiter \<open>FileOpAwaiter_\<close> that all of them
  share, the operations of \<open>Directory\<close> and \<open>File\<close> with what they make of the result, and the
  ownership of file descriptors and directory handles by movable objects.

  An operation is in flight between its submission and libuv's callback (\<open>fo_outstanding\<close>); the
  request is deleted by the awaiter, or by the callback when the awaiter has released it.
\<close>

section \<open>FileOpAwaiter\<close>

record file_op =
  fo_req :: bool
  fo_data :: bool
  fo_handle :: handle
  fo_result :: "int option"
  fo_outstanding :: bool
  fo_cleanups :: nat
  fo_deleted :: nat
  fo_loop :: loop

definition FileOpAwaiter_new :: "loop \<Rightarrow> file_op" where
  "FileOpAwaiter_new l = \<lparr>fo_req = True, fo_data = False, fo_handle = None, fo_result = None, fo_outstanding = False,
     fo_cleanups = 0, fo_deleted = 0, fo_loop = l\<rparr>"

definition FileOpAwaiter_await_ready :: "file_op \<Rightarrow> bool" where
  "FileOpAwaiter_await_ready a \<longleftrightarrow> fo_result a \<noteq> None"

definition FileOpAwaiter_await_suspend :: "coro \<Rightarrow> file_op \<Rightarrow> file_op \<times> unit res" where
  "FileOpAwaiter_await_suspend h a =
     (if fo_result a \<noteq> None then (a, Abort ''!result_'')
      else if fo_handle a \<noteq> None then (a, Abort ''FileOpAwaiter_ can only be awaited once'')
      else if fo_data a then (a, Abort ''requestDataIsNull(req_.get())'')
      else (a\<lparr>fo_data := True, fo_handle := Some h\<rparr>, Ok ()))"

definition FileOpAwaiter_schedule :: "file_op \<Rightarrow> file_op" where
  "FileOpAwaiter_schedule a = (case fo_handle a of
     None \<Rightarrow> a | Some h \<Rightarrow> a\<lparr>fo_loop := Loop_enqueue (Some h) (fo_loop a), fo_handle := None\<rparr>)"

definition FileOpAwaiter_onFileOpDone :: "int \<Rightarrow> file_op \<Rightarrow> file_op \<times> unit res" where
  "FileOpAwaiter_onFileOpDone result a =
     (let a1 = a\<lparr>fo_outstanding := False\<rparr>
      in if \<not> fo_data a1 \<or> result = UV_ECANCELED
         then (a1\<lparr>fo_cleanups := Suc (fo_cleanups a1), fo_deleted := Suc (fo_deleted a1)\<rparr>, Ok ())
         else (FileOpAwaiter_schedule (a1\<lparr>fo_result := Some result\<rparr>), Ok ()))"

definition file_op_error :: "uv_status \<Rightarrow> exn" where
  "file_op_error st = UvcoStatus st ''file operation failed''"

definition FileOpAwaiter_await_resume :: "file_op \<Rightarrow> file_op \<times> unit res" where
  "FileOpAwaiter_await_resume a = (case fo_result a of
     None \<Rightarrow> (a, Abort ''result_'')
   | Some n \<Rightarrow>
       (if \<not> fo_data a then (a, Abort ''!requestDataIsNull(req_.get())'')
        else (a\<lparr>fo_data := False\<rparr>, if n < 0 then Exn (file_op_error n) else Ok ())))"

text \<open>The destructor, with the \<open>unique_ptr\<close> that owns the request.\<close>

definition FileOpAwaiter_destroy :: "file_op \<Rightarrow> file_op" where
  "FileOpAwaiter_destroy a =
     (if fo_data a then a\<lparr>fo_data := False, fo_req := False\<rparr>
      else a\<lparr>fo_cleanups := Suc (fo_cleanups a), fo_req := False, fo_deleted := Suc (fo_deleted a)\<rparr>)"

section \<open>The operations\<close>

text \<open>
  Every operation submits its request, ignores what libuv returns, and awaits. After that it
  reads the result; \<open>k\<close> is what it makes of it.
\<close>

definition file_op_start :: "coro \<Rightarrow> loop \<Rightarrow> file_op" where
  "file_op_start h l = fst (FileOpAwaiter_await_suspend h ((FileOpAwaiter_new l)\<lparr>fo_outstanding := True\<rparr>))"

definition file_op_end :: "(int \<Rightarrow> 'r) \<Rightarrow> file_op \<Rightarrow> file_op \<times> 'r res" where
  "file_op_end k a = (case FileOpAwaiter_await_resume a of (a1, r) \<Rightarrow>
     (case r of
        Ok u \<Rightarrow> (FileOpAwaiter_destroy a1, Ok (k (the (fo_result a1))))
      | Exn e \<Rightarrow> (FileOpAwaiter_destroy a1, Exn e)
      | Abort m \<Rightarrow> (a1, Abort m)))"

definition Directory_mkdir_end :: "file_op \<Rightarrow> file_op \<times> unit res" where
  "Directory_mkdir_end = file_op_end (\<lambda>n. ())"

definition Directory_rmdir_end :: "file_op \<Rightarrow> file_op \<times> unit res" where
  "Directory_rmdir_end = file_op_end (\<lambda>n. ())"

definition File_unlink_end :: "file_op \<Rightarrow> file_op \<times> unit res" where
  "File_unlink_end = file_op_end (\<lambda>n. ())"

text \<open>\<open>ptr\<close> is the request's pointer, a \<open>uv_dir_t\<close>.\<close>

definition Directory_open_end :: "nat \<Rightarrow> file_op \<Rightarrow> file_op \<times> nat option res" where
  "Directory_open_end ptr = file_op_end (\<lambda>n. Some ptr)"

definition File_open_end :: "file_op \<Rightarrow> file_op \<times> int res" where
  "File_open_end = file_op_end (\<lambda>n. n)"

text \<open>\<open>read(buffer, offset)\<close>: \<open>filled\<close> is the buffer after libuv has written to it.\<close>

definition File_read_end :: "string \<Rightarrow> file_op \<Rightarrow> file_op \<times> (nat \<times> string) res" where
  "File_read_end filled = file_op_end (\<lambda>n. (nat n, take (nat n) filled))"

definition File_write_end :: "file_op \<Rightarrow> file_op \<times> nat res" where
  "File_write_end = file_op_end nat"

text \<open>\<open>Directory::read(span)\<close> copies the entries one by one; \<open>read(cnt)\<close> shortens its vector.\<close>

type_synonym dirent = "string \<times> int"

fun copy_entries :: "nat \<Rightarrow> nat \<Rightarrow> dirent list \<Rightarrow> dirent list \<Rightarrow> dirent list" where
  "copy_entries 0 i dirents buffer = buffer"
| "copy_entries (Suc k) i dirents buffer = copy_entries k (Suc i) dirents (buffer[i := dirents ! i])"

definition Directory_read_span_end :: "dirent list \<Rightarrow> dirent list \<Rightarrow> file_op \<Rightarrow> file_op \<times> (nat \<times> dirent list) res" where
  "Directory_read_span_end dirents buffer = file_op_end (\<lambda>n. (nat n, copy_entries (nat n) 0 dirents buffer))"

definition Directory_read_end :: "nat \<Rightarrow> dirent list \<Rightarrow> file_op \<Rightarrow> file_op \<times> dirent list res" where
  "Directory_read_end cnt dirents a =
     (case Directory_read_span_end dirents (replicate cnt ([], 0)) a of (a1, r) \<Rightarrow>
        (a1, map_res (\<lambda>p. take (fst p) (snd p)) r))"

text \<open>\<open>readAll\<close> yields what \<open>uv_fs_scandir_next\<close> returns until \<open>UV_EOF\<close>.\<close>

fun scandir_loop :: "(uv_status \<times> dirent) list \<Rightarrow> dirent list" where
  "scandir_loop [] = []"
| "scandir_loop ((st, d) # rest) = (if st = UV_EOF then [] else d # scandir_loop rest)"

definition Directory_readAll_end :: "(uv_status \<times> dirent) list \<Rightarrow> file_op \<Rightarrow> file_op \<times> dirent list res" where
  "Directory_readAll_end answers = file_op_end (\<lambda>n. scandir_loop answers)"

section \<open>Operations in flight\<close>

text \<open>
  The operations that share \<open>FileOpAwaiter_\<close>, each with what libuv puts into its request or its buffer,
  and what their promises yield.
\<close>

datatype file_job =
    JobMkdir | JobRmdir | JobUnlink | JobOpendir nat | JobOpen | JobRead string | JobWrite
  | JobReaddir "dirent list" "dirent list" | JobScandir "(uv_status \<times> dirent) list"

datatype file_value = DoneValue | DirValue "nat option" | FileValue int | ReadValue "nat \<times> string" | SizeValue nat
  | FilledValue "nat \<times> dirent list" | EntriesValue "dirent list"

fun file_job_end :: "file_job \<Rightarrow> file_op \<Rightarrow> file_op \<times> file_value res" where
  "file_job_end JobMkdir a = apsnd (map_res (\<lambda>u. DoneValue)) (Directory_mkdir_end a)"
| "file_job_end JobRmdir a = apsnd (map_res (\<lambda>u. DoneValue)) (Directory_rmdir_end a)"
| "file_job_end JobUnlink a = apsnd (map_res (\<lambda>u. DoneValue)) (File_unlink_end a)"
| "file_job_end (JobOpendir ptr) a = apsnd (map_res DirValue) (Directory_open_end ptr a)"
| "file_job_end JobOpen a = apsnd (map_res FileValue) (File_open_end a)"
| "file_job_end (JobRead filled) a = apsnd (map_res ReadValue) (File_read_end filled a)"
| "file_job_end JobWrite a = apsnd (map_res SizeValue) (File_write_end a)"
| "file_job_end (JobReaddir dirents buffer) a = apsnd (map_res FilledValue) (Directory_read_span_end dirents buffer a)"
| "file_job_end (JobScandir answers) a = apsnd (map_res EntriesValue) (Directory_readAll_end answers a)"

text \<open>What a result of libuv means for each of them.\<close>

fun file_job_value :: "file_job \<Rightarrow> nat \<Rightarrow> int \<Rightarrow> file_value" where
  "file_job_value JobMkdir n fd = DoneValue"
| "file_job_value JobRmdir n fd = DoneValue"
| "file_job_value JobUnlink n fd = DoneValue"
| "file_job_value (JobOpendir ptr) n fd = DirValue (Some ptr)"
| "file_job_value JobOpen n fd = FileValue fd"
| "file_job_value (JobRead filled) n fd = ReadValue (n, take n filled)"
| "file_job_value JobWrite n fd = SizeValue n"
| "file_job_value (JobReaddir dirents buffer) n fd = FilledValue (n, copy_entries n 0 dirents buffer)"
| "file_job_value (JobScandir answers) n fd = EntriesValue (scandir_loop answers)"

definition file_job_outcome :: "file_job \<Rightarrow> int \<Rightarrow> file_value res" where
  "file_job_outcome j n = (if n < 0 then Exn (file_op_error n) else Ok (file_job_value j (nat n) n))"

text \<open>
  \<open>Directory::read\<close> gives libuv a vector that lives in its frame; the paths the others pass are
  copied by libuv, and the buffers of \<open>File::read\<close> and \<open>write\<close> are the caller's.
\<close>

fun file_job_in_frame :: "file_job \<Rightarrow> bool" where
  "file_job_in_frame (JobReaddir dirents buffer) = True"
| "file_job_in_frame j = False"

definition file_requests :: "(file_op, file_job, int, file_value) request_ops" where
  "file_requests = \<lparr>ro_start = file_op_start, ro_callback = FileOpAwaiter_onFileOpDone, ro_finish = file_job_end,
     ro_cancel = FileOpAwaiter_destroy, ro_loop = fo_loop, ro_set_loop = (\<lambda>l a. a\<lparr>fo_loop := l\<rparr>), ro_in_frame = file_job_in_frame\<rparr>"

section \<open>Ownership of descriptors\<close>

text \<open>
  \<open>File\<close> objects by number, each with its descriptor (-1 for none), and the descriptors handed to
  \<open>uv_fs_close\<close> in order.
\<close>

record file_world =
  fw_files :: "int list"
  fw_closed :: "int list"

definition File_file :: "int \<Rightarrow> int res" where
  "File_file fd = (if 0 \<le> fd then Ok fd else Abort ''file_ >= 0'')"

definition File_close :: "nat \<Rightarrow> file_world \<Rightarrow> file_world \<times> unit res" where
  "File_close i w =
     (if fw_files w ! i \<noteq> -1
      then (case File_file (fw_files w ! i) of
              Ok fd \<Rightarrow> (w\<lparr>fw_files := (fw_files w)[i := -1], fw_closed := fw_closed w @ [fd]\<rparr>, Ok ())
            | Exn e \<Rightarrow> (w, Exn e) | Abort m \<Rightarrow> (w, Abort m))
      else (w\<lparr>fw_files := (fw_files w)[i := -1]\<rparr>, Ok ()))"

definition File_move :: "nat \<Rightarrow> file_world \<Rightarrow> file_world \<times> unit res" where
  "File_move j w = (w\<lparr>fw_files := (fw_files w)[j := -1] @ [fw_files w ! j]\<rparr>, Ok ())"

definition File_move_assign :: "nat \<Rightarrow> nat \<Rightarrow> file_world \<Rightarrow> file_world \<times> unit res" where
  "File_move_assign i j w =
     (if i = j then (w, Ok ())
      else rbind (File_close i w) (\<lambda>w1 u.
             (w1\<lparr>fw_files := (fw_files w1)[i := fw_files w1 ! j, j := -1]\<rparr>, Ok ())))"

definition File_destroy :: "nat \<Rightarrow> file_world \<Rightarrow> file_world \<times> unit res" where
  "File_destroy i w = File_close i w"

datatype file_act = FileOpened nat | FileMoved nat | FileMoveAssigned nat nat | FileClosed nat | FileDestroyed nat

definition file_step :: "file_act \<Rightarrow> file_world \<Rightarrow> file_world \<times> unit res" where
  "file_step e w = (case e of
     FileOpened fd \<Rightarrow> (w\<lparr>fw_files := fw_files w @ [int fd]\<rparr>, Ok ())
   | FileMoved j \<Rightarrow> File_move j w
   | FileMoveAssigned i j \<Rightarrow> File_move_assign i j w
   | FileClosed i \<Rightarrow> File_close i w
   | FileDestroyed i \<Rightarrow> File_destroy i w)"

text \<open>The objects an event names exist.\<close>

definition file_guard :: "file_act \<Rightarrow> file_world \<Rightarrow> bool" where
  "file_guard e w = (let n = length (fw_files w) in case e of
     FileOpened fd \<Rightarrow> True
   | FileMoved j \<Rightarrow> j < n
   | FileMoveAssigned i j \<Rightarrow> i < n \<and> j < n
   | FileClosed i \<Rightarrow> i < n
   | FileDestroyed i \<Rightarrow> i < n)"

fun opened :: "file_act list \<Rightarrow> int list" where
  "opened [] = []"
| "opened (FileOpened fd # es) = int fd # opened es"
| "opened (e # es) = opened es"

text \<open>\<open>Directory\<close> objects by number, with the handle they own, and the handles closed.\<close>

record dir_world =
  dw_dirs :: "nat option list"
  dw_closed :: "nat list"

definition Directory_close :: "nat \<Rightarrow> dir_world \<Rightarrow> dir_world" where
  "Directory_close i w = (case dw_dirs w ! i of
     None \<Rightarrow> w
   | Some d \<Rightarrow> w\<lparr>dw_dirs := (dw_dirs w)[i := None], dw_closed := dw_closed w @ [d]\<rparr>)"

definition Directory_move :: "nat \<Rightarrow> dir_world \<Rightarrow> dir_world" where
  "Directory_move j w = w\<lparr>dw_dirs := (dw_dirs w)[j := None] @ [dw_dirs w ! j]\<rparr>"

definition Directory_move_assign :: "nat \<Rightarrow> nat \<Rightarrow> dir_world \<Rightarrow> dir_world" where
  "Directory_move_assign i j w =
     (if i = j then w else w\<lparr>dw_dirs := (dw_dirs w)[i := dw_dirs w ! j, j := None]\<rparr>)"

text \<open>The copy constructor is the default one.\<close>

definition Directory_copy :: "nat \<Rightarrow> dir_world \<Rightarrow> dir_world" where
  "Directory_copy j w = w\<lparr>dw_dirs := dw_dirs w @ [dw_dirs w ! j]\<rparr>"

definition Directory_destroy :: "nat \<Rightarrow> dir_world \<Rightarrow> dir_world" where
  "Directory_destroy i w = Directory_close i w"

section \<open>Lemmas\<close>

lemmas file_op_defs =
  file_op_start_def file_op_end_def FileOpAwaiter_new_def FileOpAwaiter_await_suspend_def FileOpAwaiter_schedule_def
  FileOpAwaiter_onFileOpDone_def FileOpAwaiter_await_resume_def FileOpAwaiter_destroy_def

definition fo_settled :: "file_op \<Rightarrow> bool" where
  "fo_settled a \<longleftrightarrow> fo_deleted a = 1 \<and> fo_cleanups a = 1 \<and> \<not> fo_outstanding a \<and> \<not> fo_req a"

definition fo_outcome :: "(int \<Rightarrow> 'r) \<Rightarrow> int \<Rightarrow> 'r res" where
  "fo_outcome k n = (if n < 0 then Exn (file_op_error n) else Ok (k n))"

text \<open>The phases of a file operation.\<close>

definition fo_awaiting :: "coro \<Rightarrow> file_op \<Rightarrow> bool" where
  "fo_awaiting h a \<longleftrightarrow> fo_req a \<and> fo_data a \<and> fo_handle a = Some h \<and> fo_result a = None \<and> fo_outstanding a \<and>
     fo_cleanups a = 0 \<and> fo_deleted a = 0"

definition fo_answered :: "int \<Rightarrow> file_op \<Rightarrow> bool" where
  "fo_answered n a \<longleftrightarrow> fo_req a \<and> fo_data a \<and> fo_handle a = None \<and> fo_result a = Some n \<and> \<not> fo_outstanding a \<and>
     fo_cleanups a = 0 \<and> fo_deleted a = 0"

definition fo_abandoned :: "file_op \<Rightarrow> bool" where
  "fo_abandoned a \<longleftrightarrow> \<not> fo_req a \<and> \<not> fo_data a \<and> fo_outstanding a \<and> fo_cleanups a = 0 \<and> fo_deleted a = 0"

text \<open>Released to a callback that has come already.\<close>

definition fo_late :: "file_op \<Rightarrow> bool" where
  "fo_late a \<longleftrightarrow> \<not> fo_req a \<and> \<not> fo_data a \<and> \<not> fo_outstanding a \<and> fo_cleanups a = 0 \<and> fo_deleted a = 0"

lemmas fo_phases = fo_awaiting_def fo_answered_def fo_abandoned_def fo_late_def fo_settled_def

lemma file_op_end_outcome:
  "fo_answered n a \<Longrightarrow> \<exists>a'. file_op_end k a = (a', fo_outcome k n) \<and> fo_settled a' \<and> fo_loop a' = fo_loop a"
  by (simp add: file_op_defs fo_phases fo_outcome_def)

lemma file_job_end_outcome:
  assumes "fo_answered n a"
  shows "\<exists>a'. file_job_end j a = (a', file_job_outcome j n) \<and> fo_settled a' \<and> fo_loop a' = fo_loop a"
proof (cases j)
  case JobRmdir
  with file_op_end_outcome [OF assms, of "\<lambda>n. ()"] show ?thesis
    by (auto simp: file_job_outcome_def fo_outcome_def Directory_rmdir_end_def)
next
  case JobMkdir
  with file_op_end_outcome [OF assms, of "\<lambda>n. ()"] show ?thesis
    by (auto simp: file_job_outcome_def fo_outcome_def Directory_mkdir_end_def)
next
  case JobUnlink
  with file_op_end_outcome [OF assms, of "\<lambda>n. ()"] show ?thesis
    by (auto simp: file_job_outcome_def fo_outcome_def File_unlink_end_def)
next
  case (JobOpendir ptr)
  with file_op_end_outcome [OF assms, of "\<lambda>n. Some ptr"] show ?thesis
    by (auto simp: file_job_outcome_def fo_outcome_def Directory_open_end_def)
next
  case JobOpen
  with file_op_end_outcome [OF assms, of "\<lambda>n. n"] show ?thesis
    by (auto simp: file_job_outcome_def fo_outcome_def File_open_end_def)
next
  case (JobRead filled)
  with file_op_end_outcome [OF assms, of "\<lambda>n. (nat n, take (nat n) filled)"] show ?thesis
    by (auto simp: file_job_outcome_def fo_outcome_def File_read_end_def)
next
  case JobWrite
  with file_op_end_outcome [OF assms, of nat] show ?thesis
    by (auto simp: file_job_outcome_def fo_outcome_def File_write_end_def)
next
  case (JobReaddir dirents buffer)
  with file_op_end_outcome [OF assms, of "\<lambda>n. (nat n, copy_entries (nat n) 0 dirents buffer)"] show ?thesis
    by (auto simp: file_job_outcome_def fo_outcome_def Directory_read_span_end_def)
next
  case (JobScandir answers)
  with file_op_end_outcome [OF assms, of "\<lambda>n. scandir_loop answers"] show ?thesis
    by (auto simp: file_job_outcome_def fo_outcome_def Directory_readAll_end_def)
qed

interpretation file_pool: uv_request file_requests fo_awaiting fo_answered fo_abandoned "\<lambda>g. fo_settled" fo_late
  "\<lambda>n. n \<noteq> UV_ECANCELED" file_job_outcome
  by unfold_locales
     (use file_job_end_outcome in \<open>auto simp: file_requests_def file_op_defs fo_phases file_job_outcome_def Let_def\<close>)

lemma copy_entries_take:
  "k + i \<le> length dirents \<Longrightarrow> k + i \<le> length buffer \<Longrightarrow>
     copy_entries k i dirents buffer = take i buffer @ take k (drop i dirents) @ drop (i + k) buffer"
proof (induction k arbitrary: i buffer)
  case (Suc k)
  have "copy_entries (Suc k) i dirents buffer =
      take (Suc i) (buffer[i := dirents ! i]) @ take k (drop (Suc i) dirents) @ drop (Suc i + k) (buffer[i := dirents ! i])"
    using Suc by simp
  also have "take (Suc i) (buffer[i := dirents ! i]) = take i buffer @ [dirents ! i]"
    using Suc.prems by (simp add: take_Suc_conv_app_nth)
  also have "drop (Suc i + k) (buffer[i := dirents ! i]) = drop (i + Suc k) buffer" by simp
  also have "(take i buffer @ [dirents ! i]) @ take k (drop (Suc i) dirents) @ drop (i + Suc k) buffer =
      take i buffer @ take (Suc k) (drop i dirents) @ drop (i + Suc k) buffer"
    using Suc.prems by (simp add: Cons_nth_drop_Suc [symmetric])
  finally show ?case .
qed simp

text \<open>The descriptors owned by some object, and the account of all descriptors.\<close>

definition fw_owned :: "file_world \<Rightarrow> int multiset" where
  "fw_owned w = filter_mset (\<lambda>f. f \<noteq> -1) (mset (fw_files w))"

definition fw_account :: "file_world \<Rightarrow> int multiset" where
  "fw_account w = fw_owned w + mset (fw_closed w)"

definition fw_inv :: "file_world \<Rightarrow> bool" where
  "fw_inv w \<longleftrightarrow> (\<forall>f \<in> set (fw_files w). -1 \<le> f)"

definition owned_one :: "int \<Rightarrow> int multiset" where
  "owned_one f = (if f \<noteq> -1 then {#f#} else {#})"

lemma owned_filter: "filter_mset (\<lambda>f. f \<noteq> -1) (mset xs) = sum_list (map owned_one xs)"
  by (induction xs) (auto simp: owned_one_def)

lemmas owned_update = held_update [where g = owned_one, folded owned_filter]

lemmas owned_move = held_move [where g = owned_one and null = "-1", folded owned_filter]

lemma File_close_account:
  assumes "fw_inv w" "i < length (fw_files w)"
  shows "\<exists>w'. File_close i w = (w', Ok ()) \<and> fw_inv w' \<and> fw_account w' = fw_account w \<and>
    fw_files w' = (fw_files w)[i := -1]"
proof -
  have lo: "-1 \<le> fw_files w ! i" using assms by (simp add: fw_inv_def)
  have inv: "\<forall>f \<in> set ((fw_files w)[i := -1]). -1 \<le> f"
    using assms(1) set_update_subset_insert [of "fw_files w" i "-1"] by (auto simp: fw_inv_def)
  show ?thesis
    using lo inv owned_update [OF assms(2), of "-1"]
    by (cases "fw_files w ! i = -1")
       (auto simp: File_close_def File_file_def fw_inv_def fw_account_def fw_owned_def owned_one_def)
qed

lemma file_step_account:
  assumes "fw_inv w" "file_guard e w"
  shows "\<exists>w'. file_step e w = (w', Ok ()) \<and> fw_inv w' \<and> fw_account w' = fw_account w + mset (opened [e])"
proof (cases e)
  case (FileOpened fd)
  with assms show ?thesis by (auto simp: file_step_def fw_inv_def fw_account_def fw_owned_def)
next
  case (FileMoved j)
  then have j: "j < length (fw_files w)" using assms(2) by (simp add: file_guard_def)
  let ?xs = "(fw_files w)[j := -1]"
  have "\<forall>f \<in> set (?xs @ [fw_files w ! j]). -1 \<le> f"
    using assms(1) j set_update_subset_insert [of "fw_files w" j "-1"] by (auto simp: fw_inv_def)
  moreover have "filter_mset (\<lambda>f. f \<noteq> -1) (mset (?xs @ [fw_files w ! j])) = fw_owned w"
    using owned_update [OF j, of "-1"] by (auto simp: fw_owned_def owned_one_def split: if_splits)
  ultimately show ?thesis using FileMoved
    by (simp add: file_step_def File_move_def fw_inv_def fw_account_def fw_owned_def)
next
  case (FileMoveAssigned i j)
  then have ij: "i < length (fw_files w)" "j < length (fw_files w)" using assms(2) by (auto simp: file_guard_def Let_def)
  from File_close_account [OF assms(1) ij(1)] obtain w1 where w1: "File_close i w = (w1, Ok ())" "fw_inv w1"
    "fw_account w1 = fw_account w" "fw_files w1 = (fw_files w)[i := -1]" by blast
  show ?thesis
  proof (cases "i = j")
    case True
    with FileMoveAssigned assms(1) show ?thesis by (simp add: file_step_def File_move_assign_def)
  next
    case False
    let ?ys = "(fw_files w1)[i := fw_files w1 ! j]"
    have "fw_files w1 ! i = -1" using w1(4) ij by simp
    then have "filter_mset (\<lambda>f. f \<noteq> -1) (mset (?ys[j := -1])) = fw_owned w1"
      using owned_move [of i "fw_files w1" j] w1(4) ij False by (simp add: fw_owned_def owned_one_def)
    moreover have "\<forall>f \<in> set (?ys[j := -1]). -1 \<le> f"
      using w1(2,4) ij set_update_subset_insert [of ?ys j "-1"] set_update_subset_insert [of "fw_files w1" i "fw_files w1 ! j"]
      by (fastforce simp: fw_inv_def)
    ultimately show ?thesis using FileMoveAssigned False w1
      by (simp add: file_step_def File_move_assign_def fw_inv_def fw_account_def fw_owned_def)
  qed
next
  case (FileClosed i)
  with assms File_close_account [of w i] show ?thesis by (auto simp: file_step_def file_guard_def)
next
  case (FileDestroyed i)
  with assms File_close_account [of w i] show ?thesis by (auto simp: file_step_def File_destroy_def file_guard_def)
qed

interpretation files: accounting file_step file_guard fw_inv fw_account "\<lambda>e. opened [e]"
  using file_step_account by unfold_locales (blast, fastforce)

lemma opened_concat: "concat (map (\<lambda>e. opened [e]) es) = opened es"
proof (induction es)
  case (Cons e es)
  then show ?case by (cases e) auto
qed simp

section \<open>Properties\<close>


text \<open>Three operations that overlap, one of them cancelled and one failing.\<close>

definition file_traffic :: "(file_job, int) req_event list" where
  "file_traffic = [ReqSubmit (JobRead ''abcdef''), ReqSubmit JobMkdir, ReqSubmit JobOpen, ReqTake 1, ReqDrop 2, ReqWork 1,
     ReqCallback 1 (-17), ReqCallback 2 UV_ECANCELED, ReqCallback 0 3, ReqTurn, ReqTurn]"


text \<open>
  The rule for directory reads is needed: libuv cannot cancel what a worker has taken, and the worker
  then writes to the entries of a frame that is gone.
\<close>

lemma readdir_cancel_race:
  "snd (res_run (rp_step file_requests) [ReqSubmit (JobReaddir dirents buffer), ReqTake 0, ReqDrop 0, ReqWork 0] rp_start) =
     Abort ''use of a destroyed frame''"
  by (simp add: rp_step_def rp_submit_def rp_drop_def rp_work_def rp_start_def rp_logged_def file_requests_def Let_def)

text \<open>
  Reading a directory returns exactly the entries libuv delivered, in order.
\<close>

theorem directory_read_entries:
  assumes "0 \<le> n" "nat n \<le> length dirents" "nat n \<le> cnt" "n \<noteq> UV_ECANCELED"
  shows "\<exists>a2. Directory_read_end cnt dirents (fst (FileOpAwaiter_onFileOpDone n (file_op_start h l))) =
    (a2, Ok (take (nat n) dirents)) \<and> fo_settled a2"
proof -
  have "fo_answered n (fst (FileOpAwaiter_onFileOpDone n (file_op_start h l)))"
    using assms(4) by (simp add: file_op_defs fo_answered_def Let_def)
  from file_op_end_outcome [OF this, of "\<lambda>n. (nat n, copy_entries (nat n) 0 dirents (replicate cnt ([], 0)))"]
  show ?thesis using assms copy_entries_take [of "nat n" 0 dirents "replicate cnt ([], 0)"]
    by (auto simp: Directory_read_end_def Directory_read_span_end_def fo_outcome_def)
qed

theorem directory_read_entries_witness:
  "\<exists>a2. Directory_read_end 64 [(''a'', 1), (''b'', 2), ([], 0)] (fst (FileOpAwaiter_onFileOpDone 2 (file_op_start 7 Loop_init))) =
    (a2, Ok [(''a'', 1), (''b'', 2)]) \<and> fo_settled a2"
  using directory_read_entries [of 2 "[(''a'', 1), (''b'', 2), ([], 0)]" 64 7 Loop_init] by (simp add: UV_ECANCELED_def)

text \<open>
  C36: However \<open>File\<close> objects are opened, moved, assigned, closed and destroyed, every descriptor
  that was opened is owned by exactly one object or has been closed exactly once.
\<close>

theorem file_descriptors_accounted:
  assumes "guarded_run file_step file_guard es \<lparr>fw_files = [], fw_closed = []\<rparr>"
  shows "\<exists>w. res_run file_step es \<lparr>fw_files = [], fw_closed = []\<rparr> = (w, Ok ()) \<and>
    fw_owned w + mset (fw_closed w) = mset (opened es)"
  using files.run_account [OF _ assms] by (auto simp: fw_inv_def fw_account_def fw_owned_def opened_concat)

theorem file_descriptors_accounted_witness:
  "\<exists>w. res_run file_step [FileOpened 5, FileOpened 6, FileMoved 0, FileMoveAssigned 2 1, FileDestroyed 0]
      \<lparr>fw_files = [], fw_closed = []\<rparr> = (w, Ok ()) \<and> fw_owned w + mset (fw_closed w) = {#5, 6#}"
  using file_descriptors_accounted [of "[FileOpened 5, FileOpened 6, FileMoved 0, FileMoveAssigned 2 1, FileDestroyed 0]"]
  by (simp add: file_guard_def file_step_def File_move_def File_move_assign_def File_close_def File_file_def
      File_destroy_def add_mset_commute)

text \<open>
  Directories have no such account: assigning over a directory that is open forgets it, and a
  copy is closed together with its original, twice.
\<close>

theorem directory_ownership_broken:
  "let w = \<lparr>dw_dirs = [Some 1, Some 2], dw_closed = []\<rparr>
   in dw_closed (Directory_destroy 1 (Directory_destroy 0 (Directory_move_assign 0 1 w))) = [2] \<and>
      dw_closed (Directory_destroy 2 (Directory_destroy 0 (Directory_copy 0 w))) = [1, 1]"
  by (simp add: Directory_destroy_def Directory_close_def Directory_move_assign_def Directory_copy_def)

text \<open>
  Cancelled between its callback and its resumption, an operation releases its request to a
  callback that has already come.
\<close>

lemma file_op_late_cancel_leaks:
  "n \<noteq> UV_ECANCELED \<Longrightarrow>
     fo_deleted (FileOpAwaiter_destroy (fst (FileOpAwaiter_onFileOpDone n (file_op_start h l)))) = 0 \<and>
     \<not> fo_req (FileOpAwaiter_destroy (fst (FileOpAwaiter_onFileOpDone n (file_op_start h l))))"
  by (simp add: file_op_defs Let_def)

end
