(* ===== verification/Fs_Watch.thy ===== *)
theory Fs_Watch
  imports Bounded_Queue Uv_Handles
begin

text \<open>
  \<open>FsWatch\<close> of \<open>src/uvco/fs.cc\<close>: the generator \<open>watch()\<close> that yields file events, its awaiter with
  a bounded queue of events, libuv's callback and \<open>stopWatch()\<close>.

  The awaiter is registered on the handle for as long as the generator lives (\<open>wt_data\<close>). The
  generator is suspended in \<open>co_await awaiter\<close>, woken from it, suspended in \<open>co_yield\<close>, or over.
\<close>

section \<open>State\<close>

record file_event =
  fe_path :: string
  fe_events :: int
  fe_status :: uv_status

record watch_awaiter =
  wa_handle :: handle
  wa_events :: "file_event bqueue"
  wa_stopped :: bool

datatype watch_point = WtSuspended | WtWoken | WtYielded | WtDone | WtDropped

record fs_watch =
  wt_handle :: bool
  wt_data :: bool
  wt_awaiter :: watch_awaiter
  wt_point :: watch_point
  wt_loop :: loop
  wt_out :: "file_event list"
  wt_accepted :: "file_event list"

definition defaultCapacity :: nat where
  "defaultCapacity = 128"

definition watch_handle :: coro where
  "watch_handle = 0"

fun wt_over :: "watch_point \<Rightarrow> bool" where
  "wt_over WtDone = True"
| "wt_over WtDropped = True"
| "wt_over p = False"

section \<open>The awaiter\<close>

definition FsWatchAwaiter_new :: watch_awaiter where
  "FsWatchAwaiter_new = \<lparr>wa_handle = None, wa_events = BoundedQueue_new (\<lambda>n. n) defaultCapacity, wa_stopped = False\<rparr>"

definition FsWatchAwaiter_await_ready :: "watch_awaiter \<Rightarrow> bool" where
  "FsWatchAwaiter_await_ready a \<longleftrightarrow> wa_stopped a \<or> \<not> BoundedQueue_empty (wa_events a)"

definition FsWatchAwaiter_await_suspend :: "coro \<Rightarrow> watch_awaiter \<Rightarrow> watch_awaiter \<times> unit res" where
  "FsWatchAwaiter_await_suspend h a =
     (if wa_handle a \<noteq> None then (a, Abort ''!handle_'') else (a\<lparr>wa_handle := Some h\<rparr>, Ok ()))"

definition FsWatchAwaiter_await_resume :: "watch_awaiter \<Rightarrow> watch_awaiter \<times> bool res" where
  "FsWatchAwaiter_await_resume a = (let a1 = a\<lparr>wa_handle := None\<rparr> in
     if wa_stopped a1 \<or> \<not> BoundedQueue_empty (wa_events a1) then (a1, Ok (\<not> wa_stopped a1))
     else (a1, Abort ''stopped_ || !events_.empty()''))"

definition FsWatchAwaiter_schedule :: "fs_watch \<Rightarrow> fs_watch" where
  "FsWatchAwaiter_schedule w = (case wa_handle (wt_awaiter w) of
     None \<Rightarrow> w
   | Some h \<Rightarrow> w\<lparr>wt_awaiter := (wt_awaiter w)\<lparr>wa_handle := None\<rparr>, wt_loop := Loop_enqueue (Some h) (wt_loop w),
                 wt_point := WtWoken\<rparr>)"

definition FsWatchAwaiter_stop :: "fs_watch \<Rightarrow> fs_watch" where
  "FsWatchAwaiter_stop w =
     FsWatchAwaiter_schedule (w\<lparr>wt_awaiter := (wt_awaiter w)\<lparr>wa_stopped := True\<rparr>\<rparr>)"

definition watch_put :: "file_event \<Rightarrow> fs_watch \<Rightarrow> fs_watch \<times> unit res" where
  "watch_put e w = (case BoundedQueue_put e (wa_events (wt_awaiter w)) of (q, r) \<Rightarrow>
     rbind (w\<lparr>wt_awaiter := (wt_awaiter w)\<lparr>wa_events := q\<rparr>\<rparr>, r) (\<lambda>w1 u.
       (w1\<lparr>wt_accepted := wt_accepted w1 @ [e]\<rparr>, Ok ())))"

text \<open>\<open>addError\<close> reports a full queue and puts the event all the same.\<close>

definition FsWatchAwaiter_addError :: "uv_status \<Rightarrow> fs_watch \<Rightarrow> fs_watch \<times> unit res" where
  "FsWatchAwaiter_addError status w = watch_put \<lparr>fe_path = [], fe_events = 0, fe_status = status\<rparr> w"

definition FsWatchAwaiter_addEvent :: "file_event \<Rightarrow> fs_watch \<Rightarrow> fs_watch \<times> unit res" where
  "FsWatchAwaiter_addEvent e w =
     (if \<not> BoundedQueue_hasSpace (wa_events (wt_awaiter w)) then (w, Ok ()) else watch_put e w)"

section \<open>FsWatch\<close>

definition fs_watch_init_error :: "uv_status \<Rightarrow> exn" where
  "fs_watch_init_error st = UvcoStatus st ''uv_fs_event_init returned error while initializing FsWatch''"

definition fs_watch_start_error :: "uv_status \<Rightarrow> exn" where
  "fs_watch_start_error st = UvcoStatus st ''uv_fs_event_start returned error while starting FsWatch''"

definition FsWatch_new :: fs_watch where
  "FsWatch_new = \<lparr>wt_handle = True, wt_data = False, wt_awaiter = FsWatchAwaiter_new, wt_point = WtDropped,
     wt_loop = Loop_init, wt_out = [], wt_accepted = []\<rparr>"

text \<open>\<open>uv_fs_event_start\<close> answers to the path and the flags.\<close>

definition FsWatch_createWithFlag :: "uv_status \<Rightarrow> (string \<Rightarrow> nat \<Rightarrow> uv_status) \<Rightarrow> string \<Rightarrow> nat \<Rightarrow> fs_watch res" where
  "FsWatch_createWithFlag initStatus uv_fs_event_start path flags =
     (if initStatus \<noteq> 0 then Exn (fs_watch_init_error initStatus)
      else let startStatus = uv_fs_event_start (c_string path) flags
           in if startStatus \<noteq> 0 then Exn (fs_watch_start_error startStatus) else Ok FsWatch_new)"

definition UV_FS_EVENT_RECURSIVE :: nat where
  "UV_FS_EVENT_RECURSIVE = 4"

definition FsWatch_create :: "uv_status \<Rightarrow> (string \<Rightarrow> nat \<Rightarrow> uv_status) \<Rightarrow> string \<Rightarrow> fs_watch res" where
  "FsWatch_create initStatus uv_fs_event_start path = FsWatch_createWithFlag initStatus uv_fs_event_start path 0"

definition FsWatch_createRecursive :: "uv_status \<Rightarrow> (string \<Rightarrow> nat \<Rightarrow> uv_status) \<Rightarrow> string \<Rightarrow> fs_watch res" where
  "FsWatch_createRecursive initStatus uv_fs_event_start path =
     FsWatch_createWithFlag initStatus uv_fs_event_start path UV_FS_EVENT_RECURSIVE"

text \<open>\<open>close()\<close> gives the handle to libuv; a second call closes a null pointer.\<close>

definition FsWatch_close :: "fs_watch \<Rightarrow> fs_watch \<times> unit res" where
  "FsWatch_close w = (if wt_handle w then (w\<lparr>wt_handle := False\<rparr>, Ok ()) else (w, Abort ''handle != nullptr''))"

definition FsWatch_destroy :: "fs_watch \<Rightarrow> unit res" where
  "FsWatch_destroy w =
     (if \<not> wt_handle w then Ok ()
      else if wt_data w then Abort ''don't drop an FsWatch while a watch() generator is running (use stopWatch()!)''
      else Ok ())"

text \<open>The end of the generator resets the data pointer (\<open>ZeroAtExit\<close>).\<close>

definition wt_exit :: "watch_point \<Rightarrow> fs_watch \<Rightarrow> fs_watch" where
  "wt_exit p w = w\<lparr>wt_data := False, wt_point := p\<rparr>"

text \<open>The body of the loop after \<open>co_await awaiter\<close>, and the loop's head.\<close>

definition wt_resumed :: "fs_watch \<Rightarrow> fs_watch \<times> unit res" where
  "wt_resumed w = (case FsWatchAwaiter_await_resume (wt_awaiter w) of (a, r) \<Rightarrow>
     (let w1 = w\<lparr>wt_awaiter := a\<rparr>
      in case r of
           Abort m \<Rightarrow> (w1, Abort m)
         | Exn e \<Rightarrow> (wt_exit WtDone w1, Exn e)
         | Ok False \<Rightarrow> (wt_exit WtDone w1, Ok ())
         | Ok True \<Rightarrow>
             (case BoundedQueue_get (wa_events a) of (q, v) \<Rightarrow>
                (let w2 = w1\<lparr>wt_awaiter := a\<lparr>wa_events := q\<rparr>\<rparr>
                 in case v of
                      Ok e \<Rightarrow> (w2\<lparr>wt_point := WtYielded, wt_out := wt_out w2 @ [e]\<rparr>, Ok ())
                    | Exn e \<Rightarrow> (wt_exit WtDone w2, Exn e)
                    | Abort m \<Rightarrow> (w2, Abort m)))))"

definition wt_loop_head :: "fs_watch \<Rightarrow> fs_watch \<times> unit res" where
  "wt_loop_head w =
     (if FsWatchAwaiter_await_ready (wt_awaiter w) then wt_resumed w
      else (case FsWatchAwaiter_await_suspend watch_handle (wt_awaiter w) of (a, r) \<Rightarrow>
              rbind (w\<lparr>wt_awaiter := a\<rparr>, r) (\<lambda>w1 u. (w1\<lparr>wt_point := WtSuspended\<rparr>, Ok ()))))"

definition already_active :: exn where
  "already_active = UvcoStatus UV_EBUSY ''FsWatch::watch() is already active!''"

definition FsWatch_watch :: "fs_watch \<Rightarrow> fs_watch \<times> unit res" where
  "FsWatch_watch w =
     (if wt_data w then (w, Exn already_active)
      else wt_loop_head (w\<lparr>wt_awaiter := FsWatchAwaiter_new, wt_data := True, wt_out := [], wt_accepted := []\<rparr>))"

text \<open>\<open>stopWatch\<close> up to its \<open>co_await\<close>.\<close>

definition FsWatch_stopWatch :: "fs_watch \<Rightarrow> fs_watch \<times> unit res" where
  "FsWatch_stopWatch w = (if \<not> wt_data w then (w, Abort ''nullptr != data'') else (FsWatchAwaiter_stop w, Ok ()))"

definition FsWatch_onFsWatcherEvent :: "string \<Rightarrow> int \<Rightarrow> uv_status \<Rightarrow> fs_watch \<Rightarrow> fs_watch \<times> unit res" where
  "FsWatch_onFsWatcherEvent path events status w =
     (if \<not> events < 4 then (w, Abort ''events < 4'')
      else if \<not> wt_data w then (w, Ok ())
      else rbind (if status = 0
                  then FsWatchAwaiter_addEvent \<lparr>fe_path = path, fe_events = events, fe_status = 0\<rparr> w
                  else FsWatchAwaiter_addError status w)
             (\<lambda>w1 u. (FsWatchAwaiter_schedule w1, Ok ())))"

section \<open>A watch among events\<close>

datatype watch_event = WtWatch | WtEvent string int uv_status | WtTurn | WtNext | WtStop | WtDrop

definition wt_fin :: "fs_watch \<Rightarrow> coro \<Rightarrow> bool" where
  "wt_fin w c = wt_over (wt_point w)"

definition wt_step :: "watch_event \<Rightarrow> fs_watch \<Rightarrow> fs_watch \<times> unit res" where
  "wt_step ev w = (case ev of
     WtWatch \<Rightarrow> (if wt_over (wt_point w) then FsWatch_watch w else (w, Ok ()))
   | WtEvent path events status \<Rightarrow> FsWatch_onFsWatcherEvent path events status w
   | WtTurn \<Rightarrow>
       (case Loop_getNext (wt_fin w) (wt_loop w) of (l, t) \<Rightarrow>
          (case t of
             noop_coroutine \<Rightarrow> (w\<lparr>wt_loop := l\<rparr>, Ok ())
           | Coro c \<Rightarrow> (if wt_point w = WtWoken then wt_resumed (w\<lparr>wt_loop := l\<rparr>)
                         else (w, Abort ''resume of a coroutine that is not suspended''))))
   | WtNext \<Rightarrow> (if wt_point w = WtYielded then wt_loop_head w else (w, Ok ()))
   | WtStop \<Rightarrow> FsWatch_stopWatch w
   | WtDrop \<Rightarrow>
       (if wt_over (wt_point w) then (w, Ok ())
        else (wt_exit WtDropped (w\<lparr>wt_loop := Loop_cancel watch_handle (wt_loop w)\<rparr>), Ok ())))"

text \<open>
  What the code needs: event masks as libuv delivers them, no error event while the queue is
  full, and \<open>stopWatch()\<close> only while a generator runs.
\<close>

definition wt_guard :: "watch_event \<Rightarrow> fs_watch \<Rightarrow> bool" where
  "wt_guard ev w = (case ev of
     WtEvent path events status \<Rightarrow>
       events < 4 \<and> (status = 0 \<or> \<not> wt_data w \<or> BoundedQueue_hasSpace (wa_events (wt_awaiter w)))
   | WtStop \<Rightarrow> wt_data w
   | _ \<Rightarrow> True)"

definition wt_inv :: "fs_watch \<Rightarrow> bool" where
  "wt_inv w \<longleftrightarrow> (let a = wt_awaiter w; p = wt_point w; q = bq_list (wa_events a) in
     bq_inv (wa_events a) \<and> bq_reserved (wa_events a) = defaultCapacity \<and>
     (wt_data w \<longleftrightarrow> \<not> wt_over p) \<and>
     loop_pending (\<lambda>c. False) (wt_loop w) = (if p = WtWoken then [watch_handle] else []) \<and>
     (p = WtSuspended \<longrightarrow> q = [] \<and> \<not> wa_stopped a) \<and> (p = WtWoken \<longrightarrow> wa_stopped a \<or> q \<noteq> []) \<and>
     (\<not> wt_over p \<longrightarrow> wa_handle a = (if p = WtSuspended then Some watch_handle else None)) \<and>
     (\<exists>rest. wt_accepted w = wt_out w @ rest \<and> (\<not> wt_over p \<longrightarrow> rest = q) \<and> (rest \<noteq> [] \<longrightarrow> p = WtDone \<longrightarrow> wa_stopped a)))"

section \<open>Lemmas\<close>

lemma wt_fin_live: "\<not> wt_over (wt_point w) \<Longrightarrow> wt_fin w = (\<lambda>c. False)"
  by (auto simp: wt_fin_def)

lemma wt_fin_over: "wt_over (wt_point w) \<Longrightarrow> wt_fin w = (\<lambda>c. True)"
  by (auto simp: wt_fin_def)

lemma wt_resumed_inv:
  assumes q: "bq_inv (wa_events (wt_awaiter w))" "bq_reserved (wa_events (wt_awaiter w)) = defaultCapacity"
    and "wa_stopped (wt_awaiter w) \<or> bq_list (wa_events (wt_awaiter w)) \<noteq> []"
    and "wt_data w" "loop_pending (\<lambda>c. False) (wt_loop w) = []"
    and "wt_accepted w = wt_out w @ bq_list (wa_events (wt_awaiter w))"
  shows "\<exists>w'. wt_resumed w = (w', Ok ()) \<and> wt_inv w'"
proof (cases "wa_stopped (wt_awaiter w)")
  case True
  with assms show ?thesis
    by (auto simp: wt_resumed_def FsWatchAwaiter_await_resume_def wt_exit_def wt_inv_def Let_def)
next
  case False
  with assms(3) obtain e es where l: "bq_list (wa_events (wt_awaiter w)) = e # es"
    by (cases "bq_list (wa_events (wt_awaiter w))") auto
  from bq.get_some [OF q(1) l] q(2) obtain q' where "BoundedQueue_get (wa_events (wt_awaiter w)) = (q', Ok e)"
    "bq_inv q'" "bq_list q' = es" "bq_reserved q' = defaultCapacity" by auto
  moreover have "\<not> BoundedQueue_empty (wa_events (wt_awaiter w))" using l by (simp add: bq_empty_iff)
  ultimately show ?thesis using False l assms(4-6)
    by (auto simp: wt_resumed_def FsWatchAwaiter_await_resume_def wt_inv_def Let_def)
qed

lemma wt_head_inv:
  assumes "bq_inv (wa_events (wt_awaiter w))" "bq_reserved (wa_events (wt_awaiter w)) = defaultCapacity"
    and "wt_data w" "loop_pending (\<lambda>c. False) (wt_loop w) = []" "wa_handle (wt_awaiter w) = None"
    and "wt_accepted w = wt_out w @ bq_list (wa_events (wt_awaiter w))"
  shows "\<exists>w'. wt_loop_head w = (w', Ok ()) \<and> wt_inv w'"
proof (cases "FsWatchAwaiter_await_ready (wt_awaiter w)")
  case True
  then have "wa_stopped (wt_awaiter w) \<or> bq_list (wa_events (wt_awaiter w)) \<noteq> []"
    by (simp add: FsWatchAwaiter_await_ready_def bq_empty_iff)
  with True wt_resumed_inv [OF assms(1,2) this assms(3,4,6)] show ?thesis by (simp add: wt_loop_head_def)
next
  case False
  with assms show ?thesis
    by (auto simp: wt_loop_head_def FsWatchAwaiter_await_ready_def FsWatchAwaiter_await_suspend_def bq_empty_iff
        wt_inv_def Let_def)
qed

lemma watch_new_queue:
  "bq_inv (BoundedQueue_new (\<lambda>n. n) defaultCapacity :: file_event bqueue)"
  "bq_list (BoundedQueue_new (\<lambda>n. n) defaultCapacity :: file_event bqueue) = []"
  "bq_reserved (BoundedQueue_new (\<lambda>n. n) defaultCapacity :: file_event bqueue) = defaultCapacity"
  using bq_new_inv [of "\<lambda>n. n" defaultCapacity] by (simp_all add: defaultCapacity_def BoundedQueue_new_def)

lemma wt_schedule_inv:
  assumes "bq_inv (wa_events (wt_awaiter w))" "bq_reserved (wa_events (wt_awaiter w)) = defaultCapacity"
    and "wt_data w" "\<not> wt_over (wt_point w)" "wa_stopped (wt_awaiter w) \<or> bq_list (wa_events (wt_awaiter w)) \<noteq> []"
    and "loop_pending (\<lambda>c. False) (wt_loop w) = (if wt_point w = WtWoken then [watch_handle] else [])"
    and "wa_handle (wt_awaiter w) = (if wt_point w = WtSuspended then Some watch_handle else None)"
    and "wt_accepted w = wt_out w @ bq_list (wa_events (wt_awaiter w))"
  shows "wt_inv (FsWatchAwaiter_schedule w)"
  using assms
  by (cases "wt_point w") (auto simp: FsWatchAwaiter_schedule_def wt_inv_def loop_pending_enqueue Let_def)

lemma wt_event_inv:
  assumes inv: "wt_inv w" and g: "wt_guard (WtEvent path events status) w"
  shows "\<exists>w'. FsWatch_onFsWatcherEvent path events status w = (w', Ok ()) \<and> wt_inv w'"
proof (cases "wt_data w")
  case False
  with inv g show ?thesis by (simp add: FsWatch_onFsWatcherEvent_def wt_guard_def)
next
  case True
  let ?q = "wa_events (wt_awaiter w)"
  define e where "e = (if status = 0 then \<lparr>fe_path = path, fe_events = events, fe_status = 0\<rparr>
    else \<lparr>fe_path = [], fe_events = 0, fe_status = status\<rparr>)"
  have q: "bq_inv ?q" "bq_reserved ?q = defaultCapacity" using inv by (simp_all add: wt_inv_def Let_def)
  have live: "\<not> wt_over (wt_point w)" using inv True by (simp add: wt_inv_def Let_def)
  show ?thesis
  proof (cases "BoundedQueue_hasSpace ?q")
    case space: True
    then have "length (bq_list ?q) < bq_reserved ?q" using q(1) by (simp add: bq_hasSpace_iff)
    from bq.put_space [OF q(1) this, of e] q(2) obtain q' where q': "BoundedQueue_put e ?q = (q', Ok ())" "bq_inv q'"
      "bq_list q' = bq_list ?q @ [e]" "bq_reserved q' = defaultCapacity" by auto
    let ?w = "w\<lparr>wt_awaiter := (wt_awaiter w)\<lparr>wa_events := q'\<rparr>, wt_accepted := wt_accepted w @ [e]\<rparr>"
    have "FsWatch_onFsWatcherEvent path events status w = (FsWatchAwaiter_schedule ?w, Ok ())"
      using True space q'(1) g
      by (auto simp: FsWatch_onFsWatcherEvent_def FsWatchAwaiter_addEvent_def FsWatchAwaiter_addError_def watch_put_def
          wt_guard_def e_def)
    moreover have "wt_inv (FsWatchAwaiter_schedule ?w)"
      using inv live True q' by (intro wt_schedule_inv) (auto simp: wt_inv_def Let_def)
    ultimately show ?thesis by simp
  next
    case full: False
    then have s: "status = 0" using g True by (simp add: wt_guard_def)
    have "length (bq_list ?q) = defaultCapacity" using full q bq.bounded [OF q(1)]
      by (simp add: bq_hasSpace_iff del: bq_length_list)
    then have "bq_list ?q \<noteq> []" by (auto simp: defaultCapacity_def simp del: bq_length_list)
    then have "wt_inv (FsWatchAwaiter_schedule w)"
      using inv live True q by (intro wt_schedule_inv) (auto simp: wt_inv_def Let_def)
    with True s full g show ?thesis
      by (simp add: FsWatch_onFsWatcherEvent_def FsWatchAwaiter_addEvent_def wt_guard_def)
  qed
qed

lemma wt_turn_inv:
  assumes "wt_inv w"
  shows "\<exists>w'. wt_step WtTurn w = (w', Ok ()) \<and> wt_inv w'"
proof (cases "wt_point w = WtWoken")
  case True
  then have f: "wt_fin w = (\<lambda>c. False)" by (simp add: wt_fin_live)
  have "loop_pending (\<lambda>c. False) (wt_loop w) = [watch_handle]" using assms True by (simp add: wt_inv_def Let_def)
  then obtain l where l: "Loop_getNext (\<lambda>c. False) (wt_loop w) = (l, Coro watch_handle)" "loop_pending (\<lambda>c. False) l = []"
    using event_loop.nxt_some by blast
  have "\<exists>w'. wt_resumed (w\<lparr>wt_loop := l\<rparr>) = (w', Ok ()) \<and> wt_inv w'"
    by (rule wt_resumed_inv) (use assms True l in \<open>auto simp: wt_inv_def Let_def\<close>)
  with True l f show ?thesis by (simp add: wt_step_def)
next
  case False
  have "loop_pending (wt_fin w) (wt_loop w) = []"
    using assms False by (cases "wt_over (wt_point w)") (auto simp: wt_fin_over wt_fin_live loop_pending_fin wt_inv_def Let_def)
  then obtain l where l: "Loop_getNext (wt_fin w) (wt_loop w) = (l, noop_coroutine)" "resumable (loop_scheduler l) = []"
    by (cases rule: loop_getNext_cases [of "wt_fin w" "wt_loop w"]) auto
  then have "loop_pending (\<lambda>c. False) l = []" by (simp add: loop_pending_def sched_pending_def List.map_filter_simps)
  with assms False l show ?thesis by (simp add: wt_step_def wt_inv_def Let_def)
qed

lemma wt_step_inv:
  assumes "wt_inv w" "wt_guard e w"
  shows "\<exists>w'. wt_step e w = (w', Ok ()) \<and> wt_inv w'"
proof (cases e)
  case WtWatch
  let ?w = "w\<lparr>wt_awaiter := FsWatchAwaiter_new, wt_data := True, wt_out := [], wt_accepted := []\<rparr>"
  have "\<exists>w'. wt_loop_head ?w = (w', Ok ()) \<and> wt_inv w'" if "wt_over (wt_point w)"
    by (rule wt_head_inv) (use assms(1) that watch_new_queue in \<open>auto simp: FsWatchAwaiter_new_def wt_inv_def Let_def\<close>)
  moreover have "\<not> wt_data w" if "wt_over (wt_point w)" using assms(1) that by (simp add: wt_inv_def Let_def)
  ultimately show ?thesis using WtWatch assms(1) by (auto simp: wt_step_def FsWatch_watch_def)
next
  case (WtEvent path events status)
  with wt_event_inv [OF assms(1)] assms(2) show ?thesis by (simp add: wt_step_def)
next
  case WtTurn
  with wt_turn_inv [OF assms(1)] show ?thesis by simp
next
  case WtNext
  have "\<exists>w'. wt_loop_head w = (w', Ok ()) \<and> wt_inv w'" if "wt_point w = WtYielded"
    by (rule wt_head_inv) (use assms(1) that in \<open>auto simp: wt_inv_def Let_def\<close>)
  with WtNext assms(1) show ?thesis by (auto simp: wt_step_def)
next
  case WtStop
  let ?w = "w\<lparr>wt_awaiter := (wt_awaiter w)\<lparr>wa_stopped := True\<rparr>\<rparr>"
  have d: "wt_data w" using assms(2) WtStop by (simp add: wt_guard_def)
  have "wt_inv (FsWatchAwaiter_schedule ?w)"
    using assms(1) d by (intro wt_schedule_inv) (auto simp: wt_inv_def Let_def)
  with WtStop d show ?thesis by (simp add: wt_step_def FsWatch_stopWatch_def FsWatchAwaiter_stop_def)
next
  case WtDrop
  have "loop_pending (\<lambda>c. False) (Loop_cancel watch_handle (wt_loop w)) = []"
    using assms(1) by (simp add: loop_pending_cancel wt_inv_def Let_def)
  with WtDrop assms(1) show ?thesis by (auto simp: wt_step_def wt_exit_def wt_inv_def Let_def)
qed

interpretation watching: guarded_system wt_step wt_guard wt_inv
  by unfold_locales (rule wt_step_inv)

lemma wt_start_inv: "wt_inv FsWatch_new"
  using watch_new_queue
  by (simp add: wt_inv_def FsWatch_new_def FsWatchAwaiter_new_def Loop_init_def loop_pending_def sched_pending_def
      List.map_filter_simps Let_def)

section \<open>Properties\<close>

text \<open>
  C38: A watch yields the file events its queue accepted in the order in which they occurred,
  also those that occur while the consumer is busy; when it waits it has yielded them all, and
  no more than 128 are kept. Events that are not yielded are lost only when the watch was stopped
  or dropped.
\<close>

theorem fs_watch_in_order:
  assumes "guarded_run wt_step wt_guard es FsWatch_new"
  shows "\<exists>w rest. res_run wt_step es FsWatch_new = (w, Ok ()) \<and> wt_accepted w = wt_out w @ rest \<and>
    (case wt_point w of
       WtSuspended \<Rightarrow> rest = []
     | WtDone \<Rightarrow> rest = [] \<or> wa_stopped (wt_awaiter w)
     | WtDropped \<Rightarrow> True
     | _ \<Rightarrow> length rest \<le> defaultCapacity)"
proof -
  obtain w where w: "res_run wt_step es FsWatch_new = (w, Ok ())" "wt_inv w"
    using watching.run_keeps [OF wt_start_inv assms] by blast
  then have b: "length (bq_list (wa_events (wt_awaiter w))) \<le> defaultCapacity"
    using bq.bounded by (fastforce simp: wt_inv_def Let_def)
  show ?thesis using w b
    by (cases "wt_point w") (auto simp: wt_inv_def Let_def simp del: bq_length_list)
qed

theorem fs_watch_in_order_witness:
  "\<exists>w rest. res_run wt_step [WtWatch, WtEvent ''a'' 1 0, WtTurn, WtEvent ''b'' 2 0, WtNext, WtNext] FsWatch_new = (w, Ok ()) \<and>
     wt_accepted w = wt_out w @ rest"
proof -
  have "guarded_run wt_step wt_guard [WtWatch, WtEvent ''a'' 1 0, WtTurn, WtEvent ''b'' 2 0, WtNext, WtNext] FsWatch_new"
    by code_simp
  from fs_watch_in_order [OF this] show ?thesis by blast
qed

text \<open>
  \<open>stopWatch()\<close> makes the generator end at once: events that are queued and not yet yielded
  are dropped, although the header asks the consumer to consume the remaining ones.
\<close>

theorem fs_watch_stop_drops_events:
  "let r = res_run wt_step [WtWatch, WtEvent ''a'' 1 0, WtEvent ''b'' 2 0, WtTurn, WtStop, WtNext] FsWatch_new
   in snd r = Ok () \<and> wt_point (fst r) = WtDone \<and> map fe_path (wt_out (fst r)) = [''a''] \<and>
      map fe_path (wt_accepted (fst r)) = [''a'', ''b'']"
  by code_simp

text \<open>
  An error event that meets a full queue throws through libuv's callback: the check reports the
  overflow and goes on.
\<close>

lemma add_error_throws_when_full:
  "\<not> BoundedQueue_hasSpace (wa_events (wt_awaiter w)) \<Longrightarrow> snd (FsWatchAwaiter_addError st w) = Exn queue_full"
  by (simp add: FsWatchAwaiter_addError_def watch_put_def BoundedQueue_put_def)

lemma watch_twice_refused: "wt_data w \<Longrightarrow> FsWatch_watch w = (w, Exn already_active)"
  by (simp add: FsWatch_watch_def)

text \<open>
  The life of a watch: creation reports the first status that is not 0; a watch whose generator has
  ended can be closed once, and then dropped; with a generator running it must not be dropped, unless it was closed.
\<close>

lemma fs_watch_life:
  "FsWatch_create 0 (\<lambda>path flags. if flags = 0 then 0 else UV_EINVAL) path = Ok FsWatch_new"
  "FsWatch_createRecursive 0 (\<lambda>path flags. if flags = 0 then 0 else UV_EINVAL) path = Exn (fs_watch_start_error UV_EINVAL)"
  "wt_handle w \<Longrightarrow> wt_data w \<Longrightarrow> \<exists>m. FsWatch_destroy w = Abort m"
  "wt_handle w \<Longrightarrow> \<exists>w'. FsWatch_close w = (w', Ok ()) \<and> FsWatch_destroy w' = Ok () \<and> (\<exists>m. snd (FsWatch_close w') = Abort m)"
  by (simp_all add: FsWatch_create_def FsWatch_createRecursive_def FsWatch_createWithFlag_def UV_FS_EVENT_RECURSIVE_def
      FsWatch_destroy_def FsWatch_close_def UV_EINVAL_def)

end
