(* ===== verification/Async_Work.thy ===== *)
theory Async_Work
  imports Request_Pool
begin

text \<open>
  \<open>src/uvco/async_work.h\<close> and \<open>async_work.cc\<close>: running a function on libuv's thread pool, and
  thread-local values.

  The work request passes through the pool: queued, running on a worker (which has read the
  data pointer by then), finished on the worker, and done once libuv has called back on the loop's
  thread. The awaiter and the function it holds live in the submitting coroutine's frame
  (\<open>wk_frame\<close>). The function is a value of type \<open>'r res\<close>, its outcome.
\<close>

section \<open>AsyncWorkAwaiter\<close>

datatype pool_state = PoolQueued | PoolRunning bool | PoolFinished | PoolDone

record 'r work =
  wk_frame :: bool
  wk_req :: bool
  wk_data :: bool
  wk_pool :: pool_state
  wk_status :: "uv_status option"
  wk_handle :: handle
  wk_result :: "'r res option"
  wk_calls :: nat
  wk_deleted :: nat
  wk_loop :: loop

definition AsyncWorkAwaiter_new :: "loop \<Rightarrow> 'r work" where
  "AsyncWorkAwaiter_new l = \<lparr>wk_frame = True, wk_req = True, wk_data = True, wk_pool = PoolQueued, wk_status = None,
     wk_handle = None, wk_result = None, wk_calls = 0, wk_deleted = 0, wk_loop = l\<rparr>"

definition AsyncWorkAwaiter_await_suspend :: "coro \<Rightarrow> 'r work \<Rightarrow> 'r work \<times> unit res" where
  "AsyncWorkAwaiter_await_suspend h w =
     (if wk_status w \<noteq> None then (w, Abort ''!status_'')
      else if wk_handle w \<noteq> None then (w, Abort ''AsyncWorkAwaiter_ can only be awaited once'')
      else (w\<lparr>wk_handle := Some h\<rparr>, Ok ()))"

definition AsyncWorkAwaiter_await_ready :: "'r work \<Rightarrow> bool" where
  "AsyncWorkAwaiter_await_ready w \<longleftrightarrow> wk_status w \<noteq> None"

text \<open>\<open>innerSubmitWork\<close> up to its suspension.\<close>

definition innerSubmitWork_start :: "coro \<Rightarrow> loop \<Rightarrow> 'r work" where
  "innerSubmitWork_start h l = fst (AsyncWorkAwaiter_await_suspend h (AsyncWorkAwaiter_new l))"

text \<open>
  \<open>onDoWork\<close> on a worker: it reads the data pointer, and then, if that was not null, calls the
  function through the awaiter.
\<close>

definition onDoWork_read :: "'r work \<Rightarrow> 'r work" where
  "onDoWork_read w = w\<lparr>wk_pool := PoolRunning (wk_data w)\<rparr>"

definition onDoWork_call :: "'r res \<Rightarrow> 'r work \<Rightarrow> 'r work \<times> unit res" where
  "onDoWork_call f w = (case wk_pool w of
     PoolRunning True \<Rightarrow>
       (if wk_frame w then (w\<lparr>wk_pool := PoolFinished, wk_result := Some f, wk_calls := Suc (wk_calls w)\<rparr>, Ok ())
        else (w, Abort ''use of a destroyed awaiter''))
   | PoolRunning False \<Rightarrow> (w\<lparr>wk_pool := PoolFinished\<rparr>, Ok ())
   | _ \<Rightarrow> (w, Ok ()))"

definition AsyncWorkAwaiter_schedule :: "'r work \<Rightarrow> 'r work" where
  "AsyncWorkAwaiter_schedule w = (case wk_handle w of
     None \<Rightarrow> w | Some h \<Rightarrow> w\<lparr>wk_handle := None, wk_loop := Loop_enqueue (Some h) (wk_loop w)\<rparr>)"

definition AsyncWorkAwaiter_onWorkDone :: "uv_status \<Rightarrow> 'r work \<Rightarrow> 'r work" where
  "AsyncWorkAwaiter_onWorkDone status w =
     (let w1 = w\<lparr>wk_pool := PoolDone\<rparr>
      in if \<not> wk_data w1 then w1\<lparr>wk_deleted := Suc (wk_deleted w1)\<rparr>
         else AsyncWorkAwaiter_schedule (w1\<lparr>wk_status := Some status\<rparr>))"

definition work_error :: "uv_status \<Rightarrow> exn" where
  "work_error st = UvcoStatus st ''AsyncWorkAwaiter_ failed''"

definition AsyncWorkAwaiter_await_resume :: "'r work \<Rightarrow> 'r work \<times> unit res" where
  "AsyncWorkAwaiter_await_resume w = (case wk_status w of
     None \<Rightarrow> (w, Abort ''status_.has_value()'')
   | Some st \<Rightarrow> (w\<lparr>wk_data := False\<rparr>, if st \<noteq> 0 then Exn (work_error st) else Ok ()))"

text \<open>
  The destructor: a request whose data pointer is set is released and cancelled, which libuv does
  only if no worker has taken it; any other is deleted with the awaiter.
\<close>

definition AsyncWorkAwaiter_destroy :: "'r work \<Rightarrow> 'r work" where
  "AsyncWorkAwaiter_destroy w =
     (let w1 = w\<lparr>wk_frame := False, wk_req := False\<rparr>
      in if wk_data w then w1\<lparr>wk_data := False, wk_pool := (if wk_pool w = PoolQueued then PoolFinished else wk_pool w)\<rparr>
         else w1\<lparr>wk_deleted := Suc (wk_deleted w1)\<rparr>)"

text \<open>
  \<open>submitWork\<close> from the resumption on: the function's return value or its exception, which the
  wrapper has stored.
\<close>

definition submitWork_end :: "'r work \<Rightarrow> 'r work \<times> 'r res" where
  "submitWork_end w = (case AsyncWorkAwaiter_await_resume w of (w1, r) \<Rightarrow>
     (case r of
        Abort m \<Rightarrow> (w1, Abort m)
      | Exn e \<Rightarrow> (AsyncWorkAwaiter_destroy w1, Exn e)
      | Ok u \<Rightarrow> (case wk_result w1 of
                   None \<Rightarrow> (w1, Abort ''result.has_value()'')
                 | Some v \<Rightarrow> (AsyncWorkAwaiter_destroy w1, v))))"

text \<open>\<open>submitWork<void>\<close>: its wrapper stores an exception only, and no result is a success.\<close>

definition submitVoidWork_end :: "unit work \<Rightarrow> unit work \<times> unit res" where
  "submitVoidWork_end w = (case AsyncWorkAwaiter_await_resume w of (w1, r) \<Rightarrow>
     (case r of
        Abort m \<Rightarrow> (w1, Abort m)
      | Exn e \<Rightarrow> (AsyncWorkAwaiter_destroy w1, Exn e)
      | Ok u \<Rightarrow> (AsyncWorkAwaiter_destroy w1, case wk_result w1 of Some (Exn e) \<Rightarrow> Exn e | _ \<Rightarrow> Ok ())))"

section \<open>ThreadLocalKey\<close>

text \<open>The value a key holds, by thread; \<open>dflt\<close> is the default-constructed value.\<close>

type_synonym 't tl_key = "nat \<Rightarrow> 't option"

definition ThreadLocalKey_new :: "'t tl_key" where
  "ThreadLocalKey_new = (\<lambda>thread. None)"

definition ThreadLocalKey_del :: "nat \<Rightarrow> 't tl_key \<Rightarrow> 't tl_key" where
  "ThreadLocalKey_del thread k = k(thread := None)"

definition ThreadLocalKey_getOrDefault :: "'t \<Rightarrow> nat \<Rightarrow> 't tl_key \<Rightarrow> 't tl_key \<times> 't" where
  "ThreadLocalKey_getOrDefault dflt thread k = (case k thread of
     Some v \<Rightarrow> (k, v) | None \<Rightarrow> (k(thread \<mapsto> dflt), dflt))"

definition ThreadLocalKey_get :: "nat \<Rightarrow> 't tl_key \<Rightarrow> 't res" where
  "ThreadLocalKey_get thread k = (case k thread of Some v \<Rightarrow> Ok v | None \<Rightarrow> Abort ''null dereference'')"

definition ThreadLocalKey_set :: "'t \<Rightarrow> 't \<Rightarrow> nat \<Rightarrow> 't tl_key \<Rightarrow> 't tl_key" where
  "ThreadLocalKey_set dflt v thread k = (fst (ThreadLocalKey_getOrDefault dflt thread k))(thread \<mapsto> v)"

definition ThreadLocalKey_setCopy :: "'t \<Rightarrow> 't \<Rightarrow> nat \<Rightarrow> 't tl_key \<Rightarrow> 't tl_key" where
  "ThreadLocalKey_setCopy dflt v thread k = (fst (ThreadLocalKey_getOrDefault dflt thread k))(thread \<mapsto> v)"

section \<open>Work as a request\<close>

lemmas work_defs =
  AsyncWorkAwaiter_new_def AsyncWorkAwaiter_await_suspend_def innerSubmitWork_start_def onDoWork_read_def onDoWork_call_def
  AsyncWorkAwaiter_schedule_def AsyncWorkAwaiter_onWorkDone_def AsyncWorkAwaiter_await_resume_def
  AsyncWorkAwaiter_destroy_def submitWork_end_def

text \<open>
  The pool's part and the callback in one: a worker takes the request unless it was cancelled,
  runs the function, and libuv calls back.
\<close>

definition pool_completes :: "'r res \<Rightarrow> 'r work \<Rightarrow> 'r work \<times> unit res" where
  "pool_completes f w =
     rbind (if wk_pool w = PoolQueued then onDoWork_call f (onDoWork_read w) else (w, Ok ()))
       (\<lambda>w1 u. (AsyncWorkAwaiter_onWorkDone 0 w1, Ok ()))"

definition wk_settled :: "'r work \<Rightarrow> bool" where
  "wk_settled w \<longleftrightarrow> wk_deleted w = 1 \<and> wk_pool w = PoolDone \<and> \<not> wk_req w \<and> \<not> wk_frame w \<and> wk_calls w \<le> 1"

definition work_requests :: "('r work, unit, 'r res, 'r) request_ops" where
  "work_requests = \<lparr>ro_start = innerSubmitWork_start, ro_callback = pool_completes, ro_finish = (\<lambda>u. submitWork_end),
     ro_cancel = AsyncWorkAwaiter_destroy, ro_loop = wk_loop, ro_set_loop = (\<lambda>l w. w\<lparr>wk_loop := l\<rparr>), ro_in_frame = (\<lambda>u. True)\<rparr>"

definition wk_awaiting :: "coro \<Rightarrow> 'r work \<Rightarrow> bool" where
  "wk_awaiting h w \<longleftrightarrow> wk_frame w \<and> wk_req w \<and> wk_data w \<and> wk_pool w = PoolQueued \<and> wk_status w = None \<and> wk_handle w = Some h \<and>
     wk_calls w = 0 \<and> wk_deleted w = 0"

definition wk_answered :: "'r res \<Rightarrow> 'r work \<Rightarrow> bool" where
  "wk_answered f w \<longleftrightarrow> wk_frame w \<and> wk_req w \<and> wk_data w \<and> wk_pool w = PoolDone \<and> wk_status w = Some 0 \<and> wk_handle w = None \<and>
     wk_result w = Some f \<and> wk_calls w = 1 \<and> wk_deleted w = 0"

definition wk_abandoned :: "'r work \<Rightarrow> bool" where
  "wk_abandoned w \<longleftrightarrow> \<not> wk_frame w \<and> \<not> wk_req w \<and> \<not> wk_data w \<and> wk_pool w = PoolFinished \<and> wk_calls w = 0 \<and> wk_deleted w = 0"

definition wk_late :: "'r work \<Rightarrow> bool" where
  "wk_late w \<longleftrightarrow> \<not> wk_frame w \<and> \<not> wk_req w \<and> wk_pool w = PoolDone \<and> wk_calls w = 1 \<and> wk_deleted w = 0"

lemmas wk_phases = wk_awaiting_def wk_answered_def wk_abandoned_def wk_late_def wk_settled_def

interpretation work_pool: uv_request work_requests wk_awaiting wk_answered wk_abandoned "\<lambda>g. wk_settled" wk_late
  "\<lambda>f. \<forall>m. f \<noteq> Abort m" "\<lambda>u f. f"
  by unfold_locales (auto simp: work_requests_def work_defs pool_completes_def wk_phases Let_def)

lemma work_answered: "wk_answered f (fst (pool_completes f (innerSubmitWork_start h l)))"
  by (simp add: work_defs pool_completes_def wk_answered_def Let_def)

lemma submitWork_outcome: "snd (submitWork_end (fst (pool_completes f (innerSubmitWork_start h l)))) = f"
  using work_answered [of f h l] by (simp add: work_defs wk_answered_def)

section \<open>Work among workers, callbacks and cancellation\<close>

text \<open>
  The submitting coroutine \<open>work_coro\<close> waits for its work while a worker takes the request and calls the
  function, libuv calls back, the loop turns, and the coroutine's promise may be dropped, in any order.
\<close>

record 'r wksys =
  wy_work :: "'r work"
  wy_got :: "'r res option"

datatype wk_event = WkTake | WkCall | WkDone | WkTurn | WkCancel

definition work_coro :: coro where
  "work_coro = 0"

definition wy_start :: "'r wksys" where
  "wy_start = \<lparr>wy_work = innerSubmitWork_start work_coro Loop_init, wy_got = None\<rparr>"

definition wy_step :: "'r res \<Rightarrow> wk_event \<Rightarrow> 'r wksys \<Rightarrow> 'r wksys \<times> unit res" where
  "wy_step f ev s = (let w = wy_work s in case ev of
     WkTake \<Rightarrow> (if wk_pool w = PoolQueued then (s\<lparr>wy_work := onDoWork_read w\<rparr>, Ok ()) else (s, Ok ()))
   | WkCall \<Rightarrow> (case onDoWork_call f w of (w1, r) \<Rightarrow> (s\<lparr>wy_work := w1\<rparr>, r))
   | WkDone \<Rightarrow>
       (if wk_pool w = PoolFinished then (s\<lparr>wy_work := AsyncWorkAwaiter_onWorkDone 0 w\<rparr>, Ok ()) else (s, Ok ()))
   | WkTurn \<Rightarrow>
       (case Loop_getNext (\<lambda>c. wy_got s \<noteq> None) (wk_loop w) of (l, t) \<Rightarrow>
          (case t of
             noop_coroutine \<Rightarrow> (s\<lparr>wy_work := w\<lparr>wk_loop := l\<rparr>\<rparr>, Ok ())
           | Coro c \<Rightarrow>
               (if \<not> wk_frame w then (s, Abort ''resume of a destroyed coroutine'')
                else (case submitWork_end (w\<lparr>wk_loop := l\<rparr>) of
                        (w1, Abort m) \<Rightarrow> (s, Abort m)
                      | (w1, r) \<Rightarrow> (s\<lparr>wy_work := w1, wy_got := Some r\<rparr>, Ok ())))))
   | WkCancel \<Rightarrow>
       (if wk_frame w
        then (s\<lparr>wy_work := AsyncWorkAwaiter_destroy (w\<lparr>wk_loop := Loop_cancel work_coro (wk_loop w)\<rparr>)\<rparr>, Ok ())
        else (s, Ok ())))"

text \<open>The rule that the code needs: no cancellation while a worker runs the function.\<close>

definition wy_guard :: "wk_event \<Rightarrow> 'r wksys \<Rightarrow> bool" where
  "wy_guard ev s = (ev = WkCancel \<longrightarrow> (case wk_pool (wy_work s) of PoolRunning b \<Rightarrow> False | _ \<Rightarrow> True))"

definition wy_inv :: "'r res \<Rightarrow> 'r wksys \<Rightarrow> bool" where
  "wy_inv f s \<longleftrightarrow> (let w = wy_work s; q = loop_pending (\<lambda>c. False) (wk_loop w) in
     if wk_frame w
     then wk_data w \<and> wk_req w \<and> wk_deleted w = 0 \<and> wy_got s = None \<and>
       (case wk_pool w of
          PoolQueued \<Rightarrow> wk_handle w = Some work_coro \<and> wk_status w = None \<and> wk_calls w = 0 \<and> q = []
        | PoolRunning b \<Rightarrow> b \<and> wk_handle w = Some work_coro \<and> wk_status w = None \<and> wk_calls w = 0 \<and> q = []
        | PoolFinished \<Rightarrow> wk_handle w = Some work_coro \<and> wk_status w = None \<and> wk_calls w = 1 \<and> wk_result w = Some f \<and> q = []
        | PoolDone \<Rightarrow> wk_handle w = None \<and> wk_status w = Some 0 \<and> wk_calls w = 1 \<and> wk_result w = Some f \<and> q = [work_coro])
     else \<not> wk_data w \<and> \<not> wk_req w \<and> q = [] \<and> wk_calls w \<le> 1 \<and>
       (case wk_pool w of PoolFinished \<Rightarrow> wk_deleted w = 0 \<and> wy_got s = None | PoolDone \<Rightarrow> wk_deleted w \<le> 1 | _ \<Rightarrow> False) \<and>
       (case wy_got s of None \<Rightarrow> True | Some r \<Rightarrow> r = f \<and> wk_calls w = 1 \<and> wk_deleted w = 1))"

lemma wy_turn_inv:
  assumes f: "\<And>m. f \<noteq> Abort m" and s: "wy_inv f s"
  shows "\<exists>s'. wy_step f WkTurn s = (s', Ok ()) \<and> wy_inv f s'"
proof -
  let ?w = "wy_work s" and ?fin = "\<lambda>c. wy_got s \<noteq> None"
  obtain l t where n: "Loop_getNext ?fin (wk_loop ?w) = (l, t)" by fastforce
  show ?thesis
  proof (cases "wk_frame ?w \<and> wk_pool ?w = PoolDone")
    case True
    with s have q: "loop_pending ?fin (wk_loop ?w) = [work_coro]" "wy_got s = None" by (auto simp: wy_inv_def Let_def)
    with event_loop.nxt_some [of ?fin "wk_loop ?w" work_coro "[]"] n have t: "t = Coro work_coro" "loop_pending ?fin l = []"
      by auto
    then have "loop_pending (\<lambda>c. False) l = []" using q(2) by simp
    with s True n t f show ?thesis
      by (auto simp: wy_inv_def wy_step_def submitWork_end_def AsyncWorkAwaiter_await_resume_def AsyncWorkAwaiter_destroy_def Let_def
          split: res.split)
  next
    case False
    with s have q: "loop_pending (\<lambda>c. False) (wk_loop ?w) = []" 
      by (auto simp: wy_inv_def Let_def split: pool_state.splits if_splits)
    then have "loop_pending ?fin (wk_loop ?w) = []" using loop_pending_filter [of ?fin "wk_loop ?w"] by simp
    with event_loop.nxt_none [of ?fin "wk_loop ?w"] n have "t = noop_coroutine" by auto
    moreover have "loop_pending (\<lambda>c. False) l = []" using loop_getNext_suffix [OF n] q by auto
    ultimately show ?thesis using s n q False
      by (auto simp: wy_inv_def wy_step_def Let_def split: pool_state.splits if_splits option.splits)
  qed
qed

lemma wy_step_inv:
  assumes "\<And>m. f \<noteq> Abort m" "wy_inv f s" "wy_guard ev s"
  shows "\<exists>s'. wy_step f ev s = (s', Ok ()) \<and> wy_inv f s'"
proof (cases ev)
  case WkTurn
  with wy_turn_inv assms show ?thesis by blast
qed (use assms in \<open>cases "wk_pool (wy_work s)"; cases "wk_frame (wy_work s)"; auto simp: wy_inv_def wy_step_def wy_guard_def work_defs
       loop_pending_enqueue loop_pending_cancel Let_def split: option.splits\<close>)+

interpretation pool_work: guarded_system "wy_step f" wy_guard "\<lambda>s. wy_inv f s \<and> (\<forall>m. f \<noteq> Abort m)"
  by unfold_locales (use wy_step_inv in blast)

section \<open>Properties\<close>

text \<open>
  C39: Work on the thread pool, in any interleaving of the worker, libuv's callback, the loop and
  cancellation outside of the function's run: nothing destroyed is used, the function is called at most once, the coroutine gets its
  value or exception, only once, and the request is deleted at most once; a coroutine whose work is done is scheduled,
  and a finished one has had its request deleted.
\<close>

theorem async_work_safe:
  assumes "guarded_run (wy_step f) wy_guard es wy_start" "\<And>m. f \<noteq> Abort m"
  shows "\<exists>s. res_run (wy_step f) es wy_start = (s, Ok ()) \<and> (let w = wy_work s in
    wk_calls w \<le> 1 \<and> wk_deleted w \<le> 1 \<and>
    (\<forall>r. wy_got s = Some r \<longrightarrow> r = f \<and> wk_calls w = 1 \<and> wk_deleted w = 1) \<and>
    (wk_frame w \<longrightarrow> wk_pool w = PoolDone \<longrightarrow> loop_pending (\<lambda>c. False) (wk_loop w) = [work_coro]) \<and>
    (\<not> wk_frame w \<longrightarrow> loop_pending (\<lambda>c. False) (wk_loop w) = []))"
proof -
  have "wy_inv f wy_start"
    by (simp add: wy_inv_def wy_start_def work_defs loop_pending_def sched_pending_def Loop_init_def List.map_filter_simps)
  then obtain s where "res_run (wy_step f) es wy_start = (s, Ok ())" "wy_inv f s"
    using pool_work.run_keeps [of f wy_start es] assms by blast
  then show ?thesis by (auto simp: wy_inv_def Let_def split: pool_state.splits option.splits if_splits)
qed

theorem async_work_safe_witness:
  "\<exists>s. res_run (wy_step (Ok (5 :: nat))) [WkTake, WkCall, WkDone, WkTurn] wy_start = (s, Ok ()) \<and> wy_got s = Some (Ok 5) \<and>
     wk_calls (wy_work s) \<le> 1"
proof -
  let ?es = "[WkTake, WkCall, WkDone, WkTurn]"
  have "guarded_run (wy_step (Ok (5 :: nat))) wy_guard ?es wy_start" by code_simp
  from async_work_safe [OF this] obtain s where
    "res_run (wy_step (Ok (5 :: nat))) ?es wy_start = (s, Ok ())" "wk_calls (wy_work s) \<le> 1" by (auto simp only: Let_def res.distinct)
  moreover have "wy_got (fst (res_run (wy_step (Ok (5 :: nat))) ?es wy_start)) = Some (Ok 5)" by code_simp
  ultimately show ?thesis by (metis fst_conv)
qed

text \<open>
  Any number of functions on the pool: their values and exceptions reach their coroutines in the order of
  the callbacks, no function is called more than once, and one whose coroutine has its result was called once.
\<close>

lemma works_answered:
  assumes "guarded_run (rp_step work_requests) (rp_guard work_requests (\<lambda>f. \<forall>m. f \<noteq> Abort m)) es rp_start"
  shows "\<exists>p. res_run (rp_step work_requests) es rp_start = (p, Ok ()) \<and>
    (\<exists>rest. rp_answers (\<lambda>u f. f) p = rp_results p @ rest \<and> map fst rest = rp_queue p) \<and>
    (\<forall>c < rp_next p. \<exists>w. rp_req p c = Some ((), w) \<and> wk_calls w \<le> 1 \<and> wk_deleted w = (if rp_ended p c then 1 else 0))"
proof -
  obtain p where p: "res_run (rp_step work_requests) es rp_start = (p, Ok ())"
    "\<exists>rest. rp_answers (\<lambda>u f. f) p = rp_results p @ rest \<and> map fst rest = rp_queue p"
    and fate: "\<forall>c < rp_next p. \<exists>j w. rp_req p c = Some (j, w) \<and> work_pool.request_fate p c j w"
    using work_pool.requests_answered [OF assms] by blast
  have "wk_calls w \<le> 1 \<and> wk_deleted w = (if rp_ended p c then 1 else 0)" if "work_pool.request_fate p c j w" for c j w
    using that by (auto simp: work_pool.request_fate_def rp_ended_def wk_phases split: if_splits option.splits)
  with p fate show ?thesis by fastforce
qed

text \<open>
  Submitted work is run once on a worker; its coroutine is then woken once and returns the
  function's value or rethrows its exception. Work that is cancelled while it is queued is never
  run and wakes nobody. The request is deleted exactly once on both paths.
\<close>

lemma async_work_lifecycle:
  "(\<exists>w1 w2. pool_completes f (innerSubmitWork_start h l) = (w1, Ok ()) \<and> wk_loop w1 = Loop_enqueue (Some h) l \<and>
      wk_calls w1 = 1 \<and> submitWork_end w1 = (w2, f) \<and> wk_settled w2) \<and>
   (\<exists>w2. pool_completes f (AsyncWorkAwaiter_destroy (innerSubmitWork_start h l)) = (w2, Ok ()) \<and> wk_settled w2 \<and>
      wk_loop w2 = l \<and> wk_calls w2 = 0)"
  by (simp add: work_defs pool_completes_def wk_settled_def Let_def)

text \<open>Work without a result: the promise succeeds, or throws what the function threw.\<close>

lemma void_work_outcome:
  assumes "\<And>m. f \<noteq> Abort m"
  shows "\<exists>w1 w2. pool_completes f (innerSubmitWork_start h l) = (w1, Ok ()) \<and> submitVoidWork_end w1 = (w2, f) \<and> wk_settled w2"
  using assms
  by (cases f) (auto simp: work_defs pool_completes_def submitVoidWork_end_def wk_settled_def Let_def)

text \<open>
  Cancelling work that a worker has already taken destroys the awaiter and the function under
  the worker, which then calls them.
\<close>

theorem async_work_cancel_race:
  "snd (onDoWork_call f (AsyncWorkAwaiter_destroy (onDoWork_read (innerSubmitWork_start h l)))) =
     Abort ''use of a destroyed awaiter''"
  by (simp add: work_defs Let_def)

text \<open>
  A thread-local value is the one its thread set last; other threads keep theirs, and after
  \<open>del()\<close> the thread finds a default value again.
\<close>

lemma thread_local_roundtrip:
  "ThreadLocalKey_getOrDefault d t ThreadLocalKey_new = ([t \<mapsto> d], d) \<and>
   ThreadLocalKey_get t (ThreadLocalKey_setCopy d v t k) = Ok v \<and>
   ThreadLocalKey_get t (ThreadLocalKey_set d v t k) = Ok v \<and>
   (u = t \<or> ThreadLocalKey_get u (ThreadLocalKey_set d v t k) = ThreadLocalKey_get u k) \<and>
   ThreadLocalKey_getOrDefault d t (ThreadLocalKey_del t k) = (k(t \<mapsto> d), d)"
  by (auto simp: ThreadLocalKey_get_def ThreadLocalKey_set_def ThreadLocalKey_getOrDefault_def ThreadLocalKey_del_def
      ThreadLocalKey_new_def ThreadLocalKey_setCopy_def split: option.split)

end
