(* ===== verification/Pqxx_Client.thy ===== *)
theory Pqxx_Client
  imports Async_Work
begin

text \<open>
  The libpqxx integration, \<open>src/uvco/integrations/pqxx/pqxx.h\<close>: transactions on the thread pool, with
  one connection per worker thread.

  libpqxx is a parameter: \<open>connect\<close> opens a connection, and a transaction \<open>'x\<close> on the database
  \<open>'d\<close> is begun, committed, and ended by its destructor, which aborts what was not committed.
\<close>

section \<open>Transactions\<close>

record ('c, 'd, 'x) libpqxx =
  px_connect :: "'d \<Rightarrow> 'd \<times> 'c res"
  px_begin :: "'c \<Rightarrow> 'd \<Rightarrow> 'd \<times> 'x res"
  px_commit :: "'x \<Rightarrow> 'd \<Rightarrow> 'd \<times> unit res"
  px_end :: "'x \<Rightarrow> 'd \<Rightarrow> 'd"

text \<open>The thread-local connections, the database, and the threads that opened a connection, in order.\<close>

record ('c, 'd) pqxx =
  pq_conn :: "'c option tl_key"
  pq_db :: 'd
  pq_opened :: "nat list"

definition Pqxx_connection :: "('c, 'd, 'x) libpqxx \<Rightarrow> nat \<Rightarrow> ('c, 'd) pqxx \<Rightarrow> ('c, 'd) pqxx \<times> 'c res" where
  "Pqxx_connection lib t p = (case ThreadLocalKey_getOrDefault None t (pq_conn p) of (k, maybe) \<Rightarrow>
     (let p1 = p\<lparr>pq_conn := k\<rparr>
      in case maybe of
           Some c \<Rightarrow> (p1, Ok c)
         | None \<Rightarrow> (case px_connect lib (pq_db p1) of (d, r) \<Rightarrow>
             rbind (p1\<lparr>pq_db := d\<rparr>, r) (\<lambda>p2 c.
               (p2\<lparr>pq_conn := (pq_conn p2)(t \<mapsto> Some c), pq_opened := pq_opened p2 @ [t]\<rparr>, Ok c)))))"

text \<open>The function of the transaction, then the commit; the destructor of the transaction runs in any case.\<close>

definition Pqxx_transaction ::
  "('c, 'd, 'x) libpqxx \<Rightarrow> ('x \<Rightarrow> 'd \<Rightarrow> 'd \<times> 'r res) \<Rightarrow> 'c \<Rightarrow> 'd \<Rightarrow> 'd \<times> 'r res" where
  "Pqxx_transaction lib f c d =
     rbind (px_begin lib c d) (\<lambda>d1 x.
       case rbind (f x d1) (\<lambda>d2 v. rbind (px_commit lib x d2) (\<lambda>d3 u. (d3, Ok v))) of (d4, r) \<Rightarrow>
         (px_end lib x d4, r))"

definition Pqxx_work ::
  "('c, 'd, 'x) libpqxx \<Rightarrow> ('x \<Rightarrow> 'd \<Rightarrow> 'd \<times> 'r res) \<Rightarrow> nat \<Rightarrow> ('c, 'd) pqxx \<Rightarrow> ('c, 'd) pqxx \<times> 'r res" where
  "Pqxx_work lib f t p =
     rbind (Pqxx_connection lib t p) (\<lambda>p1 c.
       case Pqxx_transaction lib f c (pq_db p1) of (d, r) \<Rightarrow> (p1\<lparr>pq_db := d\<rparr>, r))"

text \<open>
  \<open>withTx\<close>: the work is submitted to the pool and run by thread \<open>t\<close>; its outcome is what the
  promise yields.
\<close>

definition Pqxx_withTx ::
  "('c, 'd, 'x) libpqxx \<Rightarrow> ('x \<Rightarrow> 'd \<Rightarrow> 'd \<times> 'r res) \<Rightarrow> nat \<Rightarrow> coro \<Rightarrow> loop \<Rightarrow> ('c, 'd) pqxx \<Rightarrow>
   ('c, 'd) pqxx \<times> 'r res" where
  "Pqxx_withTx lib f t h l p =
     (case Pqxx_work lib f t p of (p1, r) \<Rightarrow> (p1, snd (submitWork_end (fst (pool_completes r (innerSubmitWork_start h l))))))"

definition Pqxx_close :: "nat \<Rightarrow> ('c, 'd) pqxx \<Rightarrow> ('c, 'd) pqxx" where
  "Pqxx_close t p = p\<lparr>pq_conn := ThreadLocalKey_del t (pq_conn p)\<rparr>"

fun Pqxx_jobs ::
  "('c, 'd, 'x) libpqxx \<Rightarrow> (nat \<times> ('x \<Rightarrow> 'd \<Rightarrow> 'd \<times> 'r res)) list \<Rightarrow> ('c, 'd) pqxx \<Rightarrow> ('c, 'd) pqxx" where
  "Pqxx_jobs lib [] p = p"
| "Pqxx_jobs lib ((t, f) # js) p = Pqxx_jobs lib js (fst (Pqxx_work lib f t p))"

section \<open>Properties\<close>

lemma withTx_outcome: "Pqxx_withTx lib f t h l p = Pqxx_work lib f t p"
  by (simp add: Pqxx_withTx_def submitWork_outcome split: prod.split)

text \<open>Each thread of the pool opens at most one connection, and only threads that run a transaction do.\<close>

definition one_connection :: "('c, 'd) pqxx \<Rightarrow> bool" where
  "one_connection p \<longleftrightarrow> distinct (pq_opened p) \<and> (\<forall>t. t \<in> set (pq_opened p) \<longleftrightarrow> (\<exists>c. pq_conn p t = Some (Some c)))"

lemma connection_one:
  assumes "one_connection p" "Pqxx_connection lib t p = (p', r)"
  shows "one_connection p' \<and> set (pq_opened p') \<subseteq> insert t (set (pq_opened p))"
  using assms unfolding one_connection_def
  by (auto simp: Pqxx_connection_def ThreadLocalKey_getOrDefault_def rbind_def Let_def
      split: option.splits prod.splits res.splits if_splits)

lemma work_one:
  assumes "one_connection p"
  shows "one_connection (fst (Pqxx_work lib f t p)) \<and> set (pq_opened (fst (Pqxx_work lib f t p))) \<subseteq> insert t (set (pq_opened p))"
proof (cases "Pqxx_connection lib t p")
  case (Pair p' r)
  with connection_one [OF assms Pair] show ?thesis
    by (auto simp: Pqxx_work_def rbind_def one_connection_def split: res.split prod.split)
qed

theorem pqxx_one_connection_per_thread:
  assumes "one_connection p"
  shows "one_connection (Pqxx_jobs lib js p) \<and> set (pq_opened (Pqxx_jobs lib js p)) \<subseteq> set (pq_opened p) \<union> set (map fst js)"
  using assms
proof (induction js arbitrary: p)
  case (Cons j js)
  obtain t f where j: "j = (t, f)" by (cases j)
  show ?case using Cons.IH [of "fst (Pqxx_work lib f t p)"] work_one [OF Cons.prems, of lib f t] by (auto simp: j)
qed simp

text \<open>
  Transactions are atomic: when opening connections, beginning a transaction, working in it and
  ending it leave the committed state alone, and a commit that throws does too, then \<open>withTx\<close> changes
  the committed state only if it succeeds.
\<close>

theorem withTx_atomic:
  assumes "\<And>d. committed (fst (px_connect lib d)) = committed d" "\<And>c d. committed (fst (px_begin lib c d)) = committed d"
    and "\<And>x d. committed (fst (f x d)) = committed d" "\<And>x d. committed (px_end lib x d) = committed d"
    and "\<And>x d. snd (px_commit lib x d) \<noteq> Ok () \<Longrightarrow> committed (fst (px_commit lib x d)) = committed d"
    and "Pqxx_withTx lib f t h l p = (p', r)" "\<And>v. r \<noteq> Ok v"
  shows "committed (pq_db p') = committed (pq_db p)"
proof -
  have conn: "committed (pq_db (fst (Pqxx_connection lib t q))) = committed (pq_db q)" for q
    using assms(1) [of "pq_db q"]
    by (auto simp: Pqxx_connection_def rbind_def Let_def split: option.split prod.split res.split)
  have tx: "committed d' = committed d" if d': "Pqxx_transaction lib f c d = (d', r)" for c d d'
  proof (cases "px_begin lib c d")
    case (Pair d1 b)
    show ?thesis
    proof (cases b)
      case (Ok x)
      obtain d2 v where f: "f x d1 = (d2, v)" by (meson surj_pair)
      note eqs = assms(2) [of c d] assms(3) [of x d1] assms(4) [of x]
      show ?thesis
      proof (cases v)
        case v: (Ok w)
        obtain d3 u where c: "px_commit lib x d2 = (d3, u)" by (meson surj_pair)
        with d' Pair Ok f v assms(7) have "u \<noteq> Ok ()" by (cases u) (auto simp: Pqxx_transaction_def)
        with c assms(5) [of x d2] eqs d' Pair Ok f v show ?thesis by (cases u) (auto simp: Pqxx_transaction_def)
      qed (use eqs d' Pair Ok f in \<open>auto simp: Pqxx_transaction_def\<close>)
    qed (use assms(2) [of c d] d' Pair in \<open>auto simp: Pqxx_transaction_def\<close>)
  qed
  obtain q k where q: "Pqxx_connection lib t p = (q, k)" by (meson surj_pair)
  have "committed (pq_db q) = committed (pq_db p)" using conn [of p] q by simp
  with assms(6) q tx show ?thesis
    by (cases k) (auto simp: withTx_outcome Pqxx_work_def split: prod.splits)
qed

text \<open>\<open>close()\<close> drops the connection of the thread that calls it, and of no other.\<close>

lemma Pqxx_close_own: "pq_conn (Pqxx_close t p) u = (if u = t then None else pq_conn p u)"
  by (simp add: Pqxx_close_def ThreadLocalKey_del_def)

end
