(* ===== verification/Curl_Client.thy ===== *)
theory Curl_Client
  imports Uv_Handles
begin

text \<open>
  The libcurl integration, \<open>src/uvco/integrations/curl/curl.cc\<close>: the context that ties libcurl's
  sockets and timer to libuv, the core of a request, which is the awaiter of a download, and the
  generator \<open>CurlRequest::start()\<close>.

  libcurl is not modelled: what it does is a sequence of events. It delivers data, it queues a
  message when a transfer is done, it asks for sockets to be watched. The context holds the
  requests by number, libcurl's message queue, and the watched sockets with their request.
\<close>

section \<open>Form fields\<close>

text \<open>\<open>enc\<close> is \<open>curl_easy_escape\<close>.\<close>

fun formattedFields :: "(string \<Rightarrow> string) \<Rightarrow> (string \<times> string) list \<Rightarrow> string" where
  "formattedFields enc [] = []"
| "formattedFields enc ((key, value) # fs) = enc key @ ''='' @ enc value @ ''&'' @ formattedFields enc fs"

text \<open>What a receiver makes of such a body, which is \<open>application/x-www-form-urlencoded\<close>.\<close>

function parseFields :: "(string \<Rightarrow> string) \<Rightarrow> string \<Rightarrow> (string \<times> string) list" where
  "parseFields dec s =
     (if s = [] then []
      else let rest = drop 1 (dropWhile (\<lambda>c. c \<noteq> CHR ''='') s)
           in (dec (takeWhile (\<lambda>c. c \<noteq> CHR ''='') s), dec (takeWhile (\<lambda>c. c \<noteq> CHR ''&'') rest)) #
              parseFields dec (drop 1 (dropWhile (\<lambda>c. c \<noteq> CHR ''&'') rest)))"
  by pat_completeness auto
termination
proof (relation "measure (length \<circ> snd)")
  fix dec :: "string \<Rightarrow> string" and s rest :: string
  assume s: "s \<noteq> []" and rest: "rest = drop 1 (dropWhile (\<lambda>c. c \<noteq> CHR ''='') s)"
  have "length (dropWhile P xs) \<le> length xs" for P and xs :: string by (induction xs) auto
  from this [of "\<lambda>c. c \<noteq> CHR ''&''" rest] this [of "\<lambda>c. c \<noteq> CHR ''=''" s] s rest
  show "((dec, drop 1 (dropWhile (\<lambda>c. c \<noteq> CHR ''&'') rest)), dec, s) \<in> measure (length \<circ> snd)"
    by (cases s) auto
qed simp

declare parseFields.simps [simp del]

section \<open>Requests\<close>

text \<open>
  The request's easy handle, \<open>CURL *\<close>, is a number, or null when \<open>curl_easy_init()\<close> failed. Its
  reference to the context is weak: it has expired when the context is destroyed.
\<close>

record curl_core =
  cc_easy :: "nat option"
  cc_url :: string
  cc_payload :: "string option"
  cc_handle :: handle
  cc_chunks :: "string list"
  cc_uv :: "uv_status option"
  cc_curl :: "int option"
  cc_code :: "int option"
  cc_verify :: "int option"

definition CurlRequestCore_new :: "nat option \<Rightarrow> curl_core" where
  "CurlRequestCore_new easy = \<lparr>cc_easy = easy, cc_url = [], cc_payload = None, cc_handle = None, cc_chunks = [], cc_uv = None, cc_curl = None, cc_code = None, cc_verify = None\<rparr>"

text \<open>The setters keep the first value.\<close>

definition first_of :: "'a option \<Rightarrow> 'a \<Rightarrow> 'a option" where
  "first_of old new = (case old of None \<Rightarrow> Some new | Some x \<Rightarrow> Some x)"

definition setUvStatus :: "uv_status \<Rightarrow> curl_core \<Rightarrow> curl_core" where
  "setUvStatus st c = c\<lparr>cc_uv := first_of (cc_uv c) st\<rparr>"

definition setResponseCode :: "int \<Rightarrow> curl_core \<Rightarrow> curl_core" where
  "setResponseCode st c = c\<lparr>cc_code := first_of (cc_code c) st\<rparr>"

definition setVerifyResult :: "int \<Rightarrow> curl_core \<Rightarrow> curl_core" where
  "setVerifyResult st c = c\<lparr>cc_verify := first_of (cc_verify c) st\<rparr>"

definition setCurlStatus :: "int \<Rightarrow> curl_core \<Rightarrow> curl_core" where
  "setCurlStatus st c = c\<lparr>cc_curl := first_of (cc_curl c) st\<rparr>"

definition wake_downloader :: "curl_core \<times> loop \<Rightarrow> curl_core \<times> loop" where
  "wake_downloader x = (case x of (c, l) \<Rightarrow>
     (case cc_handle c of None \<Rightarrow> (c, l) | Some h \<Rightarrow> (c\<lparr>cc_handle := None\<rparr>, Loop_enqueue (Some h) l)))"

definition onDataAvailable :: "string \<Rightarrow> curl_core \<times> loop \<Rightarrow> curl_core \<times> loop" where
  "onDataAvailable chunk x = (case x of (c, l) \<Rightarrow> wake_downloader (c\<lparr>cc_chunks := cc_chunks c @ [chunk]\<rparr>, l))"

definition onError :: "uv_status \<Rightarrow> curl_core \<times> loop \<Rightarrow> curl_core \<times> loop" where
  "onError status x = (case x of (c, l) \<Rightarrow>
     (if cc_handle c \<noteq> None then wake_downloader (setUvStatus status c, l) else (c, l)))"

definition Core_ready :: "curl_core \<Rightarrow> bool" where
  "Core_ready c \<longleftrightarrow> cc_chunks c \<noteq> [] \<or> (case cc_code c of None \<Rightarrow> False | Some k \<Rightarrow> 0 < k)"

definition Core_await_suspend :: "coro \<Rightarrow> curl_core \<Rightarrow> curl_core \<times> unit res" where
  "Core_await_suspend h c =
     (if cc_handle c \<noteq> None then (c, Abort ''!downloaderHandle_'') else (c\<lparr>cc_handle := Some h\<rparr>, Ok ()))"

definition set_and_not :: "int option \<Rightarrow> int \<Rightarrow> bool" where
  "set_and_not x k \<longleftrightarrow> (case x of None \<Rightarrow> False | Some y \<Rightarrow> y \<noteq> k)"

definition Core_await_resume :: "curl_core \<Rightarrow> curl_core \<times> string option" where
  "Core_await_resume c =
     (if set_and_not (cc_uv c) 0 then (c, None)
      else if set_and_not (cc_verify c) 0 then (c, None)
      else if set_and_not (cc_code c) 200 then (c, None)
      else (case cc_chunks c of [] \<Rightarrow> (c, None) | x # xs \<Rightarrow> (c\<lparr>cc_chunks := xs\<rparr>, Some x)))"

section \<open>The context\<close>

datatype curl_msg = CurlDone nat int int int | CurlOther

text \<open>What \<open>start()\<close> throws: a \<open>CurlException\<close> with its code and URL, or an \<open>UvcoException\<close>.\<close>

datatype start_exn = CurlException int string | SocketException exn

datatype req_point = RqNew | RqSuspended | RqWoken | RqYielded | RqDone | RqThrown start_exn

record poll_ctx =
  pc_request :: nat
  pc_events :: "int option"

record curl_ctx =
  cx_expired :: bool
  cx_multi :: bool
  cx_timer :: bool
  cx_timer_due :: "int option"
  cx_polls :: "int \<Rightarrow> poll_ctx option"
  cx_sockets :: "int list"
  cx_msgs :: "curl_msg list"
  cx_core :: "nat \<Rightarrow> curl_core"
  cx_point :: "nat \<Rightarrow> req_point"
  cx_out :: "nat \<Rightarrow> string list"
  cx_got :: "nat \<Rightarrow> string list"
  cx_loop :: loop

definition UvCurlContext_new :: curl_ctx where
  "UvCurlContext_new = \<lparr>cx_expired = False, cx_multi = True, cx_timer = True, cx_timer_due = None, cx_polls = (\<lambda>s. None), cx_sockets = [],
     cx_msgs = [], cx_core = (\<lambda>r. CurlRequestCore_new None), cx_point = (\<lambda>r. RqNew), cx_out = (\<lambda>r. []), cx_got = (\<lambda>r. []),
     cx_loop = Loop_init\<rparr>"

text \<open>A change of one request that may wake its coroutine, which has the request's number.\<close>

definition on_core :: "nat \<Rightarrow> (curl_core \<times> loop \<Rightarrow> curl_core \<times> loop) \<Rightarrow> curl_ctx \<Rightarrow> curl_ctx" where
  "on_core r f x = (case f (cx_core x r, cx_loop x) of (c, l) \<Rightarrow>
     x\<lparr>cx_core := (cx_core x)(r := c), cx_loop := l,
       cx_point := (cx_point x)(r := (if cc_handle (cx_core x r) \<noteq> None \<and> cc_handle c = None then RqWoken
                                      else cx_point x r))\<rparr>)"

definition handle_msg :: "curl_msg \<Rightarrow> curl_ctx \<Rightarrow> curl_ctx" where
  "handle_msg m x = (case m of
     CurlOther \<Rightarrow> x
   | CurlDone r result code verify \<Rightarrow>
       on_core r (\<lambda>(c, l). onError 0 (setVerifyResult verify (setResponseCode code (setCurlStatus result c)), l)) x)"

definition checkCurlInfo :: "curl_ctx \<Rightarrow> curl_ctx" where
  "checkCurlInfo x = (fold handle_msg (cx_msgs x) x)\<lparr>cx_msgs := []\<rparr>"

definition curlTimerFunction :: "int \<Rightarrow> curl_ctx \<Rightarrow> curl_ctx" where
  "curlTimerFunction timeoutMs x = x\<lparr>cx_timer_due := (if timeoutMs < 0 then None else Some timeoutMs)\<rparr>"

definition initPoll :: "nat \<Rightarrow> int \<Rightarrow> curl_ctx \<Rightarrow> curl_ctx" where
  "initPoll r socket x = (case cx_polls x socket of
     Some p \<Rightarrow> x\<lparr>cx_polls := (cx_polls x)(socket \<mapsto> p\<lparr>pc_request := r\<rparr>)\<rparr>
   | None \<Rightarrow> x\<lparr>cx_polls := (cx_polls x)(socket \<mapsto> \<lparr>pc_request = r, pc_events = None\<rparr>),
               cx_sockets := cx_sockets x @ [socket]\<rparr>)"

definition uvStartPoll :: "int \<Rightarrow> int \<Rightarrow> curl_ctx \<Rightarrow> curl_ctx \<times> unit res" where
  "uvStartPoll socket events x = (case cx_polls x socket of
     None \<Rightarrow> (x, Abort ''it != polls_.end()'')
   | Some p \<Rightarrow> (x\<lparr>cx_polls := (cx_polls x)(socket \<mapsto> p\<lparr>pc_events := Some events\<rparr>)\<rparr>, Ok ()))"

definition uvStopPoll :: "int \<Rightarrow> curl_ctx \<Rightarrow> curl_ctx" where
  "uvStopPoll socket x = (case cx_polls x socket of
     None \<Rightarrow> x | Some p \<Rightarrow> x\<lparr>cx_polls := (cx_polls x)(socket \<mapsto> p\<lparr>pc_events := None\<rparr>)\<rparr>)"

definition getRequest :: "int \<Rightarrow> curl_ctx \<Rightarrow> nat res" where
  "getRequest socket x = (case cx_polls x socket of
     None \<Rightarrow> Abort ''it != polls_.end()'' | Some p \<Rightarrow> Ok (pc_request p))"

text \<open>The constants of libcurl and libuv that the callbacks use.\<close>

definition CURL_POLL_IN :: int where "CURL_POLL_IN = 1"
definition CURL_POLL_OUT :: int where "CURL_POLL_OUT = 2"
definition CURL_POLL_INOUT :: int where "CURL_POLL_INOUT = 3"
definition CURL_POLL_REMOVE :: int where "CURL_POLL_REMOVE = 4"
definition UV_READABLE :: int where "UV_READABLE = 1"
definition UV_WRITABLE :: int where "UV_WRITABLE = 2"
definition CURL_CSELECT_IN :: int where "CURL_CSELECT_IN = 1"
definition CURL_CSELECT_OUT :: int where "CURL_CSELECT_OUT = 2"

lemmas curl_codes =
  CURL_POLL_IN_def CURL_POLL_OUT_def CURL_POLL_INOUT_def CURL_POLL_REMOVE_def UV_READABLE_def UV_WRITABLE_def
  CURL_CSELECT_IN_def CURL_CSELECT_OUT_def

unbundle bit_operations_syntax

definition watch_for :: "int \<Rightarrow> int" where
  "watch_for action = (if action \<noteq> CURL_POLL_IN then UV_WRITABLE else 0) OR (if action \<noteq> CURL_POLL_OUT then UV_READABLE else 0)"

definition select_flags :: "int \<Rightarrow> int" where
  "select_flags events = (if events AND UV_READABLE \<noteq> 0 then CURL_CSELECT_IN else 0) OR
     (if events AND UV_WRITABLE \<noteq> 0 then CURL_CSELECT_OUT else 0)"

definition curlSocketFunction :: "nat \<Rightarrow> int \<Rightarrow> int \<Rightarrow> curl_ctx \<Rightarrow> curl_ctx \<times> unit res" where
  "curlSocketFunction r socket action x =
     (if action = CURL_POLL_IN \<or> action = CURL_POLL_OUT \<or> action = CURL_POLL_INOUT
      then uvStartPoll socket (watch_for action) (initPoll r socket x)
      else if action = CURL_POLL_REMOVE then (uvStopPoll socket x, Ok ())
      else (x, Abort ''false''))"

text \<open>
  libuv's callbacks. \<open>act\<close> is what \<open>curl_multi_socket_action\<close> does to the context, for a socket
  and flags.
\<close>

definition onUvTimeout :: "(curl_ctx \<Rightarrow> curl_ctx) \<Rightarrow> curl_ctx \<Rightarrow> curl_ctx" where
  "onUvTimeout act x = act x"

definition onCurlSocketActive :: "(int \<Rightarrow> curl_ctx \<Rightarrow> curl_ctx) \<Rightarrow> int \<Rightarrow> uv_status \<Rightarrow> int \<Rightarrow> curl_ctx \<Rightarrow> curl_ctx \<times> unit res" where
  "onCurlSocketActive act socket status events x =
     (if status \<noteq> 0
      then (case getRequest socket x of
              Ok r \<Rightarrow> (on_core r (onError status) x, Ok ())
            | Exn e \<Rightarrow> (x, Exn e) | Abort m \<Rightarrow> (x, Abort m))
      else (checkCurlInfo (act (select_flags events) x), Ok ()))"

text \<open>
  Closing: the multi handle is freed with the messages it holds, and every watched socket's handle
  and the timer are closed.
\<close>

definition UvCurlContext_close :: "curl_ctx \<Rightarrow> curl_ctx \<times> unit res" where
  "UvCurlContext_close x =
     (let x1 = x\<lparr>cx_multi := False, cx_msgs := [], cx_polls := (\<lambda>s. None), cx_sockets := []\<rparr>
      in if cx_timer x1 then (x1\<lparr>cx_timer := False\<rparr>, Ok ()) else (x1, Abort ''handle != nullptr''))"

definition UvCurlContext_destroy :: "curl_ctx \<Rightarrow> curl_ctx \<times> unit res" where
  "UvCurlContext_destroy x =
     (x\<lparr>cx_expired := True, cx_multi := False, cx_msgs := [], cx_polls := (\<lambda>s. None), cx_sockets := [], cx_timer := False\<rparr>, Ok ())"

section \<open>The download generator\<close>

definition socket_error :: "uv_status \<Rightarrow> string \<Rightarrow> exn" where
  "socket_error st url = UvcoStatus st (''Socket error while fetching '' @ url)"

text \<open>The end of \<open>start()\<close> after its loop.\<close>

definition start_outcome :: "curl_core \<Rightarrow> req_point" where
  "start_outcome c =
     (if set_and_not (cc_curl c) 0 then RqThrown (CurlException (the (cc_curl c)) (cc_url c))
      else if set_and_not (cc_uv c) 0 then RqThrown (SocketException (socket_error (the (cc_uv c)) (cc_url c)))
      else RqDone)"

definition start_resumed :: "nat \<Rightarrow> curl_ctx \<Rightarrow> curl_ctx" where
  "start_resumed r x = (case Core_await_resume (cx_core x r) of (c, v) \<Rightarrow>
     (let x1 = x\<lparr>cx_core := (cx_core x)(r := c)\<rparr>
      in case v of
           Some chunk \<Rightarrow> x1\<lparr>cx_point := (cx_point x1)(r := RqYielded), cx_out := (cx_out x1)(r := cx_out x1 r @ [chunk])\<rparr>
         | None \<Rightarrow> x1\<lparr>cx_point := (cx_point x1)(r := start_outcome c)\<rparr>))"

text \<open>The head of the loop: \<open>await_ready\<close> looks for messages first.\<close>

definition start_loop :: "nat \<Rightarrow> curl_ctx \<Rightarrow> curl_ctx \<times> unit res" where
  "start_loop r x =
     (if cx_expired x then (x, Abort ''Curl object must outlive any request'')
      else let x1 = checkCurlInfo x
           in if Core_ready (cx_core x1 r) then (start_resumed r x1, Ok ())
              else (case Core_await_suspend r (cx_core x1 r) of (c, v) \<Rightarrow>
                      rbind (x1\<lparr>cx_core := (cx_core x1)(r := c)\<rparr>, v) (\<lambda>x2 u.
                        (x2\<lparr>cx_point := (cx_point x2)(r := RqSuspended)\<rparr>, Ok ()))))"

definition CurlRequest_statusCode :: "nat \<Rightarrow> curl_ctx \<Rightarrow> int option" where
  "CurlRequest_statusCode r x = cc_code (cx_core x r)"

section \<open>Downloads among events\<close>

text \<open>
  \<open>CxData\<close> and \<open>CxDone\<close> are libcurl's: data for a request, and the message that its transfer is
  over. \<open>CxSocket\<close> and \<open>CxTimeout\<close> are libuv's callbacks, \<open>CxWatch\<close> a call of the socket
  function; \<open>CxAwait\<close> is a consumer that awaits the generator of a request, and \<open>CxTurn\<close> a turn
  of the event loop.
\<close>

datatype cx_event =
    CxData nat string | CxDone nat int int int | CxWatch nat int int | CxSocket int uv_status int | CxTimeout
  | CxAwait nat | CxTurn

definition cx_fin :: "curl_ctx \<Rightarrow> coro \<Rightarrow> bool" where
  "cx_fin x r = (case cx_point x r of RqDone \<Rightarrow> True | RqThrown e \<Rightarrow> True | _ \<Rightarrow> False)"

definition cx_step :: "cx_event \<Rightarrow> curl_ctx \<Rightarrow> curl_ctx \<times> unit res" where
  "cx_step ev x = (case ev of
     CxData r chunk \<Rightarrow> ((on_core r (onDataAvailable chunk) x)\<lparr>cx_got := (cx_got x)(r := cx_got x r @ [chunk])\<rparr>, Ok ())
   | CxDone r result code verify \<Rightarrow> (x\<lparr>cx_msgs := cx_msgs x @ [CurlDone r result code verify]\<rparr>, Ok ())
   | CxWatch r socket action \<Rightarrow> curlSocketFunction r socket action x
   | CxSocket socket status events \<Rightarrow> onCurlSocketActive (\<lambda>flags y. y) socket status events x
   | CxTimeout \<Rightarrow> (onUvTimeout (\<lambda>y. y) x, Ok ())
   | CxAwait r \<Rightarrow> (if cx_point x r = RqNew \<or> cx_point x r = RqYielded then start_loop r x else (x, Ok ()))
   | CxTurn \<Rightarrow>
       (case Loop_getNext (cx_fin x) (cx_loop x) of (l, t) \<Rightarrow>
          (case t of
             noop_coroutine \<Rightarrow> (x\<lparr>cx_loop := l\<rparr>, Ok ())
           | Coro r \<Rightarrow> (if cx_point x r = RqWoken then (start_resumed r (x\<lparr>cx_loop := l\<rparr>), Ok ())
                         else (x, Abort ''resume of a coroutine that is not suspended'')))))"

text \<open>
  What the code needs: data comes before the message that ends its transfer, socket errors come
  on watched sockets, the socket function gets one of the four actions, and the context exists when
  a request is awaited.
\<close>

definition cx_guard :: "cx_event \<Rightarrow> curl_ctx \<Rightarrow> bool" where
  "cx_guard ev x = (case ev of
     CxData r chunk \<Rightarrow> cc_code (cx_core x r) = None
   | CxWatch r socket action \<Rightarrow> 1 \<le> action \<and> action \<le> 4
   | CxSocket socket status events \<Rightarrow> status = 0 \<or> cx_polls x socket \<noteq> None
   | CxAwait r \<Rightarrow> \<not> cx_expired x
   | _ \<Rightarrow> True)"

definition request_inv :: "nat \<Rightarrow> req_point \<Rightarrow> curl_core \<Rightarrow> bool" where
  "request_inv r p c \<longleftrightarrow> cc_handle c = (if p = RqSuspended then Some r else None) \<and>
     (p = RqWoken \<longrightarrow> cc_chunks c \<noteq> [] \<or> cc_code c \<noteq> None \<or> set_and_not (cc_uv c) 0) \<and>
     (p = RqDone \<longrightarrow> cc_code c \<noteq> None \<and> cc_verify c \<noteq> None \<and>
        (cc_chunks c = [] \<or> set_and_not (cc_verify c) 0 \<or> set_and_not (cc_code c) 200)) \<and>
     (cc_code c = None \<longleftrightarrow> cc_verify c = None) \<and> (cc_uv c = Some 0 \<longrightarrow> cc_code c \<noteq> None)"

definition cx_inv :: "curl_ctx \<Rightarrow> bool" where
  "cx_inv x \<longleftrightarrow>
     (\<forall>r. request_inv r (cx_point x r) (cx_core x r) \<and> cx_got x r = cx_out x r @ cc_chunks (cx_core x r)) \<and>
     distinct (loop_pending (\<lambda>c. False) (cx_loop x)) \<and>
     (\<forall>r. r \<in> set (loop_pending (\<lambda>c. False) (cx_loop x)) \<longleftrightarrow> cx_point x r = RqWoken)"

section \<open>Lemmas\<close>

text \<open>An escaping that writes neither \<open>=\<close> nor \<open>&\<close>, and its inverse.\<close>

fun escape_reserved :: "string \<Rightarrow> string" where
  "escape_reserved [] = []"
| "escape_reserved (c # cs) =
     (if c = CHR ''='' then ''%3D'' else if c = CHR ''&'' then ''%26'' else if c = CHR ''%'' then ''%25'' else [c]) @ escape_reserved cs"

fun unescape_reserved :: "string \<Rightarrow> string" where
  "unescape_reserved [] = []"
| "unescape_reserved (c # cs) =
     (if c \<noteq> CHR ''%'' then c # unescape_reserved cs
      else (if take 2 cs = ''3D'' then CHR ''='' else if take 2 cs = ''26'' then CHR ''&'' else CHR ''%'') #
           unescape_reserved (drop 2 cs))"

lemma escape_reserved_clean: "CHR ''='' \<notin> set (escape_reserved s) \<and> CHR ''&'' \<notin> set (escape_reserved s)"
  by (induction s) auto

lemma unescape_escape: "unescape_reserved (escape_reserved s) = s"
  by (induction s) auto

lemma cx_invD:
  assumes "cx_inv x"
  shows "request_inv r (cx_point x r) (cx_core x r)" "cx_got x r = cx_out x r @ cc_chunks (cx_core x r)"
    "distinct (loop_pending (\<lambda>c. False) (cx_loop x))"
    "r \<in> set (loop_pending (\<lambda>c. False) (cx_loop x)) \<longleftrightarrow> cx_point x r = RqWoken"
  using assms unfolding cx_inv_def by blast+

text \<open>A change of a request that keeps its invariant, waking the coroutine if it waits.\<close>

definition waking :: "nat \<Rightarrow> (curl_core \<times> loop \<Rightarrow> curl_core \<times> loop) \<Rightarrow> curl_core \<Rightarrow> bool" where
  "waking r f c \<longleftrightarrow> (\<forall>l. cc_handle (fst (f (c, l))) = None \<and>
     snd (f (c, l)) = (if cc_handle c = None then l else Loop_enqueue (cc_handle c) l))"

lemma on_core_inv:
  assumes inv: "cx_inv x" and w: "waking r f (cx_core x r)"
    and p: "request_inv r (if cx_point x r = RqSuspended then RqWoken else cx_point x r) (fst (f (cx_core x r, cx_loop x)))"
    and ch: "got = cx_got x r @ ds" "cc_chunks (fst (f (cx_core x r, cx_loop x))) = cc_chunks (cx_core x r) @ ds"
  shows "cx_inv ((on_core r f x)\<lparr>cx_got := (cx_got x)(r := got)\<rparr>)"
proof -
  let ?c = "cx_core x r"
  have h: "cc_handle ?c = (if cx_point x r = RqSuspended then Some r else None)"
    using inv by (simp add: cx_inv_def request_inv_def)
  obtain c' l' where f: "f (?c, cx_loop x) = (c', l')" by (cases "f (?c, cx_loop x)")
  have c': "cc_handle c' = None" "l' = (if cx_point x r = RqSuspended then Loop_enqueue (Some r) (cx_loop x) else cx_loop x)"
    using w f h unfolding waking_def by (metis fst_conv option.distinct(1), metis option.distinct(1) snd_conv)
  have pt: "(if cc_handle ?c \<noteq> None \<and> cc_handle c' = None then RqWoken else cx_point x r) =
      (if cx_point x r = RqSuspended then RqWoken else cx_point x r)" using h c'(1) by simp
  have nin: "cx_point x r = RqSuspended \<Longrightarrow> r \<notin> set (loop_pending (\<lambda>c. False) (cx_loop x))"
    using inv by (simp add: cx_inv_def)
  have "on_core r f x = x\<lparr>cx_core := (cx_core x)(r := c'), cx_loop := l',
      cx_point := (cx_point x)(r := (if cx_point x r = RqSuspended then RqWoken else cx_point x r))\<rparr>"
    using f pt by (simp add: on_core_def)
  with inv p ch f c' nin show ?thesis
    by (auto simp: cx_inv_def loop_pending_enqueue)
qed

lemmas curl_set_defs = setUvStatus_def setResponseCode_def setVerifyResult_def setCurlStatus_def first_of_def

lemma wake_waking:
  "waking r (onDataAvailable chunk) c" "waking r (onError st) c"
  "waking r (\<lambda>(c, l). onError 0 (setVerifyResult v (setResponseCode k (setCurlStatus u c)), l)) c"
  by (auto simp: waking_def onDataAvailable_def onError_def wake_downloader_def curl_set_defs split: option.split)

lemma handle_msg_inv: "cx_inv x \<Longrightarrow> cx_inv (handle_msg m x)"
proof (cases m)
  case (CurlDone r u k v)
  assume inv: "cx_inv x"
  let ?f = "\<lambda>(c, l). onError 0 (setVerifyResult v (setResponseCode k (setCurlStatus u c)), l)"
  have ci: "request_inv r (cx_point x r) (cx_core x r)" using inv by (simp add: cx_inv_def)
  have "cx_inv ((on_core r ?f x)\<lparr>cx_got := (cx_got x)(r := cx_got x r)\<rparr>)"
  proof (rule on_core_inv [OF inv wake_waking(3), where ds = "[]"])
    show "request_inv r (if cx_point x r = RqSuspended then RqWoken else cx_point x r) (fst (?f (cx_core x r, cx_loop x)))"
      using ci by (cases "cx_point x r"; cases "cc_code (cx_core x r)"; cases "cc_verify (cx_core x r)")
        (auto simp: request_inv_def onError_def wake_downloader_def curl_set_defs split: option.split)
  qed (auto simp: onError_def wake_downloader_def curl_set_defs split: option.split)
  moreover have "(on_core r ?f x)\<lparr>cx_got := (cx_got x)(r := cx_got x r)\<rparr> = on_core r ?f x"
    by (simp add: on_core_def split: prod.split)
  ultimately show ?thesis using CurlDone by (simp add: handle_msg_def)
qed (simp add: handle_msg_def)

lemma checkCurlInfo_inv: "cx_inv x \<Longrightarrow> cx_inv (checkCurlInfo x)"
proof -
  have "cx_inv y \<Longrightarrow> cx_inv (fold handle_msg ms y)" for ms y
    by (induction ms arbitrary: y) (auto simp: handle_msg_inv)
  then show "cx_inv x \<Longrightarrow> cx_inv (checkCurlInfo x)"
    by (fastforce simp: checkCurlInfo_def cx_inv_def)
qed

lemma handle_msg_point:
  "cx_inv x \<Longrightarrow> cx_point x r \<noteq> RqSuspended \<Longrightarrow> cx_point (handle_msg m x) r = cx_point x r"
  by (auto simp: handle_msg_def on_core_def cx_inv_def request_inv_def split: curl_msg.split prod.split)

lemma checkCurlInfo_point:
  assumes "cx_inv x" "cx_point x r \<noteq> RqSuspended"
  shows "cx_point (checkCurlInfo x) r = cx_point x r"
proof -
  have "cx_inv y \<Longrightarrow> cx_point y r \<noteq> RqSuspended \<Longrightarrow> cx_point (fold handle_msg ms y) r = cx_point y r" for ms y
    by (induction ms arbitrary: y) (auto simp: handle_msg_inv handle_msg_point)
  with assms show ?thesis by (simp add: checkCurlInfo_def)
qed

text \<open>A step of the generator of request \<open>r\<close>, after \<open>r\<close> was taken from the ready queue if it was there.\<close>

lemma start_resumed_inv:
  assumes inv: "cx_inv y"
    and l: "distinct (loop_pending (\<lambda>c. False) l)"
      "set (loop_pending (\<lambda>c. False) l) = set (loop_pending (\<lambda>c. False) (cx_loop y)) - {r}"
    and p: "cx_point y r \<noteq> RqSuspended"
    and why: "cc_chunks (cx_core y r) \<noteq> [] \<or> cc_code (cx_core y r) \<noteq> None \<or> set_and_not (cc_uv (cx_core y r)) 0"
  shows "cx_inv (start_resumed r (y\<lparr>cx_loop := l\<rparr>))"
proof -
  let ?c = "cx_core y r"
  note d = cx_invD [OF inv]
  obtain c v where cv: "Core_await_resume ?c = (c, v)" by (cases "Core_await_resume ?c")
  have h: "cc_handle ?c = None" "cc_code ?c = None \<longleftrightarrow> cc_verify ?c = None" "cc_uv ?c = Some 0 \<longrightarrow> cc_code ?c \<noteq> None"
    using d(1) [of r] p unfolding request_inv_def by metis+
  have core: "cc_handle c = None" "(cc_code c = None \<longleftrightarrow> cc_verify c = None) \<and> (cc_uv c = Some 0 \<longrightarrow> cc_code c \<noteq> None)"
    "cc_chunks ?c = (case v of None \<Rightarrow> [] | Some k \<Rightarrow> [k]) @ cc_chunks c"
    using cv h by (auto simp: Core_await_resume_def split: if_splits list.splits)
  have end_of: "c = ?c \<and> (set_and_not (cc_uv c) 0 \<or> set_and_not (cc_verify c) 0 \<or> set_and_not (cc_code c) 200 \<or>
      cc_chunks c = [])" if "v = None"
    using cv that by (auto simp: Core_await_resume_def split: if_splits list.splits)
  define x' where "x' = start_resumed r (y\<lparr>cx_loop := l\<rparr>)"
  have o: "cx_loop x' = l" "cx_got x' = cx_got y" "cx_core x' = (cx_core y)(r := c)"
    "cx_out x' = (cx_out y)(r := cx_out y r @ (case v of None \<Rightarrow> [] | Some k \<Rightarrow> [k]))"
    "cx_point x' = (cx_point y)(r := (case v of None \<Rightarrow> start_outcome c | Some k \<Rightarrow> RqYielded))"
    using cv by (auto simp: x'_def start_resumed_def Let_def split: option.split)
  have pt: "request_inv r (cx_point x' r) c" "cx_point x' r \<noteq> RqWoken"
  proof -
    show "request_inv r (cx_point x' r) c"
    proof (cases v)
      case None
      note e = end_of [OF None]
      have "start_outcome c = RqDone \<Longrightarrow> \<not> set_and_not (cc_uv c) 0"
        by (auto simp: start_outcome_def split: if_splits)
      moreover have "start_outcome c \<noteq> RqSuspended" "start_outcome c \<noteq> RqWoken" by (simp_all add: start_outcome_def)
      moreover have "set_and_not (cc_code c) 200 \<Longrightarrow> cc_code c \<noteq> None" "set_and_not (cc_verify c) 0 \<Longrightarrow> cc_verify c \<noteq> None"
        by (auto simp: set_and_not_def split: option.splits)
      ultimately show ?thesis using None o(5) core(1,2) e why by (auto simp: request_inv_def)
    qed (use core o in \<open>cases "cc_code c"; auto simp: request_inv_def\<close>)
    show "cx_point x' r \<noteq> RqWoken" using o(5) by (simp add: start_outcome_def split: option.split)
  qed
  have "request_inv q (cx_point x' q) (cx_core x' q)" for q
    using pt(1) d(1) [of q] o(3,5) by (cases "q = r") simp_all
  moreover have "cx_got x' q = cx_out x' q @ cc_chunks (cx_core x' q)" for q
    using d(2) [of q] core(3) o(2-4) by (cases "q = r") simp_all
  moreover have "q \<in> set (loop_pending (\<lambda>c. False) (cx_loop x')) \<longleftrightarrow> cx_point x' q = RqWoken" for q
    using d(4) [of q] l(2) pt(2) o(1,5) by (cases "q = r") simp_all
  ultimately have "cx_inv x'" using o(1) l(1) by (simp add: cx_inv_def)
  then show ?thesis by (simp add: x'_def)
qed

lemma start_loop_inv:
  assumes inv: "cx_inv x" and ex: "\<not> cx_expired x" and p: "cx_point x r = RqNew \<or> cx_point x r = RqYielded"
  shows "\<exists>x'. start_loop r x = (x', Ok ()) \<and> cx_inv x'"
proof -
  let ?x = "checkCurlInfo x"
  have i: "cx_inv ?x" by (rule checkCurlInfo_inv [OF inv])
  have q: "cx_point ?x r = cx_point x r" using checkCurlInfo_point [OF inv, of r] p by auto
  have ci: "request_inv r (cx_point ?x r) (cx_core ?x r)" using i by (simp add: cx_inv_def)
  then have h: "cc_handle (cx_core ?x r) = None" using p q by (auto simp: request_inv_def)
  show ?thesis
  proof (cases "Core_ready (cx_core ?x r)")
    case True
    then have "cc_chunks (cx_core ?x r) \<noteq> [] \<or> cc_code (cx_core ?x r) \<noteq> None"
      by (auto simp: Core_ready_def split: option.splits)
    moreover have "r \<notin> set (loop_pending (\<lambda>c. False) (cx_loop ?x))" using cx_invD(4) [OF i, of r] p q by auto
    ultimately have "cx_inv (start_resumed r (?x\<lparr>cx_loop := cx_loop ?x\<rparr>))"
      using cx_invD(3) [OF i] p q by (intro start_resumed_inv [OF i]) auto
    with True ex show ?thesis by (simp add: start_loop_def cx_inv_def Let_def)
  next
    case False
    let ?y = "?x\<lparr>cx_core := (cx_core ?x)(r := (cx_core ?x r)\<lparr>cc_handle := Some r\<rparr>), cx_point := (cx_point ?x)(r := RqSuspended)\<rparr>"
    have "request_inv r RqSuspended ((cx_core ?x r)\<lparr>cc_handle := Some r\<rparr>)"
      using ci by (cases "cc_code (cx_core ?x r)") (auto simp: request_inv_def)
    then have "cx_inv ?y" using i p q by (auto simp: cx_inv_def)
    moreover have "start_loop r x = (?y, Ok ())"
      using False h ex by (simp add: start_loop_def Core_await_suspend_def Let_def)
    ultimately show ?thesis by simp
  qed
qed

lemma cx_turn_inv:
  assumes "cx_inv x"
  shows "\<exists>x'. cx_step CxTurn x = (x', Ok ()) \<and> cx_inv x'"
proof -
  let ?P = "loop_pending (\<lambda>c. False) (cx_loop x)"
  have "\<forall>r \<in> set ?P. \<not> cx_fin x r" using assms by (auto simp: cx_inv_def cx_fin_def)
  then have live: "Loop_getNext (cx_fin x) (cx_loop x) = Loop_getNext (\<lambda>c. False) (cx_loop x)"
    by (rule loop_getNext_live)
  show ?thesis
  proof (cases rule: loop_getNext_cases [of "\<lambda>c. False" "cx_loop x"])
    case (some l r)
    have w: "cx_point x r = RqWoken" using assms some by (auto simp: cx_inv_def)
    have "request_inv r RqWoken (cx_core x r)" using assms w by (metis cx_inv_def)
    then have "cx_inv (start_resumed r (x\<lparr>cx_loop := l\<rparr>))"
      using cx_invD(3) [OF assms] some w by (intro start_resumed_inv [OF assms]) (auto simp: request_inv_def)
    with some w live show ?thesis by (simp add: cx_step_def)
  next
    case (none l)
    then have "loop_pending (\<lambda>c. False) l = []" by (simp add: loop_pending_def sched_pending_def List.map_filter_simps)
    with none assms live show ?thesis by (simp add: cx_step_def cx_inv_def)
  qed
qed

lemma data_request_inv:
  assumes "request_inv r p c" "cc_code c = None" "p \<noteq> RqDone"
  shows "request_inv r (if p = RqSuspended then RqWoken else p) (fst (onDataAvailable chunk (c, l)))"
  using assms by (auto simp: request_inv_def onDataAvailable_def wake_downloader_def split: option.split)

lemma error_request_inv:
  assumes "request_inv r p c" "st \<noteq> 0"
  shows "request_inv r (if p = RqSuspended then RqWoken else p) (fst (onError st (c, l)))"
  using assms by (auto simp: request_inv_def onError_def wake_downloader_def curl_set_defs set_and_not_def split: option.splits)

lemma cx_inv_polls [simp]:
  "cx_inv (x\<lparr>cx_polls := ps, cx_sockets := ss\<rparr>) = cx_inv x" "cx_inv (x\<lparr>cx_polls := ps\<rparr>) = cx_inv x"
  "cx_inv (x\<lparr>cx_sockets := ss\<rparr>) = cx_inv x" "cx_inv (x\<lparr>cx_msgs := ms\<rparr>) = cx_inv x"
  by (simp_all add: cx_inv_def)

lemma curlSocketFunction_inv:
  "cx_inv x \<Longrightarrow> 1 \<le> action \<Longrightarrow> action \<le> 4 \<Longrightarrow> \<exists>x'. curlSocketFunction r socket action x = (x', Ok ()) \<and> cx_inv x'"
  by (auto simp: curlSocketFunction_def uvStartPoll_def uvStopPoll_def initPoll_def curl_codes split: option.split)

lemma cx_step_inv:
  assumes inv: "cx_inv x" and g: "cx_guard ev x"
  shows "\<exists>x'. cx_step ev x = (x', Ok ()) \<and> cx_inv x'"
proof (cases ev)
  case (CxData r chunk)
  then have "cc_code (cx_core x r) = None" "cx_point x r \<noteq> RqDone"
    using g cx_invD(1) [OF inv, of r] by (auto simp: cx_guard_def request_inv_def)
  note d = data_request_inv [OF cx_invD(1) [OF inv] this, of chunk "cx_loop x"]
  have "cx_inv ((on_core r (onDataAvailable chunk) x)\<lparr>cx_got := (cx_got x)(r := cx_got x r @ [chunk])\<rparr>)"
    by (rule on_core_inv [OF inv wake_waking(1) d, where ds = "[chunk]"])
       (simp_all add: onDataAvailable_def wake_downloader_def split: option.split)
  with CxData show ?thesis by (simp add: cx_step_def)
next
  case (CxSocket socket st events)
  show ?thesis
  proof (cases "st = 0")
    case True
    with CxSocket show ?thesis using checkCurlInfo_inv [OF inv] by (simp add: cx_step_def onCurlSocketActive_def)
  next
    case False
    with CxSocket g obtain p where p: "cx_polls x socket = Some p" by (auto simp: cx_guard_def)
    let ?r = "pc_request p"
    have "cc_chunks (fst (onError st (cx_core x ?r, cx_loop x))) = cc_chunks (cx_core x ?r)"
      by (simp add: onError_def wake_downloader_def curl_set_defs split: option.split)
    with on_core_inv [OF inv wake_waking(2) [of ?r] error_request_inv [OF cx_invD(1) [OF inv, of ?r] False], where ds = "[]"]
    have "cx_inv ((on_core ?r (onError st) x)\<lparr>cx_got := (cx_got x)(?r := cx_got x ?r)\<rparr>)" by simp
    moreover have "(on_core ?r (onError st) x)\<lparr>cx_got := (cx_got x)(?r := cx_got x ?r)\<rparr> = on_core ?r (onError st) x"
      by (simp add: on_core_def split: prod.split)
    ultimately show ?thesis using CxSocket False p by (simp add: cx_step_def onCurlSocketActive_def getRequest_def)
  qed
next
  case (CxAwait r)
  then show ?thesis using start_loop_inv [OF inv, of r] inv g by (simp add: cx_step_def cx_guard_def)
next
  case CxTurn
  then show ?thesis using cx_turn_inv [OF inv] by simp
next
  case (CxWatch r socket action)
  then show ?thesis using curlSocketFunction_inv [OF inv, of action r socket] g by (simp add: cx_step_def cx_guard_def)
qed (use inv in \<open>simp_all add: cx_step_def onUvTimeout_def\<close>)

interpretation downloads: guarded_system cx_step cx_guard cx_inv
  by unfold_locales (rule cx_step_inv)

lemma cx_start_inv: "cx_inv UvCurlContext_new"
  by (simp add: cx_inv_def UvCurlContext_new_def request_inv_def CurlRequestCore_new_def set_and_not_def
      loop_pending_def sched_pending_def Loop_init_def List.map_filter_simps)

text \<open>What the invariant says of a request's output.\<close>

lemma download_outcome:
  assumes "cx_inv x"
  shows "\<forall>r. \<exists>rest. cx_got x r = cx_out x r @ rest \<and>
     (if cx_point x r = RqDone
      then rest = [] \<or> set_and_not (cc_verify (cx_core x r)) 0 \<or> set_and_not (cc_code (cx_core x r)) 200
      else True)"
proof
  fix r
  have "cx_point x r = RqDone \<Longrightarrow>
      cc_chunks (cx_core x r) = [] \<or> set_and_not (cc_verify (cx_core x r)) 0 \<or> set_and_not (cc_code (cx_core x r)) 200"
    using cx_invD(1) [OF assms, of r] by (simp add: request_inv_def)
  then show "\<exists>rest. cx_got x r = cx_out x r @ rest \<and>
     (if cx_point x r = RqDone
      then rest = [] \<or> set_and_not (cc_verify (cx_core x r)) 0 \<or> set_and_not (cc_code (cx_core x r)) 200
      else True)" using cx_invD(2) [OF assms, of r] by auto
qed

section \<open>Properties\<close>

text \<open>
  The generator of a request yields the chunks libcurl delivered for it, in order and each
  once, however data, messages, socket events and awaits of all requests interleave; when it ends
  without an exception it has yielded all of them, or TLS verification failed or the response was
  not a 200.
\<close>

theorem curl_download_in_order:
  assumes "guarded_run cx_step cx_guard es UvCurlContext_new"
  shows "\<exists>x. res_run cx_step es UvCurlContext_new = (x, Ok ()) \<and>
    (\<forall>r. \<exists>rest. cx_got x r = cx_out x r @ rest \<and>
       (if cx_point x r = RqDone
        then rest = [] \<or> set_and_not (cc_verify (cx_core x r)) 0 \<or> set_and_not (cc_code (cx_core x r)) 200
        else True))"
  using downloads.run_keeps [OF cx_start_inv assms] download_outcome by blast

text \<open>A run that ends the download with both chunks.\<close>

lemma curl_download_complete:
  "let r = res_run cx_step [CxAwait 0, CxAwait 1, CxData 0 ''a'', CxTurn, CxData 0 ''b'', CxDone 0 0 200 0, CxAwait 0, CxAwait 0]
         UvCurlContext_new
   in snd r = Ok () \<and> cx_point (fst r) 0 = RqDone \<and> cx_out (fst r) 0 = [''a'', ''b'']"
  by code_simp

text \<open>
  A transfer that failed without an HTTP response before its generator is awaited is lost:
  the message is consumed while nobody waits, the response code 0 is not \<open>ready\<close>, and the
  generator suspends with nothing left to wake it. Likewise a transfer that fails in a timeout
  while the generator waits: \<open>onUvTimeout\<close> does not look at the messages.
\<close>

theorem curl_failed_transfer_lost:
  "let r = res_run cx_step [CxDone 0 7 0 0, CxAwait 0, CxSocket 3 0 1, CxTurn] UvCurlContext_new;
       q = res_run cx_step [CxAwait 0, CxDone 0 28 0 0, CxTimeout, CxTurn] UvCurlContext_new
   in snd r = Ok () \<and> cx_point (fst r) 0 = RqSuspended \<and> cx_msgs (fst r) = [] \<and> cc_curl (cx_core (fst r) 0) = Some 7 \<and>
      snd q = Ok () \<and> cx_point (fst q) 0 = RqSuspended \<and> cx_msgs (fst q) = [CurlDone 0 28 0 0]"
  by code_simp

text \<open>
  The body of a POST request determines its fields: if the escaping writes neither \<open>=\<close> nor
  \<open>&\<close> and \<open>dec\<close> undoes it, parsing the body gives back the fields.
\<close>

theorem formattedFields_roundtrip:
  assumes clean: "\<And>s. CHR ''='' \<notin> set (enc s) \<and> CHR ''&'' \<notin> set (enc s)" and inverse: "\<And>s. dec (enc s) = s"
  shows "parseFields dec (formattedFields enc fs) = fs"
proof (induction fs)
  case Nil
  show ?case by (simp add: parseFields.simps)
next
  case (Cons f fs)
  obtain k v where f: "f = (k, v)" by (cases f)
  have cut: "takeWhile (\<lambda>c. c \<noteq> d) (enc s @ d # t) = enc s" "dropWhile (\<lambda>c. c \<noteq> d) (enc s @ d # t) = d # t"
    if "d = CHR ''='' \<or> d = CHR ''&''" for d s t
  proof -
    have "\<forall>c \<in> set (enc s). c \<noteq> d" using clean that by auto
    then show "takeWhile (\<lambda>c. c \<noteq> d) (enc s @ d # t) = enc s" "dropWhile (\<lambda>c. c \<noteq> d) (enc s @ d # t) = d # t"
      by (simp_all add: takeWhile_append2 dropWhile_append2)
  qed
  show ?case by (subst parseFields.simps) (simp add: f cut Cons.IH inverse Let_def)
qed

theorem formattedFields_roundtrip_witness:
  "formattedFields escape_reserved [(''a&b'', ''1=1''), (''k'', [])] = ''a%26b=1%3D1&k=&'' \<and>
   parseFields unescape_reserved (formattedFields escape_reserved [(''a&b'', ''1=1''), (''k'', [])]) = [(''a&b'', ''1=1''), (''k'', [])]"
  by (intro conjI formattedFields_roundtrip escape_reserved_clean unescape_escape) simp

text \<open>The events libcurl asks for and the events libuv reports are translated faithfully.\<close>

lemma watch_for_flags:
  "watch_for CURL_POLL_IN = UV_READABLE" "watch_for CURL_POLL_OUT = UV_WRITABLE"
  "watch_for CURL_POLL_INOUT = UV_READABLE OR UV_WRITABLE"
  by (simp_all add: watch_for_def curl_codes)

lemma select_flags_bits:
  "select_flags events AND CURL_CSELECT_IN \<noteq> 0 \<longleftrightarrow> events AND UV_READABLE \<noteq> 0"
  "select_flags events AND CURL_CSELECT_OUT \<noteq> 0 \<longleftrightarrow> events AND UV_WRITABLE \<noteq> 0"
  by (auto simp: select_flags_def curl_codes)

end
