(* ===== verification/Curl_Requests.thy ===== *)
theory Curl_Requests
  imports Curl_Client
begin

text \<open>
  The life of curl requests, \<open>src/uvco/integrations/curl/curl.cc\<close> and \<open>curl.h\<close>: how \<open>Curl::get()\<close> and
  \<open>Curl::post()\<close> make a request, configure its easy handle and add it to the multi handle, how a
  request is destroyed, and how the \<open>Curl\<close> object is closed and destroyed.

  The objects involved refer to each other by raw pointers: an easy handle to the core of its
  request (\<open>CURLOPT_PRIVATE\<close>, \<open>CURLOPT_WRITEDATA\<close>, \<open>CURLOPT_POSTFIELDS\<close>), a watched socket to a core, a
  message in libcurl's queue to an easy handle. Requests and easy handles are numbers here, which
  may be used again after they are freed; following a pointer to a request that does not exist is
  an \<open>Abort\<close>. The state is the context of \<open>Curl_Client\<close> with the objects that exist.
\<close>

section \<open>Easy handles\<close>

text \<open>
  The options of an easy handle that the code sets. libcurl copies the URL; the data of a POST
  request stays where it is, in the core.
\<close>

record easy_handle =
  eo_url :: "string option"
  eo_write :: "nat option"
  eo_private :: "nat option"
  eo_follow :: bool
  eo_post :: bool
  eo_fields :: "nat option"
  eo_timeout :: "int option"

definition easy_fresh :: easy_handle where
  "easy_fresh = \<lparr>eo_url = None, eo_write = None, eo_private = None, eo_follow = False, eo_post = False,
     eo_fields = None, eo_timeout = None\<rparr>"

record curl_sys =
  rq_ctx :: curl_ctx
  rq_live :: "nat \<Rightarrow> bool"
  rq_easy :: "nat \<Rightarrow> easy_handle option"
  rq_added :: "nat list"

definition Curl_new :: curl_sys where
  "Curl_new = \<lparr>rq_ctx = UvCurlContext_new, rq_live = (\<lambda>r. False), rq_easy = (\<lambda>e. None), rq_added = []\<rparr>"

definition rq_core :: "curl_sys \<Rightarrow> nat \<Rightarrow> curl_core" where
  "rq_core w r = cx_core (rq_ctx w) r"

definition set_core :: "nat \<Rightarrow> curl_core \<Rightarrow> curl_sys \<Rightarrow> curl_sys" where
  "set_core r c w = w\<lparr>rq_ctx := (rq_ctx w)\<lparr>cx_core := (cx_core (rq_ctx w))(r := c)\<rparr>\<rparr>"

definition curl_easy_setopt :: "nat \<Rightarrow> (easy_handle \<Rightarrow> easy_handle) \<Rightarrow> curl_sys \<Rightarrow> curl_sys" where
  "curl_easy_setopt e f w = w\<lparr>rq_easy := (rq_easy w)(e := map_option f (rq_easy w e))\<rparr>"

text \<open>
  \<open>addHandle\<close> and \<open>removeHandle\<close>: with no multi handle libcurl refuses the call. An easy handle that
  is removed takes its messages with it.
\<close>

definition addHandle :: "nat \<Rightarrow> curl_sys \<Rightarrow> curl_sys" where
  "addHandle e w = (if cx_multi (rq_ctx w) \<and> e \<notin> set (rq_added w) then w\<lparr>rq_added := rq_added w @ [e]\<rparr> else w)"

definition msg_of :: "nat \<Rightarrow> curl_msg \<Rightarrow> bool" where
  "msg_of r m = (case m of CurlDone q result code verify \<Rightarrow> q = r | CurlOther \<Rightarrow> False)"

definition removeHandle :: "nat \<Rightarrow> nat \<Rightarrow> curl_sys \<Rightarrow> curl_sys" where
  "removeHandle r e w =
     (if cx_multi (rq_ctx w)
      then w\<lparr>rq_added := removeAll e (rq_added w),
             rq_ctx := (rq_ctx w)\<lparr>cx_msgs := filter (\<lambda>m. \<not> msg_of r m) (cx_msgs (rq_ctx w))\<rparr>\<rparr>
      else w)"

section \<open>Making a request\<close>

text \<open>The constructor of a core at address \<open>r\<close>; \<open>easy\<close> is the result of \<open>curl_easy_init()\<close>.\<close>

definition Core_construct :: "nat \<Rightarrow> nat option \<Rightarrow> curl_sys \<Rightarrow> curl_sys" where
  "Core_construct r easy w =
     w\<lparr>rq_live := (rq_live w)(r := True),
       rq_easy := (case easy of None \<Rightarrow> rq_easy w | Some e \<Rightarrow> (rq_easy w)(e \<mapsto> easy_fresh)),
       rq_ctx := (rq_ctx w)\<lparr>cx_core := (cx_core (rq_ctx w))(r := CurlRequestCore_new easy),
         cx_point := (cx_point (rq_ctx w))(r := RqNew), cx_out := (cx_out (rq_ctx w))(r := []),
         cx_got := (cx_got (rq_ctx w))(r := [])\<rparr>\<rparr>"

definition initCommon :: "nat \<Rightarrow> string \<Rightarrow> curl_sys \<Rightarrow> curl_sys \<times> nat res" where
  "initCommon r url w = (case cc_easy (rq_core w r) of
     None \<Rightarrow> (w, Abort ''easyHandle_ != nullptr'')
   | Some e \<Rightarrow>
       if cc_url (rq_core w r) \<noteq> [] then (w, Abort ''cannot work with empty URL'')
       else if cx_expired (rq_ctx w) then (w, Abort ''Curl object must outlive any request'')
       else (curl_easy_setopt e (\<lambda>h. h\<lparr>eo_follow := True\<rparr>)
              (curl_easy_setopt e (\<lambda>h. h\<lparr>eo_private := Some r\<rparr>)
                (curl_easy_setopt e (\<lambda>h. h\<lparr>eo_write := Some r\<rparr>)
                  (curl_easy_setopt e (\<lambda>h. h\<lparr>eo_url := Some url\<rparr>)
                    (set_core r ((rq_core w r)\<lparr>cc_url := url\<rparr>) w)))), Ok e))"

definition initGet :: "nat \<Rightarrow> string \<Rightarrow> curl_sys \<Rightarrow> curl_sys \<times> unit res" where
  "initGet r url w = rbind (initCommon r url w) (\<lambda>w1 e. (addHandle e w1, Ok ()))"

definition initPost :: "(string \<Rightarrow> string) \<Rightarrow> nat \<Rightarrow> string \<Rightarrow> (string \<times> string) list \<Rightarrow> curl_sys \<Rightarrow> curl_sys \<times> unit res" where
  "initPost enc r url fs w = rbind (initCommon r url w) (\<lambda>w1 e.
     if cc_payload (rq_core w1 r) \<noteq> None then (w1, Abort ''!payload_'')
     else (addHandle e
            (curl_easy_setopt e (\<lambda>h. h\<lparr>eo_fields := Some r\<rparr>)
              (curl_easy_setopt e (\<lambda>h. h\<lparr>eo_post := True\<rparr>)
                (set_core r ((rq_core w1 r)\<lparr>cc_payload := Some (formattedFields enc fs)\<rparr>) w1))), Ok ()))"

datatype curl_method = GET | POST

definition CurlRequest_new :: "nat \<Rightarrow> nat option \<Rightarrow> curl_method \<Rightarrow> string \<Rightarrow> curl_sys \<Rightarrow> curl_sys \<times> unit res" where
  "CurlRequest_new r easy m url w = (let w1 = Core_construct r easy w
     in case m of GET \<Rightarrow> initGet r url w1 | POST \<Rightarrow> (w1, Abort ''false''))"

definition CurlRequest_new_fields ::
  "(string \<Rightarrow> string) \<Rightarrow> nat \<Rightarrow> nat option \<Rightarrow> curl_method \<Rightarrow> string \<Rightarrow> (string \<times> string) list \<Rightarrow> curl_sys \<Rightarrow> curl_sys \<times> unit res" where
  "CurlRequest_new_fields enc r easy m url fs w = (let w1 = Core_construct r easy w
     in case m of POST \<Rightarrow> initPost enc r url fs w1 | GET \<Rightarrow> (w1, Abort ''false''))"

definition Curl_get :: "nat \<Rightarrow> nat option \<Rightarrow> string \<Rightarrow> curl_sys \<Rightarrow> curl_sys \<times> unit res" where
  "Curl_get r easy url w = CurlRequest_new r easy GET url w"

definition Curl_post ::
  "(string \<Rightarrow> string) \<Rightarrow> nat \<Rightarrow> nat option \<Rightarrow> string \<Rightarrow> (string \<times> string) list \<Rightarrow> curl_sys \<Rightarrow> curl_sys \<times> unit res" where
  "Curl_post enc r easy url fs w = CurlRequest_new_fields enc r easy POST url fs w"

definition CurlRequest_setTimeoutMs :: "nat \<Rightarrow> int \<Rightarrow> curl_sys \<Rightarrow> curl_sys" where
  "CurlRequest_setTimeoutMs r timeoutMs w = (case cc_easy (rq_core w r) of
     None \<Rightarrow> w | Some e \<Rightarrow> curl_easy_setopt e (\<lambda>h. h\<lparr>eo_timeout := Some timeoutMs\<rparr>) w)"

section \<open>Ends\<close>

text \<open>
  The destructor of a core. \<open>socks\<close> are the sockets for which \<open>curl_multi_remove_handle\<close> calls the
  socket function with \<open>CURL_POLL_REMOVE\<close>, which it does for those of a transfer it breaks off.
\<close>

definition Core_destroy :: "nat \<Rightarrow> int list \<Rightarrow> curl_sys \<Rightarrow> curl_sys" where
  "Core_destroy r socks w = (case cc_easy (rq_core w r) of
     None \<Rightarrow> w\<lparr>rq_live := (rq_live w)(r := False)\<rparr>
   | Some e \<Rightarrow>
       let w1 = (if cx_expired (rq_ctx w) then w
                 else removeHandle r e (w\<lparr>rq_ctx := fold uvStopPoll socks (rq_ctx w)\<rparr>))
       in w1\<lparr>rq_easy := (rq_easy w1)(e := None), rq_live := (rq_live w1)(r := False)\<rparr>)"

definition Curl_close :: "curl_sys \<Rightarrow> curl_sys \<times> unit res" where
  "Curl_close w = (case UvCurlContext_close (rq_ctx w) of (x, v) \<Rightarrow> (w\<lparr>rq_ctx := x, rq_added := []\<rparr>, v))"

definition Curl_destroy :: "curl_sys \<Rightarrow> curl_sys \<times> unit res" where
  "Curl_destroy w = (case UvCurlContext_destroy (rq_ctx w) of (x, v) \<Rightarrow> (w\<lparr>rq_ctx := x, rq_added := []\<rparr>, v))"

section \<open>The write function\<close>

text \<open>
  \<open>onCurlDataAvailable\<close>: \<open>nmemb\<close> items of \<open>sz\<close> bytes at \<open>data\<close>. The answer is \<open>nmemb\<close>; libcurl takes
  any other number than the bytes it handed over for a failure.
\<close>

definition onCurlDataAvailable ::
  "string \<Rightarrow> 64 word \<Rightarrow> 64 word \<Rightarrow> curl_core \<times> loop \<Rightarrow> (curl_core \<times> loop) \<times> 64 word" where
  "onCurlDataAvailable data sz nmemb x = (onDataAvailable (take (unat (sz * nmemb)) data) x, nmemb)"

section \<open>Requests among events\<close>

text \<open>
  \<open>CsGet\<close> and \<open>CsPost\<close> make a request at an address, with the easy handle libcurl returned; \<open>CsDrop\<close>
  destroys one. \<open>CsData\<close>, \<open>CsDone\<close> and \<open>CsWatch\<close> are libcurl's, which knows easy handles only: the
  callbacks find the request in the handle's options. The others are those of \<open>Curl_Client\<close>,
  \<open>CsClose\<close> is \<open>Curl::close()\<close> and \<open>CsEnd\<close> the destructor of \<open>Curl\<close>.
\<close>

datatype rq_event =
    CsGet nat "nat option" string | CsPost nat "nat option" string "(string \<times> string) list" | CsSetTimeout nat int
  | CsDrop nat "int list" | CsData nat string | CsDone nat int int int | CsWatch nat int int
  | CsSocket int uv_status int | CsTimeout | CsAwait nat | CsTurn | CsClose | CsEnd

definition msg_live :: "(nat \<Rightarrow> bool) \<Rightarrow> curl_msg \<Rightarrow> bool" where
  "msg_live live m = (case m of CurlDone r result code verify \<Rightarrow> live r | CurlOther \<Rightarrow> True)"

definition msgs_live :: "curl_sys \<Rightarrow> bool" where
  "msgs_live w \<longleftrightarrow> list_all (msg_live (rq_live w)) (cx_msgs (rq_ctx w))"

text \<open>Whether the requests that the code reaches for an event exist.\<close>

definition rq_reached :: "cx_event \<Rightarrow> curl_sys \<Rightarrow> bool" where
  "rq_reached ev w = (case ev of
     CxData r chunk \<Rightarrow> rq_live w r
   | CxSocket socket status events \<Rightarrow>
       (if status \<noteq> 0 then (case cx_polls (rq_ctx w) socket of None \<Rightarrow> True | Some p \<Rightarrow> rq_live w (pc_request p))
        else msgs_live w)
   | CxAwait r \<Rightarrow> rq_live w r \<and> msgs_live w
   | CxTurn \<Rightarrow> (case snd (Loop_getNext (cx_fin (rq_ctx w)) (cx_loop (rq_ctx w))) of
       noop_coroutine \<Rightarrow> True | Coro r \<Rightarrow> rq_live w r)
   | _ \<Rightarrow> True)"

definition in_ctx :: "cx_event \<Rightarrow> curl_sys \<Rightarrow> curl_sys \<times> unit res" where
  "in_ctx ev w =
     (if rq_reached ev w then (case cx_step ev (rq_ctx w) of (x, v) \<Rightarrow> (w\<lparr>rq_ctx := x\<rparr>, v))
      else (w, Abort ''use of a destroyed request''))"

text \<open>A callback of libcurl for an easy handle, with the pointer \<open>ptr\<close> of its options.\<close>

definition for_easy ::
  "(easy_handle \<Rightarrow> nat option) \<Rightarrow> nat \<Rightarrow> (nat \<Rightarrow> cx_event) \<Rightarrow> curl_sys \<Rightarrow> curl_sys \<times> unit res" where
  "for_easy ptr e ev w = (case Option.bind (rq_easy w e) ptr of
     None \<Rightarrow> (w, Abort ''use of an easy handle that is not configured'')
   | Some r \<Rightarrow> in_ctx (ev r) w)"

definition rq_step :: "(string \<Rightarrow> string) \<Rightarrow> rq_event \<Rightarrow> curl_sys \<Rightarrow> curl_sys \<times> unit res" where
  "rq_step enc ev w = (case ev of
     CsGet r easy url \<Rightarrow> Curl_get r easy url w
   | CsPost r easy url fs \<Rightarrow> Curl_post enc r easy url fs w
   | CsSetTimeout r ms \<Rightarrow> (CurlRequest_setTimeoutMs r ms w, Ok ())
   | CsDrop r socks \<Rightarrow> (Core_destroy r socks w, Ok ())
   | CsData e chunk \<Rightarrow> for_easy eo_write e (\<lambda>r. CxData r chunk) w
   | CsDone e result code verify \<Rightarrow> for_easy eo_private e (\<lambda>r. CxDone r result code verify) w
   | CsWatch e socket action \<Rightarrow> for_easy eo_private e (\<lambda>r. CxWatch r socket action) w
   | CsSocket socket status events \<Rightarrow> in_ctx (CxSocket socket status events) w
   | CsTimeout \<Rightarrow> in_ctx CxTimeout w
   | CsAwait r \<Rightarrow> in_ctx (CxAwait r) w
   | CsTurn \<Rightarrow> in_ctx CxTurn w
   | CsClose \<Rightarrow> Curl_close w
   | CsEnd \<Rightarrow> Curl_destroy w)"

text \<open>
  The rules. For the program, those of \<open>curl.h\<close>: a request is not dropped while its generator waits,
  and not used after it is dropped; the \<open>Curl\<close> object exists when a request is made or awaited; it
  is closed once. For libcurl and libuv: memory that is in use is not handed out again; libcurl
  calls back for handles it was given, with data before the end of the transfer; breaking off a
  transfer ends the watch of its sockets; libuv reports on sockets that are watched.
\<close>

definition easy_guard :: "nat option \<Rightarrow> curl_sys \<Rightarrow> bool" where
  "easy_guard easy w = (case easy of None \<Rightarrow> False | Some e \<Rightarrow> rq_easy w e = None)"

definition waits :: "curl_sys \<Rightarrow> nat \<Rightarrow> bool" where
  "waits w r \<longleftrightarrow> cx_point (rq_ctx w) r = RqSuspended \<or> cx_point (rq_ctx w) r = RqWoken"

definition watched_for :: "curl_sys \<Rightarrow> nat \<Rightarrow> int list" where
  "watched_for w r = filter (\<lambda>s. case cx_polls (rq_ctx w) s of None \<Rightarrow> False
     | Some p \<Rightarrow> pc_request p = r \<and> pc_events p \<noteq> None) (cx_sockets (rq_ctx w))"

definition rq_guard :: "rq_event \<Rightarrow> curl_sys \<Rightarrow> bool" where
  "rq_guard ev w = (case ev of
     CsGet r easy url \<Rightarrow> \<not> rq_live w r \<and> easy_guard easy w \<and> \<not> cx_expired (rq_ctx w)
   | CsPost r easy url fs \<Rightarrow> \<not> rq_live w r \<and> easy_guard easy w \<and> \<not> cx_expired (rq_ctx w)
   | CsSetTimeout r ms \<Rightarrow> rq_live w r
   | CsDrop r socks \<Rightarrow> rq_live w r \<and> \<not> waits w r \<and> list_all (\<lambda>s. s \<in> set socks) (watched_for w r)
   | CsData e chunk \<Rightarrow> e \<in> set (rq_added w) \<and>
       (case Option.bind (rq_easy w e) eo_write of None \<Rightarrow> True | Some r \<Rightarrow> cc_code (rq_core w r) = None)
   | CsDone e result code verify \<Rightarrow> e \<in> set (rq_added w)
   | CsWatch e socket action \<Rightarrow> e \<in> set (rq_added w) \<and> 1 \<le> action \<and> action \<le> 4
   | CsSocket socket status events \<Rightarrow>
       (case cx_polls (rq_ctx w) socket of None \<Rightarrow> False | Some p \<Rightarrow> pc_events p \<noteq> None)
   | CsTimeout \<Rightarrow> True
   | CsAwait r \<Rightarrow> rq_live w r \<and> \<not> cx_expired (rq_ctx w)
   | CsTurn \<Rightarrow> True
   | CsClose \<Rightarrow> cx_timer (rq_ctx w)
   | CsEnd \<Rightarrow> \<not> cx_expired (rq_ctx w))"

text \<open>
  How the easy handle of request \<open>r\<close> has to be configured, and the invariant.
\<close>

definition configured :: "nat \<Rightarrow> curl_core \<Rightarrow> easy_handle \<Rightarrow> bool" where
  "configured r c h \<longleftrightarrow> eo_url h = Some (cc_url c) \<and> eo_write h = Some r \<and> eo_private h = Some r \<and> eo_follow h \<and>
     (eo_post h \<longleftrightarrow> cc_payload c \<noteq> None) \<and> eo_fields h = (if cc_payload c = None then None else Some r)"

definition rq_inv :: "curl_sys \<Rightarrow> bool" where
  "rq_inv w \<longleftrightarrow> cx_inv (rq_ctx w) \<and>
     (\<forall>r. rq_live w r \<longrightarrow> (\<exists>e h. cc_easy (rq_core w r) = Some e \<and> rq_easy w e = Some h \<and> configured r (rq_core w r) h)) \<and>
     (\<forall>e. e \<in> set (rq_added w) \<longrightarrow> (\<exists>r. rq_live w r \<and> cc_easy (rq_core w r) = Some e)) \<and>
     (\<forall>r. waits w r \<longrightarrow> rq_live w r) \<and> msgs_live w \<and>
     (\<forall>s p. cx_polls (rq_ctx w) s = Some p \<longrightarrow>
        s \<in> set (cx_sockets (rq_ctx w)) \<and> (pc_events p \<noteq> None \<longrightarrow> rq_live w (pc_request p))) \<and>
     (\<not> cx_multi (rq_ctx w) \<longrightarrow> rq_added w = [] \<and> cx_msgs (rq_ctx w) = [] \<and> cx_polls (rq_ctx w) = (\<lambda>s. None)) \<and>
     (cx_expired (rq_ctx w) \<longrightarrow> \<not> cx_multi (rq_ctx w))"

section \<open>Lemmas\<close>

text \<open>
  What the events of the context leave alone: the identity of the requests, the watched sockets,
  and who waits, but for a request \<open>A\<close> that is being awaited.
\<close>

definition cfg :: "curl_core \<Rightarrow> nat option \<times> string \<times> string option" where
  "cfg c = (cc_easy c, cc_url c, cc_payload c)"

definition ctx_waits :: "curl_ctx \<Rightarrow> nat \<Rightarrow> bool" where
  "ctx_waits x r \<longleftrightarrow> cx_point x r = RqSuspended \<or> cx_point x r = RqWoken"

definition cx_frame :: "nat set \<Rightarrow> curl_ctx \<Rightarrow> curl_ctx \<Rightarrow> bool" where
  "cx_frame A x x' \<longleftrightarrow> (\<forall>r. cfg (cx_core x' r) = cfg (cx_core x r)) \<and> (\<forall>r. ctx_waits x' r \<longrightarrow> ctx_waits x r \<or> r \<in> A) \<and>
     set (cx_msgs x') \<subseteq> set (cx_msgs x) \<and> cx_polls x' = cx_polls x \<and> cx_sockets x' = cx_sockets x \<and>
     cx_multi x' = cx_multi x \<and> cx_expired x' = cx_expired x"

lemma cx_frame_refl: "cx_frame A x x"
  by (simp add: cx_frame_def)

lemma cx_frame_trans: "cx_frame A x y \<Longrightarrow> cx_frame A y z \<Longrightarrow> cx_frame A x z"
  by (auto simp: cx_frame_def)

lemma cfg_onDataAvailable: "cfg (fst (onDataAvailable chunk (c, l))) = cfg c"
  by (simp add: cfg_def onDataAvailable_def wake_downloader_def split: option.split)

lemma cfg_onError: "cfg (fst (onError st (c, l))) = cfg c"
  by (simp add: cfg_def onError_def wake_downloader_def curl_set_defs split: option.split)

lemma cfg_set:
  "cfg (setUvStatus st c) = cfg c" "cfg (setResponseCode k c) = cfg c" "cfg (setVerifyResult k c) = cfg c"
  "cfg (setCurlStatus k c) = cfg c"
  by (simp_all add: cfg_def curl_set_defs)

lemmas cfg_simps [simp] = cfg_onDataAvailable cfg_onError cfg_set

lemma on_core_frame:
  assumes "cx_inv x" "cfg (fst (f (cx_core x r, cx_loop x))) = cfg (cx_core x r)"
  shows "cx_frame A x (on_core r f x)"
proof -
  have "cc_handle (cx_core x r) \<noteq> None \<Longrightarrow> cx_point x r = RqSuspended"
    using cx_invD(1) [OF assms(1), of r] by (auto simp: request_inv_def split: if_splits)
  with assms(2) show ?thesis by (auto simp: cx_frame_def on_core_def ctx_waits_def split: prod.split)
qed

lemma handle_msg_frame: "cx_inv x \<Longrightarrow> cx_frame A x (handle_msg m x)"
  by (cases m) (auto simp: handle_msg_def cx_frame_refl intro: on_core_frame)

lemma checkCurlInfo_frame: "cx_inv x \<Longrightarrow> cx_frame A x (checkCurlInfo x)"
proof -
  have "cx_inv y \<Longrightarrow> cx_frame A y (fold handle_msg ms y)" for ms y
  proof (induction ms arbitrary: y)
    case (Cons m ms)
    from Cons.IH [OF handle_msg_inv [OF Cons.prems]] handle_msg_frame [OF Cons.prems]
    show ?case by (auto intro: cx_frame_trans)
  qed (simp add: cx_frame_refl)
  then show "cx_inv x \<Longrightarrow> cx_frame A x (checkCurlInfo x)"
    by (fastforce simp: checkCurlInfo_def cx_frame_def ctx_waits_def)
qed

lemma start_resumed_frame: "cx_frame A x (start_resumed r (x\<lparr>cx_loop := l\<rparr>))"
proof -
  obtain c v where cv: "Core_await_resume (cx_core x r) = (c, v)" by (cases "Core_await_resume (cx_core x r)")
  then have "cfg c = cfg (cx_core x r)" by (auto simp: Core_await_resume_def cfg_def split: if_splits list.splits)
  with cv show ?thesis
    by (auto simp: cx_frame_def ctx_waits_def start_resumed_def start_outcome_def Let_def split: option.split)
qed

lemma start_loop_frame:
  assumes "cx_inv x"
  shows "cx_frame {r} x (fst (start_loop r x))"
proof -
  let ?x = "checkCurlInfo x"
  have f: "cx_frame {r} x ?x" by (rule checkCurlInfo_frame [OF assms])
  have "cx_frame {r} ?x (start_resumed r ?x)" using start_resumed_frame [of "{r}" ?x r "cx_loop ?x"] by simp
  moreover have "cx_frame {r} ?x (?x\<lparr>cx_core := (cx_core ?x)(r := (cx_core ?x r)\<lparr>cc_handle := h\<rparr>), cx_point := (cx_point ?x)(r := RqSuspended)\<rparr>)" for h
    by (auto simp: cx_frame_def cfg_def ctx_waits_def)
  moreover have "cx_frame {r} ?x (?x\<lparr>cx_core := (cx_core ?x)(r := cx_core ?x r)\<rparr>)" by (simp add: cx_frame_def ctx_waits_def)
  ultimately show ?thesis using f cx_frame_refl [of "{r}" x]
    by (auto simp: start_loop_def Core_await_suspend_def Let_def intro: cx_frame_trans)
qed

fun awaited_by :: "cx_event \<Rightarrow> nat set" where
  "awaited_by (CxAwait r) = {r}"
| "awaited_by ev = {}"

lemma cx_step_frame:
  assumes inv: "cx_inv x" and ev: "\<And>r s a. ev \<noteq> CxWatch r s a" "\<And>r u k v. ev \<noteq> CxDone r u k v"
  shows "cx_frame (awaited_by ev) x (fst (cx_step ev x))"
proof (cases ev)
  case (CxData r chunk)
  then show ?thesis using on_core_frame [OF inv, of "onDataAvailable chunk" r "{}"]
    by (simp add: cx_step_def cx_frame_def ctx_waits_def)
next
  case (CxSocket s st events)
  then show ?thesis using on_core_frame [OF inv, of "onError st"] checkCurlInfo_frame [OF inv] cx_frame_refl
    by (auto simp: cx_step_def onCurlSocketActive_def getRequest_def split: option.split)
next
  case (CxAwait r)
  then show ?thesis using start_loop_frame [OF inv, of r] cx_frame_refl by (simp add: cx_step_def)
next
  case CxTurn
  then show ?thesis using start_resumed_frame [of "{}" x]
    by (auto simp: cx_step_def cx_frame_refl split: prod.split transfer.split) (simp add: cx_frame_def ctx_waits_def)
qed (use ev in \<open>simp_all add: cx_step_def onUvTimeout_def cx_frame_refl\<close>)

lemma rq_invD:
  assumes "rq_inv w"
  shows "cx_inv (rq_ctx w)"
    "rq_live w r \<Longrightarrow> \<exists>e h. cc_easy (rq_core w r) = Some e \<and> rq_easy w e = Some h \<and> configured r (rq_core w r) h"
    "e \<in> set (rq_added w) \<Longrightarrow> \<exists>r. rq_live w r \<and> cc_easy (rq_core w r) = Some e"
    "waits w r \<Longrightarrow> rq_live w r" "msgs_live w"
    "cx_polls (rq_ctx w) s = Some p \<Longrightarrow> s \<in> set (cx_sockets (rq_ctx w))"
    "cx_polls (rq_ctx w) s = Some p \<Longrightarrow> pc_events p \<noteq> None \<Longrightarrow> rq_live w (pc_request p)"
    "\<not> cx_multi (rq_ctx w) \<Longrightarrow> rq_added w = [] \<and> cx_msgs (rq_ctx w) = [] \<and> cx_polls (rq_ctx w) = (\<lambda>s. None)"
    "cx_expired (rq_ctx w) \<Longrightarrow> \<not> cx_multi (rq_ctx w)"
  using assms unfolding rq_inv_def by blast+

text \<open>The owner of an easy handle is in its options, hence unique.\<close>

lemma owner_unique:
  assumes "rq_inv w" "rq_live w r" "rq_live w q" "cc_easy (rq_core w r) = cc_easy (rq_core w q)"
  shows "r = q"
  using rq_invD(2) [OF assms(1,2)] rq_invD(2) [OF assms(1,3)] assms(4) by (auto simp: configured_def)

lemma added_owner:
  assumes "rq_inv w" "e \<in> set (rq_added w)"
  shows "\<exists>r h. rq_live w r \<and> cc_easy (rq_core w r) = Some e \<and> rq_easy w e = Some h \<and> configured r (rq_core w r) h"
proof -
  obtain r where r: "rq_live w r" "cc_easy (rq_core w r) = Some e" using rq_invD(3) [OF assms] by blast
  with rq_invD(2) [OF assms(1) r(1)] show ?thesis by auto
qed

lemma configured_cfg: "cfg c = cfg c' \<Longrightarrow> configured r c h = configured r c' h"
  by (simp add: cfg_def configured_def)

lemma msgs_live_subset:
  "msgs_live w \<Longrightarrow> set (cx_msgs x) \<subseteq> set (cx_msgs (rq_ctx w)) \<Longrightarrow> msgs_live (w\<lparr>rq_ctx := x\<rparr>)"
  by (auto simp: msgs_live_def list_all_iff)

lemma frame_inv:
  assumes inv: "rq_inv w" and x: "cx_inv x" and f: "cx_frame A (rq_ctx w) x" and A: "\<forall>r \<in> A. rq_live w r"
  shows "rq_inv (w\<lparr>rq_ctx := x\<rparr>)"
proof -
  let ?w = "w\<lparr>rq_ctx := x\<rparr>"
  have c: "cfg (rq_core ?w r) = cfg (rq_core w r)" for r using f by (simp add: cx_frame_def rq_core_def)
  then have e: "cc_easy (rq_core ?w r) = cc_easy (rq_core w r)" for r by (simp add: cfg_def)
  have "waits ?w r \<Longrightarrow> rq_live w r" for r
    using f A rq_invD(4) [OF inv, of r] by (auto simp: waits_def cx_frame_def ctx_waits_def)
  moreover have "msgs_live ?w" using f rq_invD(5) [OF inv] by (simp add: msgs_live_subset cx_frame_def)
  moreover have "\<not> cx_multi x \<Longrightarrow> cx_msgs x = []" using f rq_invD(8) [OF inv] by (auto simp: cx_frame_def)
  ultimately show ?thesis
    using inv x f by (simp add: rq_inv_def cx_frame_def e configured_cfg [OF c])
qed

lemma next_waits: "cx_inv x \<Longrightarrow> snd (Loop_getNext (cx_fin x) (cx_loop x)) = Coro r \<Longrightarrow> cx_point x r = RqWoken"
proof -
  assume inv: "cx_inv x" and n: "snd (Loop_getNext (cx_fin x) (cx_loop x)) = Coro r"
  have "\<forall>q \<in> set (loop_pending (\<lambda>c. False) (cx_loop x)). \<not> cx_fin x q" using inv by (auto simp: cx_inv_def cx_fin_def)
  then have live: "Loop_getNext (cx_fin x) (cx_loop x) = Loop_getNext (\<lambda>c. False) (cx_loop x)" by (rule loop_getNext_live)
  show "cx_point x r = RqWoken"
  proof (cases rule: loop_getNext_cases [of "\<lambda>c. False" "cx_loop x"])
    case (some l q)
    with n live inv show ?thesis by (auto simp: cx_inv_def)
  qed (use n live in simp)
qed

text \<open>An event of the context keeps the invariant if the requests it is about exist.\<close>

lemma in_ctx_inv:
  assumes inv: "rq_inv w" and g: "cx_guard ev (rq_ctx w)" and re: "rq_reached ev w"
    and ev: "\<And>r s a. ev \<noteq> CxWatch r s a" "\<And>r u k v. ev \<noteq> CxDone r u k v"
  shows "\<exists>w'. in_ctx ev w = (w', Ok ()) \<and> rq_inv w'"
proof -
  obtain x where x: "cx_step ev (rq_ctx w) = (x, Ok ())" "cx_inv x" using cx_step_inv [OF rq_invD(1) [OF inv] g] by blast
  have "cx_frame (awaited_by ev) (rq_ctx w) x" using cx_step_frame [OF rq_invD(1) [OF inv] ev] x(1) by simp
  moreover have "\<forall>r \<in> awaited_by ev. rq_live w r" using re by (cases ev) (auto simp: rq_reached_def)
  ultimately have "rq_inv (w\<lparr>rq_ctx := x\<rparr>)" by (intro frame_inv [OF inv x(2)])
  with x re show ?thesis by (simp add: in_ctx_def)
qed

lemma done_inv:
  assumes inv: "rq_inv w" and r: "rq_live w r" and m: "cx_multi (rq_ctx w)"
  shows "\<exists>w'. in_ctx (CxDone r u k v) w = (w', Ok ()) \<and> rq_inv w'"
  using inv r m
  by (auto simp: in_ctx_def rq_reached_def cx_step_def rq_inv_def rq_core_def waits_def msgs_live_def msg_live_def)

lemma poll_ctx_upd: "p\<lparr>pc_request := r, pc_events := e\<rparr> = \<lparr>pc_request = r, pc_events = e\<rparr>"
  by (cases p) simp

lemma polls_inv:
  assumes inv: "rq_inv w" and m: "cx_multi (rq_ctx w)"
    and ps: "\<And>s p. ps s = Some p \<Longrightarrow> s \<in> set ss \<and> (pc_events p \<noteq> None \<longrightarrow> rq_live w (pc_request p))"
  shows "rq_inv (w\<lparr>rq_ctx := (rq_ctx w)\<lparr>cx_polls := ps, cx_sockets := ss\<rparr>\<rparr>)"
  using inv m ps by (simp add: rq_inv_def rq_core_def waits_def msgs_live_def)

lemma uvStopPoll_polls:
  "uvStopPoll s x = x\<lparr>cx_polls := (cx_polls x)(s := map_option (\<lambda>p. p\<lparr>pc_events := None\<rparr>) (cx_polls x s)), cx_sockets := cx_sockets x\<rparr>"
  by (cases "cx_polls x s") (auto simp: uvStopPoll_def fun_upd_idem)

lemma watch_inv:
  assumes inv: "rq_inv w" and r: "rq_live w r" and m: "cx_multi (rq_ctx w)" and a: "1 \<le> action" "action \<le> 4"
  shows "\<exists>w'. in_ctx (CxWatch r s action) w = (w', Ok ()) \<and> rq_inv w'"
proof (cases "action = CURL_POLL_REMOVE")
  case True
  have "rq_inv (w\<lparr>rq_ctx := uvStopPoll s (rq_ctx w)\<rparr>)"
    unfolding uvStopPoll_polls by (rule polls_inv [OF inv m]) (use rq_invD(6,7) [OF inv] in \<open>auto split: if_splits\<close>)
  with True show ?thesis by (simp add: in_ctx_def rq_reached_def cx_step_def curlSocketFunction_def curl_codes)
next
  case False
  let ?x = "rq_ctx w"
  let ?p = "\<lparr>pc_request = r, pc_events = Some (watch_for action)\<rparr>"
  let ?x' = "?x\<lparr>cx_polls := (cx_polls ?x)(s \<mapsto> ?p), cx_sockets := (if cx_polls ?x s = None then cx_sockets ?x @ [s] else cx_sockets ?x)\<rparr>"
  have "curlSocketFunction r s action ?x = uvStartPoll s (watch_for action) (initPoll r s ?x)"
    using False a by (auto simp: curlSocketFunction_def curl_codes)
  also have "\<dots> = (?x', Ok ())" by (auto simp: uvStartPoll_def initPoll_def poll_ctx_upd split: option.split)
  finally have "in_ctx (CxWatch r s action) w = (w\<lparr>rq_ctx := ?x'\<rparr>, Ok ())" by (simp add: in_ctx_def rq_reached_def cx_step_def)
  moreover have "rq_inv (w\<lparr>rq_ctx := ?x'\<rparr>)"
    by (rule polls_inv [OF inv m]) (use r rq_invD(6,7) [OF inv] in \<open>auto split: if_splits\<close>)
  ultimately show ?thesis by simp
qed

text \<open>The state after a request \<open>r\<close> was made with the easy handle \<open>e\<close>.\<close>

definition made :: "nat \<Rightarrow> nat \<Rightarrow> curl_core \<Rightarrow> easy_handle \<Rightarrow> curl_sys \<Rightarrow> curl_sys" where
  "made r e c h w = addHandle e (w\<lparr>rq_live := (rq_live w)(r := True),
     rq_ctx := (rq_ctx w)\<lparr>cx_point := (cx_point (rq_ctx w))(r := RqNew), cx_out := (cx_out (rq_ctx w))(r := []),
       cx_got := (cx_got (rq_ctx w))(r := []), cx_core := (cx_core (rq_ctx w))(r := c)\<rparr>,
     rq_easy := (rq_easy w)(e \<mapsto> h)\<rparr>)"

definition get_core :: "nat \<Rightarrow> string \<Rightarrow> curl_core" where
  "get_core e url = (CurlRequestCore_new (Some e))\<lparr>cc_url := url\<rparr>"

definition get_easy :: "nat \<Rightarrow> string \<Rightarrow> easy_handle" where
  "get_easy r url = easy_fresh\<lparr>eo_url := Some url, eo_write := Some r, eo_private := Some r, eo_follow := True\<rparr>"

lemmas request_defs =
  Curl_get_def Curl_post_def CurlRequest_new_def CurlRequest_new_fields_def initGet_def initPost_def initCommon_def
  Core_construct_def curl_easy_setopt_def set_core_def rq_core_def CurlRequestCore_new_def

lemma Curl_get_made:
  "\<not> cx_expired (rq_ctx w) \<Longrightarrow> Curl_get r (Some e) url w = (made r e (get_core e url) (get_easy r url) w, Ok ())"
  by (simp add: request_defs made_def get_core_def get_easy_def)

lemma Curl_post_made:
  "\<not> cx_expired (rq_ctx w) \<Longrightarrow> Curl_post enc r (Some e) url fs w =
     (made r e ((get_core e url)\<lparr>cc_payload := Some (formattedFields enc fs)\<rparr>)
        ((get_easy r url)\<lparr>eo_post := True, eo_fields := Some r\<rparr>) w, Ok ())"
  by (simp add: request_defs made_def get_core_def get_easy_def)

lemma made_inv:
  assumes inv: "rq_inv w" and r: "\<not> rq_live w r" and e: "rq_easy w e = None"
    and c: "cc_easy c = Some e" "request_inv r RqNew c" "cc_chunks c = []" and h: "configured r c h"
  shows "rq_inv (made r e c h w)"
proof -
  let ?w = "made r e c h w"
  have nw: "\<not> waits w r" using rq_invD(4) [OF inv] r by blast
  have free: "cc_easy (rq_core w q) \<noteq> Some e" if "rq_live w q" for q using rq_invD(2) [OF inv that] e by auto
  have f: "rq_live ?w = (rq_live w)(r := True)" "rq_easy ?w = (rq_easy w)(e \<mapsto> h)"
    "rq_core ?w q = (if q = r then c else rq_core w q)" "waits ?w q \<longleftrightarrow> q \<noteq> r \<and> waits w q"
    "cx_msgs (rq_ctx ?w) = cx_msgs (rq_ctx w)" "cx_polls (rq_ctx ?w) = cx_polls (rq_ctx w)"
    "cx_sockets (rq_ctx ?w) = cx_sockets (rq_ctx w)" "cx_multi (rq_ctx ?w) = cx_multi (rq_ctx w)"
    "cx_expired (rq_ctx ?w) = cx_expired (rq_ctx w)" for q
    using nw by (auto simp: made_def addHandle_def rq_core_def waits_def)
  have a: "set (rq_added ?w) \<subseteq> insert e (set (rq_added w))" "\<not> cx_multi (rq_ctx w) \<Longrightarrow> rq_added ?w = rq_added w"
    by (auto simp: made_def addHandle_def)
  have "\<exists>e h. cc_easy (rq_core ?w q) = Some e \<and> rq_easy ?w e = Some h \<and> configured q (rq_core ?w q) h" if "rq_live ?w q" for q
  proof (cases "q = r")
    case False
    then have q: "rq_live w q" using that f(1) by simp
    from rq_invD(2) [OF inv q] free [OF q] False show ?thesis by (auto simp: f)
  qed (simp add: f c(1) h)
  moreover have "\<exists>q. rq_live ?w q \<and> cc_easy (rq_core ?w q) = Some d" if d: "d \<in> set (rq_added ?w)" for d
  proof (cases "d = e")
    case False
    then obtain q where "rq_live w q" "cc_easy (rq_core w q) = Some d" using d a(1) rq_invD(3) [OF inv] by blast
    with r show ?thesis by (intro exI [of _ q]) (auto simp: f)
  qed (auto simp: f c(1) intro!: exI [of _ r])
  moreover have "cx_inv (rq_ctx ?w)"
    using rq_invD(1) [OF inv] nw c(2,3) by (auto simp: cx_inv_def made_def addHandle_def waits_def)
  moreover have "msgs_live ?w" using rq_invD(5) [OF inv] unfolding msgs_live_def f
    by (auto simp: list_all_iff msg_live_def split: curl_msg.splits)
  ultimately show ?thesis using rq_invD(4,6-9) [OF inv] a(2) unfolding rq_inv_def by (auto simp: f)
qed

lemma request_made_inv:
  assumes "rq_inv w" "\<not> rq_live w r" "rq_easy w e = None"
  shows "rq_inv (made r e (get_core e url) (get_easy r url) w)"
    "rq_inv (made r e ((get_core e url)\<lparr>cc_payload := Some body\<rparr>) ((get_easy r url)\<lparr>eo_post := True, eo_fields := Some r\<rparr>) w)"
  by (rule made_inv [OF assms]; simp add: get_core_def get_easy_def CurlRequestCore_new_def request_inv_def configured_def easy_fresh_def)+

lemma timeout_inv:
  assumes inv: "rq_inv w"
  shows "rq_inv (CurlRequest_setTimeoutMs r ms w)"
proof (cases "cc_easy (rq_core w r)")
  case (Some e)
  let ?w = "curl_easy_setopt e (\<lambda>h. h\<lparr>eo_timeout := Some ms\<rparr>) w"
  have f: "rq_core ?w = rq_core w" "waits ?w = waits w" "msgs_live ?w = msgs_live w" "rq_live ?w = rq_live w"
    "rq_ctx ?w = rq_ctx w" "rq_added ?w = rq_added w"
    by (simp_all add: curl_easy_setopt_def fun_eq_iff rq_core_def waits_def msgs_live_def)
  have "\<exists>d h. cc_easy (rq_core w q) = Some d \<and> rq_easy ?w d = Some h \<and> configured q (rq_core w q) h" if "rq_live w q" for q
    using rq_invD(2) [OF inv that] by (auto simp: curl_easy_setopt_def configured_def)
  then have "rq_inv ?w" using inv by (simp add: rq_inv_def f)
  with Some show ?thesis by (simp add: CurlRequest_setTimeoutMs_def)
qed (simp add: CurlRequest_setTimeoutMs_def inv)

lemma fold_stop_polls:
  "fold uvStopPoll socks x = x\<lparr>cx_polls := (\<lambda>s. if s \<in> set socks then map_option (\<lambda>p. p\<lparr>pc_events := None\<rparr>) (cx_polls x s) else cx_polls x s)\<rparr>"
proof (induction socks arbitrary: x)
  case (Cons s socks)
  have "uvStopPoll s x = x\<lparr>cx_polls := (cx_polls x)(s := map_option (\<lambda>p. p\<lparr>pc_events := None\<rparr>) (cx_polls x s))\<rparr>"
    by (simp add: uvStopPoll_polls)
  then show ?case by (auto simp: Cons.IH option.map_comp comp_def intro!: arg_cong [where f = "\<lambda>p. x\<lparr>cx_polls := p\<rparr>"])
qed simp

lemma drop_inv:
  assumes inv: "rq_inv w" and r: "rq_live w r" and nw: "\<not> waits w r" and so: "set (watched_for w r) \<subseteq> set socks"
  shows "rq_inv (Core_destroy r socks w)"
proof -
  let ?w = "Core_destroy r socks w"
  obtain e where e: "cc_easy (rq_core w r) = Some e" using rq_invD(2) [OF inv r] by blast
  note off = rq_invD(8,9) [OF inv]
  have f: "rq_live ?w = (rq_live w)(r := False)" "rq_easy ?w = (rq_easy w)(e := None)" "rq_core ?w = rq_core w"
    "waits ?w = waits w" "rq_added ?w = removeAll e (rq_added w)" "cx_sockets (rq_ctx ?w) = cx_sockets (rq_ctx w)"
    "cx_msgs (rq_ctx ?w) = filter (\<lambda>m. \<not> msg_of r m) (cx_msgs (rq_ctx w))" "cx_multi (rq_ctx ?w) = cx_multi (rq_ctx w)"
    "cx_expired (rq_ctx ?w) = cx_expired (rq_ctx w)" "cx_inv (rq_ctx ?w) = cx_inv (rq_ctx w)"
    using e off by (auto simp: Core_destroy_def removeHandle_def fold_stop_polls Let_def rq_core_def waits_def fun_eq_iff)
  have polls: "\<exists>p0. cx_polls (rq_ctx w) s = Some p0 \<and> (pc_events p \<noteq> None \<longrightarrow> p = p0 \<and> s \<notin> set socks)"
    if "cx_polls (rq_ctx ?w) s = Some p" for s p
    using that e off by (auto simp: Core_destroy_def removeHandle_def fold_stop_polls Let_def split: if_splits)
  have watched: "rq_live ?w (pc_request p)" if p: "cx_polls (rq_ctx ?w) s = Some p" "pc_events p \<noteq> None" for s p
  proof -
    have p0: "cx_polls (rq_ctx w) s = Some p" "s \<notin> set socks" using polls [OF p(1)] p(2) by auto
    then have "s \<in> set (cx_sockets (rq_ctx w))" "s \<notin> set (watched_for w r)" using rq_invD(6) [OF inv] so by auto
    with p0 p(2) have "pc_request p \<noteq> r" by (auto simp: watched_for_def)
    with rq_invD(7) [OF inv p0(1) p(2)] show ?thesis by (simp add: f)
  qed
  have "\<exists>d h. cc_easy (rq_core ?w q) = Some d \<and> rq_easy ?w d = Some h \<and> configured q (rq_core ?w q) h" if "rq_live ?w q" for q
  proof -
    from that have q: "rq_live w q" "q \<noteq> r" by (auto simp: f split: if_splits)
    with owner_unique [OF inv q(1) r] e have "cc_easy (rq_core w q) \<noteq> Some e" by auto
    with rq_invD(2) [OF inv q(1)] show ?thesis by (auto simp: f)
  qed
  moreover have "\<exists>q. rq_live ?w q \<and> cc_easy (rq_core ?w q) = Some d" if "d \<in> set (rq_added ?w)" for d
    using rq_invD(3) [OF inv, of d] that e by (force simp: f)
  moreover have "msgs_live ?w" using rq_invD(5) [OF inv] unfolding msgs_live_def f
    by (auto simp: list_all_iff msg_live_def msg_of_def split: curl_msg.splits)
  moreover have "\<not> cx_multi (rq_ctx ?w) \<Longrightarrow> cx_polls (rq_ctx ?w) = (\<lambda>s. None)"
    using polls off by (fastforce simp: f fun_eq_iff)
  ultimately show ?thesis using rq_invD(1,4) [OF inv] off nw watched polls rq_invD(6) [OF inv]
    unfolding rq_inv_def by (fastforce simp: f)
qed

lemma rq_off_inv:
  assumes "rq_inv w"
  shows "rq_inv (w\<lparr>rq_ctx := (rq_ctx w)\<lparr>cx_multi := False, cx_msgs := [], cx_polls := (\<lambda>s. None), cx_sockets := [], cx_timer := False\<rparr>, rq_added := []\<rparr>)"
    "rq_inv (w\<lparr>rq_ctx := (rq_ctx w)\<lparr>cx_expired := True, cx_multi := False, cx_msgs := [], cx_polls := (\<lambda>s. None), cx_sockets := [], cx_timer := False\<rparr>, rq_added := []\<rparr>)"
  using assms by (simp_all add: rq_inv_def rq_core_def waits_def msgs_live_def cx_inv_def)

lemma for_easy_owner:
  assumes "rq_inv w" "e \<in> set (rq_added w)" "ptr = eo_write \<or> ptr = eo_private"
  shows "\<exists>r. rq_live w r \<and> cx_multi (rq_ctx w) \<and> Option.bind (rq_easy w e) ptr = Some r \<and> for_easy ptr e ev w = in_ctx (ev r) w"
proof -
  obtain r h where "rq_live w r" "rq_easy w e = Some h" "configured r (rq_core w r) h" using added_owner [OF assms(1,2)] by blast
  moreover have "cx_multi (rq_ctx w)" using rq_invD(8) [OF assms(1)] assms(2) by (cases "cx_multi (rq_ctx w)") auto
  ultimately show ?thesis using assms(3) by (auto simp: for_easy_def configured_def)
qed

lemma rq_step_inv:
  assumes inv: "rq_inv w" and g: "rq_guard ev w"
  shows "\<exists>w'. rq_step enc ev w = (w', Ok ()) \<and> rq_inv w'"
proof (cases ev)
  case (CsGet r easy url)
  then show ?thesis using g request_made_inv(1) [OF inv, of r]
    by (auto simp: rq_step_def rq_guard_def easy_guard_def Curl_get_made split: option.splits)
next
  case (CsPost r easy url fs)
  then show ?thesis using g request_made_inv(2) [OF inv, of r]
    by (auto simp: rq_step_def rq_guard_def easy_guard_def Curl_post_made split: option.splits)
next
  case (CsDrop r socks)
  then show ?thesis using g drop_inv [OF inv, of r socks] by (auto simp: rq_step_def rq_guard_def list_all_iff)
next
  case (CsData e chunk)
  with g for_easy_owner [OF inv, of e eo_write "\<lambda>r. CxData r chunk"] obtain r where
    r: "rq_live w r" "cc_code (rq_core w r) = None" "rq_step enc ev w = in_ctx (CxData r chunk) w"
    by (auto simp: rq_guard_def rq_step_def)
  with in_ctx_inv [OF inv, of "CxData r chunk"] show ?thesis by (simp add: cx_guard_def rq_reached_def rq_core_def)
next
  case (CsDone e u k v)
  with g for_easy_owner [OF inv, of e eo_private "\<lambda>r. CxDone r u k v"] obtain r where
    "rq_live w r" "cx_multi (rq_ctx w)" "rq_step enc ev w = in_ctx (CxDone r u k v) w" by (auto simp: rq_guard_def rq_step_def)
  with done_inv [OF inv, of r] show ?thesis by simp
next
  case (CsWatch e s action)
  with g for_easy_owner [OF inv, of e eo_private "\<lambda>r. CxWatch r s action"] obtain r where
    "rq_live w r" "cx_multi (rq_ctx w)" "1 \<le> action" "action \<le> 4" "rq_step enc ev w = in_ctx (CxWatch r s action) w"
    by (auto simp: rq_guard_def rq_step_def)
  with watch_inv [OF inv, of r] show ?thesis by simp
next
  case (CsSocket s st events)
  with g obtain p where p: "cx_polls (rq_ctx w) s = Some p" "pc_events p \<noteq> None" by (auto simp: rq_guard_def split: option.splits)
  with rq_invD(5,7) [OF inv] in_ctx_inv [OF inv, of "CxSocket s st events"] CsSocket show ?thesis
    by (simp add: rq_step_def cx_guard_def rq_reached_def)
next
  case (CsAwait r)
  with g rq_invD(5) [OF inv] in_ctx_inv [OF inv, of "CxAwait r"] show ?thesis
    by (simp add: rq_step_def rq_guard_def cx_guard_def rq_reached_def)
next
  case CsTurn
  have "rq_reached CxTurn w" using next_waits [OF rq_invD(1) [OF inv]] rq_invD(4) [OF inv]
    by (auto simp: rq_reached_def waits_def split: transfer.split)
  with CsTurn in_ctx_inv [OF inv, of CxTurn] show ?thesis by (simp add: rq_step_def cx_guard_def)
next
  case CsClose
  with g rq_off_inv [OF inv] show ?thesis by (simp add: rq_step_def rq_guard_def Curl_close_def UvCurlContext_close_def Let_def)
next
  case CsEnd
  with rq_off_inv [OF inv] show ?thesis by (simp add: rq_step_def Curl_destroy_def UvCurlContext_destroy_def)
next
  case CsTimeout
  with in_ctx_inv [OF inv, of CxTimeout] show ?thesis by (simp add: rq_step_def cx_guard_def rq_reached_def)
qed (simp add: rq_step_def timeout_inv [OF inv])

interpretation curl_requests: guarded_system "rq_step enc" rq_guard rq_inv
  by unfold_locales (rule rq_step_inv)

lemma rq_start_inv: "rq_inv Curl_new"
  using cx_start_inv by (auto simp: rq_inv_def Curl_new_def waits_def msgs_live_def UvCurlContext_new_def)

section \<open>Properties\<close>


text \<open>Two requests, one of them dropped and its address and easy handle used again.\<close>

definition two_requests :: "rq_event list" where
  "two_requests = [CsGet 0 (Some 7) ''http://a/'', CsPost 1 (Some 8) ''http://b/'' [(''k'', ''v'')], CsAwait 0, CsWatch 7 3 1,
     CsData 7 ''x'', CsTurn, CsAwait 0, CsDone 7 0 200 0, CsSocket 3 0 1, CsTurn, CsDrop 0 [3], CsGet 0 (Some 7) ''http://c/'',
     CsWatch 7 3 1, CsSocket 3 (-104) 0, CsAwait 1, CsClose, CsEnd, CsDrop 0 []]"


text \<open>The first request of that run got its data, and libcurl works on both requests before the close.\<close>

lemma two_requests_served:
  "let r = res_run (rq_step escape_reserved) (take 10 two_requests) Curl_new
   in snd r = Ok () \<and> cx_point (rq_ctx (fst r)) 0 = RqDone \<and> cx_out (rq_ctx (fst r)) 0 = [''x''] \<and>
      rq_added (fst r) = [7, 8] \<and> cc_payload (rq_core (fst r) 1) = Some ''k=v&''"
  by code_simp

text \<open>
  The rule on dropping a request is needed: if the socket of a dropped request stays watched, an
  error on it reaches the destroyed request.
\<close>

lemma dropped_request_reached:
  "snd (res_run (rq_step escape_reserved) [CsGet 0 (Some 7) ''http://a/'', CsWatch 7 3 1, CsDrop 0 [], CsSocket 3 (-104) 0] Curl_new) =
     Abort ''use of a destroyed request''"
  by code_simp

text \<open>
  The write function accepts all data as long as libcurl counts in bytes, as it does; an item size
  other than one would make libcurl take a complete write for a failed one.
\<close>

lemma write_function_accepts:
  assumes "length data < 2 ^ 64"
  shows "onCurlDataAvailable data 1 (of_nat (length data)) x = (onDataAvailable data x, of_nat (length data))"
  using assms by (simp add: onCurlDataAvailable_def unat_of_nat take_bit_nat_eq_self unsigned_of_nat)

lemma write_function_item_size:
  "onCurlDataAvailable ''abcdef'' 2 3 (c, l) = (onDataAvailable ''abcdef'' (c, l), 3)"
  by (simp add: onCurlDataAvailable_def)

end
