(* ===== verification/Run_Main.thy ===== *)
theory Run_Main
  imports Coroutine_Runtime "HOL-Library.Multiset" "HOL-Library.While_Combinator"
begin

text \<open>
  Whole programs: \<open>runMain\<close> (\<open>src/uvco/run.h\<close>) on the coroutine machine of
  \<open>Coroutine_Runtime\<close>, with \<open>Loop::run\<close> and the destructor of the loop of \<open>Event_Loop\<close>.

  The world is the machine and a flag that says whether something aborted. Resuming a coroutine
  from the loop runs it, and everything it transfers control to, until the stack is empty. libuv
  is a parameter: \<open>ready\<close> says which of the pending callbacks a call of \<open>uv_run\<close> fires.
\<close>

section \<open>The machine under the loop\<close>

type_synonym 'v world = "'v rt \<times> unit res"

definition rt_empty :: "'v rt" where
  "rt_empty = \<lparr>rt_frames = (\<lambda>c. None), rt_next = 0, rt_loop = Loop_init, rt_stack = [], rt_callbacks = []\<rparr>"

definition rt_busy :: "'v world \<Rightarrow> bool" where
  "rt_busy w \<longleftrightarrow> snd w = Ok () \<and> rt_stack (fst w) \<noteq> []"

definition rt_drain :: "'v world \<Rightarrow> 'v world" where
  "rt_drain w = while rt_busy (\<lambda>w. rt_step (fst w)) w"

definition world_loop :: "'v world \<Rightarrow> loop" where
  "world_loop w = rt_loop (fst w)"

definition world_set_loop :: "loop \<Rightarrow> 'v world \<Rightarrow> 'v world" where
  "world_set_loop l w = ((fst w)\<lparr>rt_loop := l\<rparr>, snd w)"

definition world_fin :: "'v world \<Rightarrow> coro \<Rightarrow> bool" where
  "world_fin w = rt_fin (fst w)"

definition world_resume :: "coro \<Rightarrow> 'v world \<Rightarrow> 'v world" where
  "world_resume c w = (if snd w = Ok () then rt_drain (rt_resume c (fst w)) else w)"

definition uv_turn :: "('v rt \<Rightarrow> coro list) \<Rightarrow> 'v world \<Rightarrow> 'v world" where
  "uv_turn ready w =
     (let s = fold rt_callback (ready (fst w)) (fst w)
      in (s\<lparr>rt_loop := (rt_loop s)\<lparr>uv_stop_flag := False\<rparr>\<rparr>, snd w))"

definition uv_alive :: "'v world \<Rightarrow> bool" where
  "uv_alive w \<longleftrightarrow> rt_callbacks (fst w) \<noteq> []"

text \<open>The promise of \<open>main\<close>: its frame's address.\<close>

definition world_main :: "'v prog \<Rightarrow> 'v world \<Rightarrow> 'v world \<times> coro" where
  "world_main main w = (rt_drain (rt_spawn main (fst w), snd w), rt_next (fst w))"

definition world_unwrap :: "coro \<Rightarrow> 'v world \<Rightarrow> 'v world \<times> 'v res" where
  "world_unwrap p w = (case rt_frames (fst w) p of
     None \<Rightarrow> (w, Abort ''unwrap of a destroyed promise'')
   | Some f \<Rightarrow> (case Promise_unwrap (fr_core f) of (k, r) \<Rightarrow> ((rt_set_core p k (fst w), snd w), r)))"

definition world_destroy :: "coro \<Rightarrow> 'v world \<Rightarrow> 'v world" where
  "world_destroy p w = (case snd w of Ok u \<Rightarrow> rt_destroy p (fst w) | _ \<Rightarrow> w)"

definition rt_runMain :: "('v rt \<Rightarrow> coro list) \<Rightarrow> 'v prog \<Rightarrow> 'v res option" where
  "rt_runMain ready main =
     map_option (\<lambda>(w, r). case snd w of Ok u \<Rightarrow> r | Exn e \<Rightarrow> Exn e | Abort m \<Rightarrow> Abort m)
       (runMain world_loop world_set_loop world_fin world_resume (uv_turn ready) uv_alive
         (world_main main) world_unwrap world_destroy (rt_empty, Ok ()))"

text \<open>
  What libuv promises: a call of \<open>uv_run\<close> fires pending callbacks, each once, and at least one
  if nothing makes it return early.
\<close>

definition uv_ready_ok :: "('v rt \<Rightarrow> coro list) \<Rightarrow> bool" where
  "uv_ready_ok ready \<longleftrightarrow> (\<forall>s. distinct (ready s) \<and> set (ready s) \<subseteq> set (rt_callbacks s) \<and>
     (rt_queue s = [] \<and> rt_callbacks s \<noteq> [] \<longrightarrow> ready s \<noteq> []))"

definition rt_disciplined :: "'v prog \<Rightarrow> bool" where
  "rt_disciplined main \<longleftrightarrow> (\<forall>s. rt_reaches main s \<longrightarrow> rt_legal s \<and> rt_frames s 0 \<noteq> None)"

text \<open>A program that waits for one callback, and a libuv that fires one callback per turn.\<close>

definition listen_main :: "nat prog" where
  "listen_main = Listen (Return 5)"

definition fire_one :: "'v rt \<Rightarrow> coro list" where
  "fire_one s = take 1 (rt_callbacks s)"

section \<open>Work\<close>

text \<open>What is left to do of a coroutine that runs, or that is suspended.\<close>

datatype (dead 'v) item = Run "'v prog" | Sus "'v fstate"

inductive item_less :: "'v item \<Rightarrow> 'v item \<Rightarrow> bool" where
  "item_less (Run (k r)) (Run (Await q k))"
| "item_less (Sus (AwaitingPromise q k)) (Run (Await q k))"
| "item_less (Run (k r)) (Sus (AwaitingPromise q k))"
| "item_less (Run b) (Run (Spawn b k'))"
| "item_less (Run (k' d)) (Run (Spawn b k'))"
| "item_less (Sus (AwaitingLoop p)) (Run (Yield p))"
| "item_less (Sus (AwaitingLoop p)) (Run (Listen p))"
| "item_less (Run p) (Sus (AwaitingLoop p))"
| "item_less (Run p) (Run (Drop ds p))"

inductive_cases item_less_Run: "item_less x (Run p)"
inductive_cases item_less_Sus: "item_less x (Sus f)"

abbreviation item_order :: "('v item \<times> 'v item) set" where
  "item_order \<equiv> {(x, y). item_less x y}"

definition state_work :: "'v fstate \<Rightarrow> 'v item multiset" where
  "state_work st = (if st = Running \<or> st = AtFinal then {#} else {#Sus st#})"

definition frame_work :: "'v rt \<Rightarrow> coro \<Rightarrow> 'v item multiset" where
  "frame_work s c = (case rt_frames s c of None \<Rightarrow> {#} | Some f \<Rightarrow> state_work (fr_state f))"

definition work :: "'v rt \<Rightarrow> 'v item multiset" where
  "work s = mset (map (\<lambda>x. Run (snd x)) (rt_stack s)) + (\<Sum>c<rt_next s. frame_work s c)"

abbreviation ends :: "'v item \<Rightarrow> bool" where
  "ends \<equiv> Wellfounded.accp item_less"

lemma Sus_acc:
  "(\<And>r. ends (Run (k r))) \<Longrightarrow> ends (Sus (AwaitingPromise q k))"
  "ends (Run p) \<Longrightarrow> ends (Sus (AwaitingLoop p))"
  "ends (Sus Running)" "ends (Sus AtFinal)"
  by (rule accp.accI, erule item_less_Sus, simp_all)+

lemma Run_acc: "ends (Run p)"
proof (induction p)
  case (Await q k)
  then have "ends (Run (k r))" for r by blast
  with Sus_acc(1) [of k q] show ?case by - (rule accp.accI, erule item_less_Run, simp_all)
qed (rule accp.accI, erule item_less_Run, simp_all add: Sus_acc)+

lemma wf_item: "wf item_order"
proof -
  have "ends x" for x
  proof (cases x)
    case (Sus f)
    then show ?thesis by (cases f) (simp_all add: Sus_acc Run_acc)
  qed (simp add: Run_acc)
  then have "wfp item_less" by (intro accp_wfpI) blast
  then show ?thesis by (simp add: wfp_def)
qed

text \<open>Replacing an item by smaller ones, and dropping others.\<close>

lemma mult_step:
  assumes "I' \<subseteq># I" "\<And>k. k \<in># K \<Longrightarrow> item_less k j"
  shows "(I' + K, I + {#j#}) \<in> mult item_order"
proof -
  obtain D where "I = I' + D" using assms(1) by (metis subset_mset.add_diff_inverse)
  moreover have "(I' + K, I' + (D + {#j#})) \<in> mult item_order"
    using assms(2) by (intro one_step_implies_mult) auto
  ultimately show ?thesis by (simp add: add.assoc)
qed

lemma sum_frames_update:
  fixes f :: "nat \<Rightarrow> 'a multiset"
  assumes "c < n"
  shows "(\<Sum>i<n. (f(c := v)) i) + f c = (\<Sum>i<n. f i) + v"
proof -
  have "(\<Sum>i<n. g i) = g c + (\<Sum>i \<in> {..<n} - {c}. g i)" for g :: "nat \<Rightarrow> 'a multiset"
    using assms by (simp add: sum.remove)
  from this [of f] this [of "f(c := v)"] show ?thesis by (simp add: ac_simps)
qed

lemma sum_frames_mono:
  fixes f g :: "nat \<Rightarrow> 'a multiset"
  assumes "\<And>i. i < n \<Longrightarrow> f i \<subseteq># g i"
  shows "(\<Sum>i<n. f i) \<subseteq># (\<Sum>i<n. g i)"
  using assms by (induction n) (auto intro!: subset_mset.add_mono)

text \<open>The work of a state whose frame \<open>c\<close> changes its state.\<close>

lemma work_set_state:
  assumes "c < rt_next s" "rt_frames s c \<noteq> None"
  shows "work (rt_set_state c st s) + frame_work s c = work s + state_work st"
proof -
  have "frame_work (rt_set_state c st s) = (frame_work s)(c := state_work st)"
    using assms(2) by (auto simp: fun_eq_iff frame_work_def rt_set_state_def)
  then show ?thesis using sum_frames_update [OF assms(1), of "frame_work s" "state_work st"]
    by (simp add: work_def rt_set_state_def ac_simps)
qed

lemma frame_work_set_core [simp]: "frame_work (rt_set_core c k s) = frame_work s"
  by (auto simp: fun_eq_iff frame_work_def rt_set_core_def split: option.split)

lemma set_core_simps [simp]:
  "rt_next (rt_set_core c k s) = rt_next s" "rt_stack (rt_set_core c k s) = rt_stack s"
  "rt_frames (rt_set_core c k s) d = None \<longleftrightarrow> rt_frames s d = None"
  by (auto simp: rt_set_core_def)

lemma work_simps [simp]:
  "work (rt_push c p s) = add_mset (Run p) (work s)"
  "work (s\<lparr>rt_loop := l\<rparr>) = work s"
  "work (rt_set_core c k s) = work s"
  "work (s\<lparr>rt_callbacks := cs\<rparr>) = work s"
proof -
  show "work (rt_set_core c k s) = work s"
    by (simp add: work_def)
qed (simp_all add: work_def rt_push_def frame_work_def)

lemma rt_resume_work:
  assumes r: "rt_resume d s = (s', Ok ())" and dom: "rt_frames s d \<noteq> None \<Longrightarrow> d < rt_next s"
  shows "(work s', work s) \<in> mult item_order"
proof -
  obtain f where f: "rt_frames s d = Some f" using r by (auto simp: rt_resume_def split: option.splits)
  with dom have d: "d < rt_next s" by simp
  have step: "(work (rt_push d p (rt_set_state d Running t)), work s) \<in> mult item_order"
    if "work t = work s" "frame_work t = frame_work s" "rt_next t = rt_next s" "rt_frames t d \<noteq> None"
      "frame_work s d = {#j#}" "item_less (Run p) j" for p t j
    using work_set_state [of d t Running] that d
      mult_step [of "work (rt_set_state d Running t)" "work (rt_set_state d Running t)" "{#Run p#}" j]
    by (auto simp: state_work_def)
  show ?thesis
  proof (cases "fr_state f")
    case (AwaitingLoop p)
    with r f step [of s "Sus (AwaitingLoop p)" p] show ?thesis
      by (auto simp: rt_resume_def frame_work_def state_work_def intro: item_less.intros)
  next
    case (AwaitingPromise q k)
    with r f obtain g core v where g: "rt_frames s q = Some g" "PromiseAwaiter_await_resume (fr_core g) = (core, v)"
      "s' = rt_push d (k v) (rt_set_state d Running (rt_set_core q core s))"
      by (auto simp: rt_resume_def split: option.splits prod.splits)
    have "(work (rt_push d (k v) (rt_set_state d Running (rt_set_core q core s))), work s) \<in> mult item_order"
      by (rule step [where j = "Sus (AwaitingPromise q k)"])
         (use f AwaitingPromise in \<open>auto simp: state_work_def frame_work_def [of s d] intro: item_less.intros\<close>)
    with g show ?thesis by simp
  qed (use r f in \<open>simp_all add: rt_resume_def\<close>)
qed

text \<open>Every step of a running coroutine leaves less to do.\<close>

lemma work_pop: "rt_stack s = (c, p) # st \<Longrightarrow> work s = work (s\<lparr>rt_stack := st\<rparr>) + {#Run p#}"
  by (simp add: work_def frame_work_def)

lemma work_suspend:
  assumes "rt_frames s c = Some f" "fr_state f = Running" "c < rt_next s" "st \<noteq> Running" "st \<noteq> AtFinal"
  shows "work (rt_set_state c st s) = add_mset (Sus st) (work s)"
  using work_set_state [of c s st] assms by (simp add: frame_work_def state_work_def)

lemma work_replace:
  assumes "rt_stack s = (c, p) # st" "work t = work (s\<lparr>rt_stack := st\<rparr>) + K" "\<And>k. k \<in># K \<Longrightarrow> item_less k (Run p)"
  shows "(work t, work s) \<in> mult item_order"
  using mult_step [of "work (s\<lparr>rt_stack := st\<rparr>)" "work (s\<lparr>rt_stack := st\<rparr>)" K "Run p"] assms work_pop [OF assms(1)] by simp

lemma rt_finish_work:
  assumes "rt_stack s = (c, p) # st" "rt_frames s c = Some f" "fr_state f = Running" "c < rt_next s"
    and "rt_finish c r (s\<lparr>rt_stack := st\<rparr>) = (t, Ok ())"
  shows "(work t, work s) \<in> mult item_order"
proof (rule work_replace [OF assms(1), where K = "{#}"])
  let ?s = "s\<lparr>rt_stack := st\<rparr>"
  obtain core l where t: "t = (rt_set_state c AtFinal (rt_set_core c core ?s))\<lparr>rt_loop := l\<rparr>"
    using assms(2,5) by (auto simp: rt_finish_def split: prod.splits)
  show "work t = work ?s + {#}"
    using work_set_state [of c "rt_set_core c core ?s" AtFinal] assms(2-4) t
    by (simp add: state_work_def) (simp add: frame_work_def state_work_def)
qed simp

lemma rt_await_work:
  assumes st: "rt_stack s = (c, Await q k) # st" and f: "rt_frames s c = Some f" "fr_state f = Running"
    and dom: "\<And>d. rt_frames s d \<noteq> None \<Longrightarrow> d < rt_next s"
    and r: "rt_await c q k (s\<lparr>rt_stack := st\<rparr>) = (t, Ok ())"
  shows "(work t, work s) \<in> mult item_order"
proof -
  let ?s = "s\<lparr>rt_stack := st\<rparr>"
  obtain g where g: "rt_frames ?s q = Some g" using r by (auto simp: rt_await_def split: option.splits)
  have go: "(work (rt_push c (k v) u), work s) \<in> mult item_order" if "work u = work ?s" for u v
    by (rule work_replace [OF st, where K = "{#Run (k v)#}"]) (use that in \<open>auto intro: item_less.intros\<close>)
  have sus: "(work t, work s) \<in> mult item_order"
    if tr: "rt_transfer x ((rt_set_state c (AwaitingPromise q k) (rt_set_core q core ?s))\<lparr>rt_loop := l\<rparr>) = (t, Ok ())"
    for x core l
  proof -
    let ?u = "(rt_set_state c (AwaitingPromise q k) (rt_set_core q core ?s))\<lparr>rt_loop := l\<rparr>"
    obtain f' where "rt_frames (rt_set_core q core ?s) c = Some f'" "fr_state f' = Running"
      using f by (cases "c = q") (simp_all add: rt_set_core_def)
    from work_suspend [OF this, of "AwaitingPromise q k"] dom [of c] f(1)
    have "work ?u = work ?s + {#Sus (AwaitingPromise q k)#}" by simp
    then have u: "(work ?u, work s) \<in> mult item_order"
      by (rule work_replace [OF st]) (auto intro: item_less.intros)
    show ?thesis
    proof (cases x)
      case noop_coroutine
      with tr u show ?thesis by (simp add: rt_transfer_def)
    next
      case (Coro d)
      have "rt_frames s d \<noteq> None" if "rt_frames ?u d \<noteq> None"
        using that by (auto simp: rt_set_state_def rt_set_core_def split: if_splits)
      with dom have "d < rt_next ?u" if "rt_frames ?u d \<noteq> None" using that by (simp add: rt_set_state_def)
      with tr Coro have "(work t, work ?u) \<in> mult item_order" by (intro rt_resume_work) (auto simp: rt_transfer_def)
      with u show ?thesis by (metis mult_def trancl_trans)
    qed
  qed
  show ?thesis using r g go sus
    by (auto simp: rt_await_def split: if_splits prod.splits res.splits)
qed

lemma rt_destroy_work:
  "rt_destroy d s = (t, Ok ()) \<Longrightarrow> work t \<subseteq># work s \<and> rt_stack t = rt_stack s"
proof -
  assume t: "rt_destroy d s = (t, Ok ())"
  then have o: "rt_next t = rt_next s" "rt_stack t = rt_stack s" "\<And>x. rt_frames t x = rt_frames s x \<or> rt_frames t x = None"
    by (auto simp: rt_destroy_def split: option.splits fstate.splits prod.splits if_splits)
  have "frame_work t i \<subseteq># frame_work s i" for i using o(3) [of i] by (auto simp: frame_work_def)
  then have "(\<Sum>c<rt_next s. frame_work t c) \<subseteq># (\<Sum>c<rt_next s. frame_work s c)" by (rule sum_frames_mono)
  with o show ?thesis by (simp add: work_def)
qed

lemma rt_destroy_all_work:
  "rt_destroy_all ds s = (t, Ok ()) \<Longrightarrow> work t \<subseteq># work s \<and> rt_stack t = rt_stack s"
proof (induction ds arbitrary: s)
  case (Cons d ds)
  then obtain u where u: "rt_destroy d s = (u, Ok ())" "rt_destroy_all ds u = (t, Ok ())"
    by (auto simp: rbind_def split: prod.splits res.splits)
  from Cons.IH [OF u(2)] rt_destroy_work [OF u(1)] show ?case by (auto intro: subset_mset.trans)
qed simp

lemma rt_inv_dom: "rt_inv s \<Longrightarrow> rt_frames s d \<noteq> None \<Longrightarrow> d < rt_next s"
  using rt_invD(1) [of s d] by (auto simp: frame_inv_def)

lemma rt_step_work:
  assumes inv: "rt_inv s" and st: "rt_stack s = (c, p) # st" and r: "rt_step s = (t, Ok ())"
  shows "(work t, work s) \<in> mult item_order"
proof -
  obtain f where f: "rt_frames s c = Some f" "fr_state f = Running" using rt_inv_running [OF inv st] by blast
  note dom = rt_inv_dom [OF inv]
  have c: "c < rt_next s" using dom [of c] f(1) by simp
  let ?s = "s\<lparr>rt_stack := st\<rparr>"
  have a: "rt_act c p ?s = (t, Ok ())" using r st by (simp add: rt_step_def)
  have sus: "(work ((rt_set_state c (AwaitingLoop q) ?s)\<lparr>rt_loop := l, rt_callbacks := cs\<rparr>), work s) \<in> mult item_order"
    if "item_less (Sus (AwaitingLoop q)) (Run p)" for q l cs
    by (rule work_replace [OF st, where K = "{#Sus (AwaitingLoop q)#}"])
       (use work_suspend [of ?s c f "AwaitingLoop q"] f c that in simp_all)
  show ?thesis
  proof (cases p)
    case (Await q k)
    with rt_await_work [OF st [unfolded Await] f dom] a show ?thesis by (simp add: rt_act_def)
  next
    case (Spawn b k)
    have "frame_work t i = frame_work ?s i" if "i < rt_next s" for i
      using a Spawn that by (auto simp: rt_act_def rt_spawn_def rt_push_def Let_def frame_work_def)
    moreover have "frame_work t (rt_next s) = {#}"
      using a Spawn by (auto simp: rt_act_def rt_spawn_def rt_push_def Let_def frame_work_def state_work_def)
    ultimately have "work t = work ?s + {#Run b, Run (k (rt_next s))#}"
      using a Spawn by (auto simp: work_def rt_act_def rt_spawn_def rt_push_def Let_def)
    then show ?thesis by (rule work_replace [OF st]) (auto simp: Spawn intro: item_less.intros)
  next
    case (Drop ds q)
    then obtain u where u: "rt_destroy_all ds ?s = (u, Ok ())" "t = rt_push c q u"
      using a by (auto simp: rt_act_def rbind_def split: prod.splits res.splits)
    show ?thesis
      using mult_step [OF conjunct1 [OF rt_destroy_all_work [OF u(1)]], of "{#Run q#}" "Run p"] u(2) work_pop [OF st]
      by (auto simp: Drop intro: item_less.intros)
  next
    case (Yield q)
    with a sus [where q = q and l = "Loop_enqueue (Some c) (rt_loop s)" and cs = "rt_callbacks s"] show ?thesis
      by (auto simp: rt_act_def rt_set_state_def intro: item_less.intros)
  next
    case (Listen q)
    with a sus [where q = q and l = "rt_loop s" and cs = "c # rt_callbacks s"] show ?thesis
      by (auto simp: rt_act_def rt_set_state_def intro: item_less.intros)
  qed (use a rt_finish_work [OF st f c] in \<open>auto simp: rt_act_def\<close>)
qed

section \<open>The loops end\<close>

abbreviation less_work :: "'v rt \<Rightarrow> 'v rt \<Rightarrow> bool" where
  "less_work t s \<equiv> (work t, work s) \<in> mult item_order"

abbreviation rt_runAll :: "'v world \<Rightarrow> 'v world option" where
  "rt_runAll \<equiv> Scheduler_runAll (world_scheduler world_loop) (world_set_scheduler world_loop world_set_loop) world_fin world_resume"

abbreviation rt_runAll_step :: "'v world \<Rightarrow> 'v world" where
  "rt_runAll_step \<equiv> runAll_step (world_scheduler world_loop) (world_set_scheduler world_loop world_set_loop) world_fin world_resume"

definition world_order :: "('v world \<times> 'v world) set" where
  "world_order = inv_image (mult item_order <*lex*> less_than) (\<lambda>w. (work (fst w), length (rt_queue (fst w))))"

lemma wf_world: "wf world_order"
  unfolding world_order_def by (intro wf_inv_image wf_lex_prod wf_mult wf_item wf_less_than)

lemma less_work_trans: "less_work u t \<Longrightarrow> less_work t s \<Longrightarrow> less_work u s"
  by (metis mult_def trancl_trans)

text \<open>A state between two resumptions.\<close>

definition rt_paused :: "'v prog \<Rightarrow> 'v rt \<Rightarrow> bool" where
  "rt_paused main s \<longleftrightarrow> rt_reaches main s \<and> rt_stack s = []"

lemma rt_drain_ends:
  assumes disc: "rt_disciplined main" and "rt_reaches main s"
  shows "\<exists>t. rt_drain (s, Ok ()) = (t, Ok ()) \<and> rt_paused main t \<and> (t = s \<or> less_work t s)"
  using wf_inv_image [OF wf_mult [OF wf_item], of work] assms(2)
proof (induction s rule: wf_induct_rule)
  case (less s)
  show ?case
  proof (cases "rt_stack s")
    case Nil
    then have "rt_drain (s, Ok ()) = (s, Ok ())" unfolding rt_drain_def by (subst while_unfold) (simp add: rt_busy_def)
    with Nil less.prems show ?thesis by (simp add: rt_paused_def)
  next
    case (Cons a st)
    have "rt_legal s" using disc less.prems by (simp add: rt_disciplined_def)
    then obtain u where u: "rt_step s = (u, Ok ())" using rt_step_inv rt_reaches_inv [OF less.prems] by blast
    have lu: "less_work u s" using rt_step_work [OF rt_reaches_inv [OF less.prems] _ u] Cons by (cases a) simp
    have "rt_reaches main u" by (rule rt_reaches.step [OF less.prems \<open>rt_legal s\<close> u])
    from less.IH [OF _ this] lu obtain t where
      t: "rt_drain (u, Ok ()) = (t, Ok ())" "rt_paused main t" "t = u \<or> less_work t u"
      by (auto simp: in_inv_image)
    have "rt_drain (s, Ok ()) = rt_drain (u, Ok ())"
      unfolding rt_drain_def using u Cons by (subst while_unfold) (simp add: rt_busy_def)
    with t lu less_work_trans show ?thesis by metis
  qed
qed

lemma runAll_step_rt:
  assumes disc: "rt_disciplined main" and p: "rt_paused main s" and q: "rt_queue s \<noteq> []"
  shows "\<exists>t. rt_runAll_step (s, Ok ()) = (t, Ok ()) \<and> rt_paused main t \<and>
    (if \<exists>c. Some c \<in> set (rt_queue s) then less_work t s else work t = work s \<and> rt_queue t = [])"
proof -
  have r: "rt_reaches main s" and st: "rt_stack s = []" using p by (simp_all add: rt_paused_def)
  note inv = rt_reaches_inv [OF r]
  have legal: "rt_legal s" using disc r by (simp add: rt_disciplined_def)
  obtain sch x where g: "Scheduler_getNextInner (rt_fin s) (loop_scheduler (rt_loop s)) = (sch, x)" by (meson surj_pair)
  let ?s = "s\<lparr>rt_loop := (rt_loop s)\<lparr>loop_scheduler := sch\<rparr>\<rparr>"
  have step: "rt_step s = rt_transfer x ?s" using g q st by (simp add: rt_step_def)
  from rt_step_inv [OF inv legal] obtain u where u: "rt_step s = (u, Ok ())" by blast
  have ru: "rt_reaches main u" by (rule rt_reaches.step [OF r legal u])
  note defs = runAll_step_def world_scheduler_def world_set_scheduler_def world_loop_def world_set_loop_def world_fin_def
  show ?thesis
  proof (cases x)
    case noop_coroutine
    with step u have "u = ?s" by (simp add: rt_transfer_def)
    moreover have "Some c \<notin> set (rt_queue s)" for c
      using rt_getNextInner [OF inv g] noop_coroutine by (auto simp: filter_empty_conv)
    moreover have "resumable sch = []" using rt_getNextInner [OF inv g] noop_coroutine by simp
    ultimately show ?thesis using noop_coroutine g ru st by (auto simp: defs rt_paused_def)
  next
    case (Coro c)
    with step u have ru': "rt_resume c ?s = (u, Ok ())" by (simp add: rt_transfer_def)
    have "less_work u ?s" using rt_inv_dom [OF inv, of c] by (intro rt_resume_work [OF ru']) simp
    then have lu: "less_work u s" by simp
    obtain t where t: "rt_drain (u, Ok ()) = (t, Ok ())" "rt_paused main t" "t = u \<or> less_work t u"
      using rt_drain_ends [OF disc ru] by blast
    have "Some c \<in> set (filter (\<lambda>h. h \<noteq> None) (rt_queue s))" using rt_getNextInner [OF inv g] Coro by simp
    then have "Some c \<in> set (rt_queue s)" by simp
    moreover have "rt_runAll_step (s, Ok ()) = (t, Ok ())"
      using Coro g ru' t(1) by (simp add: defs world_resume_def)
    moreover have "less_work t s" using t(3) lu less_work_trans by blast
    ultimately show ?thesis using t(2) by auto
  qed
qed

lemma runAll_rt:
  assumes disc: "rt_disciplined main" and p: "rt_paused main s"
  shows "\<exists>t. rt_runAll (s, Ok ()) = Some (t, Ok ()) \<and> rt_paused main t \<and> rt_queue t = [] \<and>
    (less_work t s \<or> (work t = work s \<and> (\<forall>c. Some c \<notin> set (rt_queue s))))"
proof -
  define I where "I w \<longleftrightarrow> (\<exists>t. w = (t, Ok ()) \<and> rt_paused main t \<and>
      (t = s \<or> less_work t s \<or> (work t = work s \<and> (\<forall>c. Some c \<notin> set (rt_queue s)))))" for w :: "'a world"
  have "I (rt_runAll_step w) \<and> (rt_runAll_step w, w) \<in> world_order"
    if w: "I w" and q: "resumable (world_scheduler world_loop w) \<noteq> []" for w
  proof -
    from w obtain t where t: "w = (t, Ok ())" "rt_paused main t"
      "t = s \<or> less_work t s \<or> (work t = work s \<and> (\<forall>c. Some c \<notin> set (rt_queue s)))" by (auto simp: I_def)
    then have q': "rt_queue t \<noteq> []" using q by (simp add: world_scheduler_def world_loop_def)
    obtain u where u: "rt_runAll_step (t, Ok ()) = (u, Ok ())" "rt_paused main u"
      "if \<exists>c. Some c \<in> set (rt_queue t) then less_work u t else work u = work t \<and> rt_queue u = []"
      using runAll_step_rt [OF disc t(2) q'] by blast
    have "less_work u s \<or> (work u = work s \<and> (\<forall>c. Some c \<notin> set (rt_queue s)))"
      using t(3) u(3) less_work_trans [of u t s] by (cases "\<exists>c. Some c \<in> set (rt_queue t)") auto
    then have "I (u, Ok ())" using u(2) by (simp add: I_def)
    moreover have "((u, Ok ()), (t, Ok ())) \<in> world_order"
      using u(3) q' by (auto simp: world_order_def split: if_splits)
    ultimately show ?thesis using t(1) u(1) by simp
  qed
  moreover have "I (s, Ok ())" using p by (simp add: I_def)
  ultimately obtain w where "rt_runAll (s, Ok ()) = Some w" "resumable (world_scheduler world_loop w) = []" "I w"
    using runAll_total [OF wf_world, of I "world_scheduler world_loop"
        "world_set_scheduler world_loop world_set_loop" world_fin world_resume "(s, Ok ())"] by blast
  then show ?thesis by (auto simp: I_def world_scheduler_def world_loop_def)
qed

lemma fold_callbacks:
  assumes "distinct cs" "set cs \<subseteq> set (rt_callbacks s)" "rt_paused main s"
  shows "rt_paused main (fold rt_callback cs s) \<and> work (fold rt_callback cs s) = work s \<and>
    rt_queue (fold rt_callback cs s) = rt_queue s @ map Some cs"
  using assms
proof (induction cs arbitrary: s)
  case (Cons c cs)
  have "rt_paused main (rt_callback c s)"
    using Cons.prems by (auto simp: rt_paused_def rt_callback_def intro: rt_reaches.callback [unfolded rt_callback_def])
  moreover have "set cs \<subseteq> set (rt_callbacks (rt_callback c s))"
    using Cons.prems by (auto simp: rt_callback_def) (metis in_set_remove1 subsetD)
  moreover have "work (rt_callback c s) = work s" "rt_queue (rt_callback c s) = rt_queue s @ [Some c]"
    by (simp_all add: rt_callback_def Scheduler_enqueue_def work_def frame_work_def)
  ultimately show ?case using Cons.IH [of "rt_callback c s"] Cons.prems(1) by simp
qed simp

abbreviation set_flags :: "bool \<Rightarrow> bool \<Rightarrow> 'v rt \<Rightarrow> 'v rt" where
  "set_flags b u s \<equiv> s\<lparr>rt_loop := (rt_loop s)\<lparr>loop_stopped := b, uv_stop_flag := u\<rparr>\<rparr>"

lemma rt_paused_flags: "rt_paused main s \<Longrightarrow> rt_paused main (set_flags b u s)"
  by (simp add: rt_paused_def rt_reaches.turn)

abbreviation rt_turn :: "('v rt \<Rightarrow> coro list) \<Rightarrow> 'v world \<Rightarrow> 'v world option" where
  "rt_turn ready \<equiv> Loop_turn world_loop world_set_loop world_fin world_resume (uv_turn ready)"

lemma turn_rt:
  assumes disc: "rt_disciplined main" and uv: "uv_ready_ok ready" and p: "rt_paused main s"
    and more: "rt_queue s \<noteq> [] \<or> rt_callbacks s \<noteq> []"
  shows "\<exists>t. rt_turn ready (s, Ok ()) = Some (t, Ok ()) \<and> rt_paused main t \<and> ((t, Ok ()), (s, Ok ())) \<in> world_order"
proof -
  let ?s0 = "set_flags False (uv_stop_flag (rt_loop s)) s"
  let ?s1 = "fold rt_callback (ready ?s0) ?s0"
  let ?s2 = "set_flags (loop_stopped (rt_loop ?s1)) False ?s1"
  have c: "distinct (ready ?s0)" "set (ready ?s0) \<subseteq> set (rt_callbacks ?s0)"
    and ne: "rt_queue ?s0 = [] \<Longrightarrow> rt_callbacks ?s0 \<noteq> [] \<Longrightarrow> ready ?s0 \<noteq> []"
    using uv unfolding uv_ready_ok_def by blast+
  have p1: "rt_paused main ?s1" "work ?s1 = work s" "rt_queue ?s1 = rt_queue s @ map Some (ready ?s0)"
    using fold_callbacks [OF c rt_paused_flags [OF p]] by simp_all
  have "rt_paused main ?s2" by (rule rt_paused_flags [OF p1(1)])
  from runAll_rt [OF disc this] obtain t where t: "rt_runAll (?s2, Ok ()) = Some (t, Ok ())" "rt_paused main t"
    "rt_queue t = []" "less_work t ?s2 \<or> (work t = work ?s2 \<and> (\<forall>c. Some c \<notin> set (rt_queue ?s2)))" by blast
  have "rt_turn ready (s, Ok ()) = Some (t, Ok ())"
    using t(1) by (simp add: Loop_turn_def uv_turn_def world_set_loop_def world_loop_def Let_def)
  moreover have "less_work t s \<or> (work t = work s \<and> rt_queue s \<noteq> [])"
  proof (cases "rt_queue s = []")
    case True
    with more ne have "ready ?s0 \<noteq> []" by simp
    then have "\<exists>c. Some c \<in> set (rt_queue ?s2)" using p1(3) by (cases "ready ?s0") auto
    with t(4) p1(2) show ?thesis by auto
  qed (use t(4) p1(2) in auto)
  ultimately show ?thesis using t(2,3) by (auto simp: world_order_def)
qed

lemma Loop_run_rt:
  assumes disc: "rt_disciplined main" and uv: "uv_ready_ok ready" and p: "rt_paused main s"
  shows "\<exists>t. Loop_run world_loop world_set_loop world_fin world_resume (uv_turn ready) uv_alive (s, Ok ()) = Some (t, Ok ()) \<and>
    rt_paused main t \<and> rt_queue t = [] \<and> rt_callbacks t = []"
proof -
  define I where "I w \<longleftrightarrow> (\<exists>t. w = (t, Ok ()) \<and> rt_paused main t)" for w :: "'a world"
  have "\<exists>w'. rt_turn ready w = Some w' \<and> I w' \<and> (w', w) \<in> world_order"
    if "I w" "\<not> Scheduler_empty (world_scheduler world_loop w) \<or> uv_alive w" for w
    using that turn_rt [OF disc uv]
    by (fastforce simp: I_def Scheduler_empty_def world_scheduler_def world_loop_def uv_alive_def)
  moreover have "I (s, Ok ())" using p by (simp add: I_def)
  ultimately obtain w where "Loop_run world_loop world_set_loop world_fin world_resume (uv_turn ready) uv_alive (s, Ok ()) = Some w"
    "I w" "Scheduler_empty (world_scheduler world_loop w)" "\<not> uv_alive w"
    using Loop_run_total [OF wf_world, of I world_loop uv_alive world_set_loop world_fin world_resume "uv_turn ready" "(s, Ok ())"]
    by blast
  then show ?thesis by (auto simp: I_def Scheduler_empty_def world_scheduler_def world_loop_def uv_alive_def)
qed

text \<open>After the run: the promise is unwrapped, and the promise and the loop are destroyed.\<close>

lemma Loop_destroy_idle:
  assumes uv: "uv_ready_ok ready" and "rt_queue s = []" "rt_callbacks s = []"
  shows "\<exists>t. Loop_destroy world_loop world_set_loop world_fin world_resume (uv_turn ready) (s, Ok ()) = Some ((t, Ok ()), Ok ())"
proof -
  have "set (ready s) \<subseteq> set (rt_callbacks s)" using uv unfolding uv_ready_ok_def by blast
  with assms(3) have "ready s = []" by simp
  with assms(2) show ?thesis
    by (simp add: Loop_destroy_def Scheduler_close_def world_scheduler_def world_loop_def uv_turn_def
        runAll_unfold [of "world_scheduler world_loop"] Let_def)
qed

lemma world_end:
  assumes inv: "rt_inv s" and st: "rt_stack s = []" "rt_queue s = []" "rt_callbacks s = []" and f: "rt_frames s p = Some f"
  shows "\<exists>t. world_destroy p (fst (world_unwrap p (s, Ok ()))) = (t, Ok ()) \<and> rt_queue t = [] \<and> rt_callbacks t = [] \<and>
    snd (world_unwrap p (s, Ok ())) = snd (Promise_unwrap (fr_core f))"
proof -
  obtain k r where k: "Promise_unwrap (fr_core f) = (k, r)" by (meson surj_pair)
  have fi: "frame_inv s p f" by (rule rt_invD(1) [OF inv f])
  then have nr: "fr_state f \<noteq> Running" "pc_coroutine k = Some p" "pc_state k = pc_state (fr_core f)"
    using k st(1) by (auto simp: frame_inv_def on_stack_def Promise_unwrap_def split: option.splits sum.splits)
  let ?u = "rt_set_core p k s"
  obtain t where "rt_destroy p ?u = (t, Ok ())" "rt_callbacks t = filter (\<lambda>x. x \<noteq> p) (rt_callbacks ?u)"
    "rt_queue t = map (\<lambda>h. if h = Some p then None else h) (rt_queue ?u)"
    using rt_destroy_ok [of ?u p "f\<lparr>fr_core := k\<rparr>"] nr f st(2) by (auto simp: rt_set_core_def)
  with f k st show ?thesis
    by (auto simp: world_unwrap_def world_destroy_def rt_set_core_def)
qed

section \<open>Properties\<close>


lemma fire_one_ok: "uv_ready_ok fire_one"
proof -
  have "distinct (take 1 xs)" for xs :: "coro list" by (cases xs) simp_all
  then show ?thesis by (auto simp: uv_ready_ok_def fire_one_def neq_Nil_conv dest: in_set_takeD)
qed

lemma listen_disciplined: "rt_disciplined listen_main"
proof -
  define J where "J s \<longleftrightarrow> (\<exists>f. rt_frames s = [0 \<mapsto> f] \<and> fr_state f \<in> {Running, AtFinal, AwaitingLoop (Return 5)}) \<and>
      rt_stack s \<in> {[], [(0, listen_main)], [(0, Return 5)]}" for s :: "nat rt"
  have "J s" if "rt_reaches listen_main s" for s
    using that
  proof (induction rule: rt_reaches.induct)
    case start
    show ?case by (auto simp: J_def rt_start_def rt_spawn_def rt_push_def Let_def intro!: exI)
  next
    case (step s s')
    then obtain f where f: "rt_frames s = [0 \<mapsto> f]" "fr_state f \<in> {Running, AtFinal, AwaitingLoop (Return 5)}"
      by (auto simp: J_def)
    consider "rt_stack s = []" | "rt_stack s = [(0, listen_main)]" | "rt_stack s = [(0, Return 5)]"
      using step.IH by (auto simp: J_def)
    then show ?case
    proof cases
      case 1
      with step.hyps(3) f show ?thesis
        by (auto simp: J_def rt_step_def rt_transfer_def rt_resume_def rt_push_def rt_set_state_def
            split: if_splits prod.splits transfer.splits intro!: exI)
    next
      case 2
      with step.hyps(3) f show ?thesis
        by (auto simp: J_def rt_step_def rt_act_def listen_main_def rt_set_state_def)
    next
      case 3
      with step.hyps(3) f show ?thesis
        by (auto simp: J_def rt_step_def rt_act_def rt_finish_def rt_set_state_def rt_set_core_def split: prod.splits)
    qed
  qed (auto simp: J_def rt_callback_def)
  moreover have "rt_legal s \<and> rt_frames s 0 \<noteq> None" if "J s" for s
    using that by (auto simp: J_def rt_legal_def listen_main_def)
  ultimately show ?thesis by (auto simp: rt_disciplined_def)
qed


text \<open>The value itself, and a program whose main coroutine awaits itself.\<close>

lemma runMain_listen: "rt_runMain fire_one listen_main = Some (Ok 5)"
  by code_simp

lemma runMain_stuck: "rt_runMain fire_one self_main = Some (Exn unwrap_unfulfilled)"
  by code_simp

end
