(* ===== verification/Spec2Isabelle.thy ===== *)
theory Spec2Isabelle
  imports Coroutine_Runtime Channel Combinators Select_Set Sleeps Stream_Write Stream_Server Connecting Udp_Socket Http_Service
    File_System Fs_Watch Pqxx_Client Curl_Requests Run_Main
begin

text \<open>
  \<^bold>\<open>uvco\<close> is a C++20 library of coroutines on top of libuv. A program is a set of coroutines that
  await promises; everything that takes time (timers, sockets, files, the thread pool) is an
  awaiter that registers a coroutine with libuv and is called back by it. This development models
  the library under \<open>src/uvco\<close> and proves what its users rely on.

  \<^bold>\<open>How the parts interact.\<close> A coroutine suspends in an awaiter, which stores its handle: in a promise
  core, in a waiter queue, or in the data of a libuv handle or request. Whoever completes the
  operation calls \<open>Loop::enqueue\<close>; \<open>Scheduler::runAll\<close> or a symmetric transfer
  (\<open>Loop::getNext\<close>) resumes the coroutine later. So every component is a small state machine
  around one stored handle, and the questions are the same everywhere: is the coroutine woken
  exactly once, with the right result, in the right order; is nothing left behind when the
  coroutine is cancelled; are requests and handles freed exactly once.

  \<^bold>\<open>Conventions.\<close> A coroutine is a number (\<open>coro\<close>), a handle an optional one. State is passed
  explicitly. An operation that can throw or abort returns its state and a \<open>res\<close>: \<open>Ok\<close>, an
  exception (\<open>Exn\<close>), or \<open>Abort\<close> for a failed \<open>BOOST_ASSERT\<close>, \<open>BOOST_VERIFY\<close> or an access to
  freed memory. A coroutine with an await in its body is split at its suspension points, into
  \<open>..._start\<close> and \<open>..._end\<close> parts or, for generators, the code from one suspension to the next;
  a \<open>datatype\<close> of points says where it is. libuv, libcurl, \<open>inet_pton\<close> and the like are not
  modelled: what they answer is an argument of the definitions, what they do later is an event.

  \<^bold>\<open>The theories and the code they model.\<close>
  \<^item> \<open>Uvco_Prelude\<close> (\<open>exception.h\<close>, \<open>exception.cc\<close>): results, exceptions, words, the run of a
    sequence of events, and the interface \<open>guarded_system\<close> of an event system with an invariant.
  \<^item> \<open>Bounded_Queue\<close> (\<open>bounded_queue.h\<close>): the ring buffer with 32-bit cursors. It refines a
    bounded list (\<open>bounded_fifo\<close>, interpreted as \<open>bq\<close>); \<open>put\<close>, \<open>get\<close>, \<open>forEach\<close> on every branch.
  \<^item> \<open>Event_Loop\<close> (\<open>loop/\<close>, \<open>run.h\<close>): the scheduler and the loop. The interface \<open>ready_queue\<close> (order,
    fairness, cancellation) is interpreted on both; \<open>runAll\<close> and \<open>Loop::run\<close> are partial functions
    whose termination is proved from a measure on what is left to do.
  \<^item> \<open>Promise_Core\<close> (\<open>promise/promise_core.h\<close>, \<open>promise/promise.h\<close>): the cores of \<open>Promise<T>\<close> and
    \<open>Promise<void>\<close> and their awaiters, as a refinement of a one-shot cell (\<open>one_shot\<close>).
  \<^item> \<open>Coroutine_Runtime\<close>: programs of coroutines that spawn, await, drop and resolve promises, run
    on the cores and the loop above. Safety, one holder per handle, and when a program is stuck.
  \<^item> \<open>Run_Main\<close> (\<open>run.h\<close>): \<open>runMain\<close> on that machine, with \<open>Loop::run\<close> and the destructor of the loop.
    Every disciplined program ends, by a multiset order on what its coroutines have left to do.
  \<^item> \<open>Ownership\<close> (\<open>promise/\<close>): moves, assignment, cancellation and destruction of the three kinds of promises; the interface
    \<open>accounting\<close> extends \<open>guarded_system\<close> by an account of resources, for promises and files.
  \<^item> \<open>Multi_Promise\<close> (\<open>promise/multipromise.h\<close>): generators and their consumers.
  \<^item> \<open>Select_Set\<close> (\<open>promise/select.h\<close>), \<open>Combinators\<close> (\<open>combinators.h\<close>, \<open>combinators.cc\<close>).
  \<^item> \<open>Channel\<close> (\<open>channel.h\<close>): a channel among any number of coroutines; order and capacity hold
    always, the absence of aborts and of lost wake-ups under stated rules, with an abstract channel
    that the detailed one refines.
  \<^item> \<open>Uv_Handles\<close> (\<open>internal/\<close>, \<open>close.h\<close>, \<open>close.cc\<close>): a store of libuv handles and their deletion.
  \<^item> \<open>Request_Pool\<close>: any number of requests in flight on one loop, with libuv's workers and callbacks and with
    destroyed promises, in any interleaving; the interface \<open>uv_request\<close> says what one request has to promise for all of them to be
    answered in order and released once. It is interpreted for lookups, TCP and Unix connects, all file operations
    and thread-pool work.
  \<^item> \<open>Timer\<close> (\<open>timer.cc\<close>), \<open>Sleeps\<close> (any number of sleeps against the clock), \<open>Stream\<close> (\<open>stream.h\<close>, \<open>stream.cc\<close>: every operation, and one reader in
    every interleaving), \<open>Stream_Write\<close> (any number of concurrent writes), \<open>Stream_Server\<close>
    (\<open>stream_server_base_impl.cc\<close>, \<open>pipe.cc\<close>, the servers of \<open>tcp.cc\<close> and \<open>uds.cc\<close>).
  \<^item> \<open>Name_Resolution\<close> (\<open>name_resolution.cc\<close>), \<open>Connecting\<close> (\<open>tcp.cc\<close>, \<open>uds.cc\<close>), \<open>Udp_Socket\<close> (\<open>udp.cc\<close>).
  \<^item> \<open>File_System\<close> and \<open>Fs_Watch\<close> (\<open>fs.cc\<close>), \<open>Async_Work\<close> (\<open>async_work.cc\<close>, \<open>async_work.h\<close>).
  \<^item> \<open>Http_Server\<close> and \<open>Http_Service\<close> (\<open>examples/http_server.cc\<close>): parser, printer and connection loop; the
    whole server with its listener, task set and handlers in any interleaving. \<open>Pqxx_Client\<close> (\<open>integrations/pqxx/pqxx.h\<close>).
  \<^item> \<open>Curl_Client\<close> and \<open>Curl_Requests\<close> (\<open>integrations/curl/curl.cc\<close>, \<open>curl.h\<close>): the callbacks and the download
    generator; the life of requests and of the pointers between them, libcurl and the sockets.
  \<^item> This theory: the HTTP server on the reads of a stream.

  \<^bold>\<open>What is shown.\<close> For each queue-like component (bounded queue, loop, channel, generator, listener,
  UDP receiver, file watch, download) that it delivers what it accepted, in order and once, in every
  interleaving; for each one-shot component (promise, request, timer, write) that its coroutine is
  woken exactly once with the right outcome and that cancellation leaves nothing behind; for
  owners of handles and descriptors that each is released exactly once; round trips for
  addresses, HTTP requests and form fields. Rules that a program must keep are guards of the event
  systems (\<open>polite\<close>, \<open>guard\<close>, \<open>legal\<close>); where a rule is not documented by the code, a concrete run
  shows that breaking it breaks the component.

  \<^bold>\<open>Bounds and fuel.\<close> Cursors and counters are words of their width. Vectors of waiters and chunks
  are lists; the memory is not bounded. There is no fuel: loops that may not end are partial
  functions into \<open>option\<close>. Sequences of events are arbitrary finite lists.

  \<^bold>\<open>Not modelled.\<close> libuv, libcurl and libpqxx themselves, the thread-safety of anything but the hand-over of thread-pool work, the branch of
  \<open>uds.cc\<close> for libuv before 1.46 (it does not compile), printing, tests
  and demonstration programs.
\<close>

section \<open>HTTP over a stream\<close>

text \<open>
  What the stream's reads hand to the connection handler: each read takes the next bytes the
  client has sent; end of file is an empty read.
\<close>

fun read_items :: "string \<Rightarrow> read_result list \<Rightarrow> read_item list" where
  "read_items net [] = []"
| "read_items net (GotBytes n # rs) = Chunk (take n net) # read_items (drop n net) rs"
| "read_items net (GotEof # rs) = Chunk [] # read_items net rs"
| "read_items net (GotError e # rs) = ReadFails e # read_items net rs"
| "read_items net (WasCancelled # rs) = read_items net rs"

text \<open>Reads of which each is answered by a packet of the network.\<close>

definition deliver :: "bool \<Rightarrow> string list \<Rightarrow> read_event list" where
  "deliver readable cs = concat (map (\<lambda>c. [ReadCall readable 0, ReadCallback (int (length c)), ReadTurn]) cs)"

lemma turn_keeps_stream:
  "rs_event ReadTurn r = (r', Ok ()) \<Longrightarrow> sb_stream (rs_stream r') = sb_stream (rs_stream r)"
  by (auto simp: rs_event_def rs_continue_def InStreamAwaiter_await_resume_def InStreamAwaiter_destroy_def
      InStreamAwaiter_stop_read_def Let_def split: prod.splits transfer.splits read_phase.splits res.splits if_splits option.splits)

lemma stream_delivers:
  assumes "rs_inv r" "rs_phase r = ReadIdle" "sb_stream (rs_stream r)" "\<forall>c \<in> set cs. c \<noteq> []"
  shows "\<exists>r'. res_run rs_event (deliver readable cs) r = (r', Ok ()) \<and>
    map snd (rs_results r') = map snd (rs_results r) @ map (\<lambda>c. GotBytes (length c)) cs"
  using assms
proof (induction cs arbitrary: r)
  case Nil
  then show ?case by (simp add: deliver_def)
next
  case (Cons c cs)
  obtain r1 a where r1: "rs_event (ReadCall readable 0) r = (r1, Ok ())" "rs_inv r1"
    "rs_phase r1 = ReadPending (rs_next r) a" "rs_results r1 = rs_results r"
    using rs_call_ok [OF Cons.prems(1-3), of readable 0] Cons.prems(2,3) by (auto simp: rs_event_def)
  obtain r2 b where r2: "rs_event (ReadCallback (int (length c))) r1 = (r2, Ok ())" "rs_inv r2"
    "rs_phase r2 = ReadWoken (rs_next r) b" "ia_status b = Some (int (length c))" "rs_results r2 = rs_results r"
    using rs_callback_ok [OF r1(2), of "int (length c)"] r1(3,4) by auto
  obtain r3 where r3: "rs_event ReadTurn r2 = (r3, Ok ())" "rs_inv r3" "rs_phase r3 = ReadIdle"
    "rs_results r3 = rs_results r @ [(rs_next r, read_outcome (Some (int (length c))))]"
    using rs_turn_ok [OF r2(2)] r2(3-5) by auto
  have "sb_stream (rs_stream r3)"
    using turn_keeps_stream [OF r3(1)] r2(2,3) by (simp add: rs_inv_def Let_def)
  from Cons.IH [OF r3(2,3) this] Cons.prems(4) obtain r' where
    r': "res_run rs_event (deliver readable cs) r3 = (r', Ok ())"
      "map snd (rs_results r') = map snd (rs_results r3) @ map (\<lambda>c. GotBytes (length c)) cs" by auto
  have "read_outcome (Some (int (length c))) = GotBytes (length c)"
    using Cons.prems(4) by (auto simp: read_outcome_def UV_EOF_def)
  with r1 r2 r3 r' show ?case by (simp add: deliver_def)
qed

lemma read_items_chunks: "read_items (concat cs) (map (\<lambda>c. GotBytes (length c)) cs) = map Chunk cs"
  by (induction cs) simp_all



end
